(* ===== verification/Prelude.thy ===== *)
theory Prelude
  imports Main "HOL-Library.Word"
begin

text \<open>
  What every component of the kernel's model shares: the machine types, the arithmetic of
  \<open>size_t\<close> with its wrap-around written out, the ways in which a C function may fail to
  return, and the two collections of facts the component theories add to.

  Sizes, counters and addresses of type \<open>size_t\<close> / \<open>uintptr_t\<close> (64 bits) are \<open>nat\<close>
  values below \<open>2 ^ 64\<close>; where a sum or a difference of the code can wrap it is written with
  \<open>add64\<close> or \<open>sub64\<close>. Values the code takes apart bit by bit are words.
\<close>

unbundle bit_operations_syntax

type_synonym u8 = "8 word"
type_synonym u16 = "16 word"
type_synonym u32 = "32 word"
type_synonym u64 = "64 word"

named_theorems wrap_simps \<open>wrap-around arithmetic that does not wrap\<close>
named_theorems block_simps \<open>effects of the operations on the block bitmaps\<close>

section \<open>Ways not to return\<close>

text \<open>
  \<open>Deadlock\<close>: a spinlock that is already held is waited for and nobody releases it.
  \<open>NullDeref\<close>: a member of a structure behind a \<open>NULL\<close> pointer is read or written.
  \<open>OutOfBounds\<close>: an array is indexed, or memory is written, outside its object.
  \<open>Fault\<close>: the processor refuses an address that it cannot translate.
  \<open>DivideError\<close>: a division by zero.
  \<open>Panic\<close>: the kernel calls \<open>panic\<close>, which halts the processor.
\<close>

datatype stuck = Deadlock | NullDeref | OutOfBounds | Fault | DivideError | Panic

type_synonym 'a res = "stuck + 'a"

section \<open>Arithmetic of size_t\<close>

definition add64 :: "nat \<Rightarrow> nat \<Rightarrow> nat" where
  "add64 a b = (a + b) mod 2 ^ 64"

definition sub64 :: "nat \<Rightarrow> nat \<Rightarrow> nat" where
  "sub64 a b = (a + (2 ^ 64 - b mod 2 ^ 64)) mod 2 ^ 64"

lemma add64_exact [wrap_simps]: "a + b < 2 ^ 64 \<Longrightarrow> add64 a b = a + b"
  by (simp add: add64_def)

lemma add64_less: "add64 a b < 2 ^ 64"
  by (simp add: add64_def)

lemma sub64_exact [wrap_simps]:
  assumes "b \<le> a" and "a < 2 ^ 64"
  shows "sub64 a b = a - b"
proof -
  have "b mod 2 ^ 64 = b" using assms by simp
  moreover have "a + (2 ^ 64 - b) = (a - b) + 2 ^ 64" using assms by simp
  ultimately show ?thesis using assms
    by (simp only: sub64_def) (metis le_less_trans diff_le_self mod_add_self2 mod_less)
qed

lemma sub64_wraps:
  assumes "a < b" and "b < 2 ^ 64"
  shows "sub64 a b = 2 ^ 64 - (b - a)"
  using assms by (simp add: sub64_def)

lemma sub64_less: "sub64 a b < 2 ^ 64"
  by (simp add: sub64_def)

section \<open>Sets of naturals\<close>

lemma least_above_is_Min:
  assumes "finite A" and "j \<in> A" and "\<And>k. k \<in> A \<Longrightarrow> s \<le> k" and "\<And>k. s \<le> k \<Longrightarrow> k < j \<Longrightarrow> k \<notin> A"
  shows "(j::nat) = Min A"
  using assms by (metis Min_eqI not_le_imp_less)

lemma Min_insert_pair:
  assumes "finite A" and "x \<notin> A" and "x < y"
  shows "Min (insert x (insert y A)) = (if A = {} \<or> x < Min A then x else Min (A::nat set))"
proof (cases "A = {}")
  case True
  with assms show ?thesis by simp
next
  case False
  with assms have "Min A \<noteq> x" by (metis Min_in)
  have "Min (insert x (insert y A)) = min x (min y (Min A))"
    using assms(1) False by (simp only: Min_insert finite_insert insert_not_empty not_False_eq_True)
  also have "\<dots> = (if x < Min A then x else Min A)"
    using \<open>Min A \<noteq> x\<close> assms(3) by (simp only: min_def split: if_split) linarith
  finally show ?thesis using False by simp
qed

text \<open>The result of a search upwards from \<open>i\<close> for the first index below \<open>n\<close> that satisfies \<open>P\<close>.\<close>

definition is_first :: "(nat \<Rightarrow> bool) \<Rightarrow> nat \<Rightarrow> nat \<Rightarrow> nat option \<Rightarrow> bool" where
  "is_first P i n res =
     (case res of None \<Rightarrow> \<forall>l. i \<le> l \<and> l < n \<longrightarrow> \<not> P l
      | Some j \<Rightarrow> i \<le> j \<and> j < n \<and> P j \<and> (\<forall>l. i \<le> l \<and> l < j \<longrightarrow> \<not> P l))"

lemma is_first_end: "n \<le> i \<Longrightarrow> is_first P i n None"
  by (auto simp: is_first_def)

lemma is_first_here: "i < n \<Longrightarrow> P i \<Longrightarrow> is_first P i n (Some i)"
  by (auto simp: is_first_def)

lemma is_first_step: "is_first P (Suc i) n res \<Longrightarrow> \<not> P i \<Longrightarrow> is_first P i n res"
  unfolding is_first_def
  by (cases res) (simp_all, (metis Suc_leD Suc_leI le_neq_implies_less)+)

lemma is_first_unique: "is_first P i n a \<Longrightarrow> is_first P i n b \<Longrightarrow> a = b"
  by (cases a; cases b) (auto simp: is_first_def not_less [symmetric], metis linorder_neqE_nat)

text \<open>One step after another, the first failure ending the run.\<close>

definition and_then :: "'a res \<Rightarrow> ('a \<Rightarrow> 'b res) \<Rightarrow> 'b res" where
  "and_then m f = (case m of Inl e \<Rightarrow> Inl e | Inr x \<Rightarrow> f x)"

lemma and_then_simps [simp]:
  "and_then (Inl e) f = Inl e"
  "and_then (Inr x) f = f x"
  by (simp_all add: and_then_def)

lemma and_then_cong [fundef_cong]:
  "m = n \<Longrightarrow> (\<And>x. n = Inr x \<Longrightarrow> f x = g x) \<Longrightarrow> and_then m f = and_then n g"
  by (cases n) simp_all

lemma and_then_Inr: "and_then m f = Inr y \<longleftrightarrow> (\<exists>x. m = Inr x \<and> f x = Inr y)"
  by (cases m) simp_all

end
