(* ===== verification/Spinlock.thy ===== *)
theory Spinlock
  imports Prelude
begin

text \<open>
  The spinlock of mutils/impl/spinlock.c. \<open>spinlock_lock\<close> is the view of a single thread of
  control with nobody else running: a free lock is taken, a held one is waited for forever.
  The step relation below is the view of several processors that share one lock word.
\<close>

definition atomic_compare_exchange :: "int \<Rightarrow> int \<Rightarrow> int \<Rightarrow> int \<times> bool" where
  "atomic_compare_exchange mem compare exchange =
     (if mem = compare then (exchange, True) else (mem, False))"

definition atomic_store :: "int \<Rightarrow> int \<Rightarrow> int" where
  "atomic_store mem value = value"

definition spinlock_lock :: "int \<Rightarrow> int res" where
  "spinlock_lock lock =
     (case atomic_compare_exchange lock 0 1 of (l, ok) \<Rightarrow> if ok then Inr l else Inl Deadlock)"

definition spinlock_unlock :: "int \<Rightarrow> int" where
  "spinlock_unlock lock = atomic_store lock 0"

lemma spinlock_lock_cases:
  "spinlock_lock l = (if l = 0 then Inr 1 else Inl Deadlock)"
  by (simp add: spinlock_lock_def atomic_compare_exchange_def)

lemma spinlock_unlock_0 [simp]: "spinlock_unlock l = 0"
  by (simp add: spinlock_unlock_def atomic_store_def)

section \<open>Several processors\<close>

text \<open>
  A processor is outside, spins in the loop of \<open>spinlock_lock\<close>, or has returned from it and
  not yet called \<open>spinlock_unlock\<close>. One step is one atomic instruction of one processor.
\<close>

datatype cpu_pc = Outside | Spinning | Holding

record lock_state =
  lk_word :: int
  lk_pc :: "nat \<Rightarrow> cpu_pc"

definition lock_init :: lock_state where
  "lock_init = \<lparr>lk_word = 0, lk_pc = (\<lambda>_. Outside)\<rparr>"

inductive lock_step :: "lock_state \<Rightarrow> lock_state \<Rightarrow> bool" where
  call: "lk_pc s i = Outside \<Longrightarrow> lock_step s (s\<lparr>lk_pc := (lk_pc s)(i := Spinning)\<rparr>)"
| acquire: "lk_pc s i = Spinning \<Longrightarrow> atomic_compare_exchange (lk_word s) 0 1 = (w, True) \<Longrightarrow>
    lock_step s (s\<lparr>lk_word := w, lk_pc := (lk_pc s)(i := Holding)\<rparr>)"
| spin: "lk_pc s i = Spinning \<Longrightarrow> atomic_compare_exchange (lk_word s) 0 1 = (w, False) \<Longrightarrow>
    lock_step s (s\<lparr>lk_word := w\<rparr>)"
| release: "lk_pc s i = Holding \<Longrightarrow>
    lock_step s (s\<lparr>lk_word := atomic_store (lk_word s) 0, lk_pc := (lk_pc s)(i := Outside)\<rparr>)"

inductive lock_reachable :: "lock_state \<Rightarrow> bool" where
  start: "lock_reachable lock_init"
| step: "lock_reachable s \<Longrightarrow> lock_step s t \<Longrightarrow> lock_reachable t"

text \<open>The lock word tells whether there is a holder, and there is at most one.\<close>

definition lock_inv :: "lock_state \<Rightarrow> bool" where
  "lock_inv s \<longleftrightarrow>
     (lk_word s = 0 \<and> (\<forall>i. lk_pc s i \<noteq> Holding)) \<or>
     (lk_word s = 1 \<and> (\<exists>h. \<forall>i. lk_pc s i = Holding \<longleftrightarrow> i = h))"

lemma lock_inv_free: "lk_word s = 0 \<Longrightarrow> (\<And>i. lk_pc s i \<noteq> Holding) \<Longrightarrow> lock_inv s"
  by (simp add: lock_inv_def)

lemma lock_inv_held: "lk_word s = 1 \<Longrightarrow> (\<And>i. lk_pc s i = Holding \<longleftrightarrow> i = h) \<Longrightarrow> lock_inv s"
  by (auto simp: lock_inv_def)

lemma lock_inv_holder:
  "lock_inv s \<Longrightarrow> lk_pc s i = Holding \<Longrightarrow> lk_word s = 1 \<and> (\<forall>k. lk_pc s k = Holding \<longleftrightarrow> k = i)"
  by (auto simp: lock_inv_def)

lemma lock_step_inv:
  assumes "lock_step s t" and inv: "lock_inv s"
  shows "lock_inv t"
  using assms(1)
proof (cases rule: lock_step.cases)
  case (call i)
  then have "\<And>k. lk_pc t k = Holding \<longleftrightarrow> lk_pc s k = Holding" and "lk_word t = lk_word s"
    by auto
  with inv show ?thesis by (simp add: lock_inv_def)
next
  case (acquire i w)
  with inv have "lk_word t = 1" and "\<And>k. lk_pc t k = Holding \<longleftrightarrow> k = i"
    by (auto simp: lock_inv_def atomic_compare_exchange_def split: if_splits)
  then show ?thesis by (rule lock_inv_held)
next
  case (spin i w)
  with inv show ?thesis
    by (auto simp: lock_inv_def atomic_compare_exchange_def split: if_splits)
next
  case (release i)
  with lock_inv_holder [OF inv, of i] show ?thesis
    by (intro lock_inv_free) (auto simp: atomic_store_def)
qed

lemma lock_reachable_inv: "lock_reachable s \<Longrightarrow> lock_inv s"
proof (induction rule: lock_reachable.induct)
  case start
  show ?case by (rule lock_inv_free) (simp_all add: lock_init_def)
next
  case (step s t)
  then show ?case by (blast intro: lock_step_inv)
qed

lemma lock_path: "lock_step\<^sup>*\<^sup>* s t \<Longrightarrow> lock_reachable s \<Longrightarrow> lock_reachable t"
  by (induction rule: rtranclp_induct) (auto intro: lock_reachable.step)

text \<open>
  C18. Mutual exclusion: whatever the interleaving of the processors, two of them are never both
  between \<open>spinlock_lock\<close> and \<open>spinlock_unlock\<close>, and while one is there the lock word is 1, so that
  nobody else leaves the loop.
\<close>

theorem spinlock_excludes:
  assumes "lock_step\<^sup>*\<^sup>* lock_init s" and "lk_pc s i = Holding"
  shows "(lk_pc s k = Holding \<longleftrightarrow> k = i) \<and> atomic_compare_exchange (lk_word s) 0 1 = (1, False) \<and>
    spinlock_lock (lk_word s) = Inl Deadlock"
  using lock_inv_holder [OF lock_reachable_inv [OF lock_path [OF assms(1) lock_reachable.start]] assms(2)]
  by (simp add: atomic_compare_exchange_def spinlock_lock_cases)

theorem spinlock_excludes_witness:
  "\<exists>s. lock_step\<^sup>*\<^sup>* lock_init s \<and> lk_pc s 3 = Holding \<and> lk_pc s 5 = Spinning \<and>
     lk_pc s 4 \<noteq> Holding \<and> spinlock_lock (lk_word s) = Inl Deadlock"
proof -
  define s1 where "s1 = lock_init\<lparr>lk_pc := (lk_pc lock_init)(3 := Spinning)\<rparr>"
  define s2 where "s2 = s1\<lparr>lk_pc := (lk_pc s1)(5 := Spinning)\<rparr>"
  define s3 where "s3 = s2\<lparr>lk_word := 1, lk_pc := (lk_pc s2)(3 := Holding)\<rparr>"
  have "lock_step lock_init s1" unfolding s1_def by (rule lock_step.call) (simp add: lock_init_def)
  moreover have "lock_step s1 s2"
    unfolding s2_def by (rule lock_step.call) (simp add: s1_def lock_init_def)
  moreover have "lock_step s2 s3"
    unfolding s3_def
    by (rule lock_step.acquire) (simp_all add: s2_def s1_def lock_init_def atomic_compare_exchange_def)
  ultimately have path: "lock_step\<^sup>*\<^sup>* lock_init s3" by (meson rtranclp.rtrancl_into_rtrancl rtranclp.rtrancl_refl)
  have pc: "lk_pc s3 3 = Holding" "lk_pc s3 5 = Spinning" by (simp_all add: s3_def s2_def)
  from spinlock_excludes [OF path pc(1), of 4] path pc show ?thesis by auto
qed

end
