(* ===== verification/Block_Bits.thy ===== *)
theory Block_Bits
  imports Prelude
begin

text \<open>
  The block bitmaps of one region (\<open>bpa_map_t\<close> of kernel/include/synos/mm.h and the static
  helpers of kernel/page.c): one bit per block and order, kept in one table of bytes in which
  the bitmaps of the ten orders lie one after the other. A bit is 0 when the block is free.

  \<open>void *free_area[order]\<close> is an offset into the table behind \<open>pageent\<close>, the table itself a
  function from offsets to bytes, so an index that runs past one order's bitmap reads the next
  order's bits, as in the code.
\<close>

definition MAX_ORDER :: nat where [simp]: "MAX_ORDER = 10"

definition BITS_PER_PAGE :: nat where [simp]: "BITS_PER_PAGE = 2"

definition page_size :: nat where [simp]: "page_size = 4096"

definition BLOCK_ORDER_SIZE :: "nat \<Rightarrow> nat" where
  "BLOCK_ORDER_SIZE order = page_size * 2 ^ order"

record bpa_map =
  m_pages :: nat
  m_free_area_size :: nat
  m_free_area :: "nat \<Rightarrow> nat"
  m_pages_free :: "nat \<Rightarrow> nat"
  m_next_free_page :: "nat \<Rightarrow> nat"
  m_table :: "nat \<Rightarrow> u8"

section \<open>The bit operations of the code\<close>

definition block_check :: "bpa_map \<Rightarrow> nat \<Rightarrow> nat \<Rightarrow> bool" where
  "block_check m order offset =
     ((drop_bit (offset mod 8) (m_table m (m_free_area m order + offset div 8))) AND 1 = 1)"

definition block_set :: "bpa_map \<Rightarrow> nat \<Rightarrow> nat \<Rightarrow> bpa_map" where
  "block_set m order offset =
     (let a = m_free_area m order + offset div 8 in
      m\<lparr>m_table := (m_table m)(a := m_table m a OR push_bit (offset mod 8) 1)\<rparr>)"

definition block_clear :: "bpa_map \<Rightarrow> nat \<Rightarrow> nat \<Rightarrow> bpa_map" where
  "block_clear m order offset =
     (let a = m_free_area m order + offset div 8 in
      m\<lparr>m_table := (m_table m)(a := m_table m a AND NOT (push_bit (offset mod 8) 1))\<rparr>)"

fun blocks_set :: "bpa_map \<Rightarrow> nat \<Rightarrow> nat \<Rightarrow> nat \<Rightarrow> bpa_map" where
  "blocks_set m order offset_start 0 = m"
| "blocks_set m order offset_start (Suc n) =
     blocks_set (block_set m order offset_start) order (Suc offset_start) n"

fun blocks_clear :: "bpa_map \<Rightarrow> nat \<Rightarrow> nat \<Rightarrow> nat \<Rightarrow> bpa_map" where
  "blocks_clear m order offset_start 0 = m"
| "blocks_clear m order offset_start (Suc n) =
     blocks_clear (block_clear m order offset_start) order (Suc offset_start) n"

fun free_area_length :: "nat \<Rightarrow> nat \<Rightarrow> nat" where
  "free_area_length pages 0 = pages"
| "free_area_length pages (Suc i) = free_area_length (pages div 2) i"

lemma free_area_length_div: "free_area_length pages order = pages div 2 ^ order"
  by (induction pages order rule: free_area_length.induct) (simp_all add: div_mult2_eq)

section \<open>Where the bitmaps lie\<close>

text \<open>
  The loop of \<open>region_map\<close> that lays the bitmaps out: \<open>last_size\<close> bytes for the
  previous order, rounded up when it is halved.
\<close>

function map_areas :: "nat \<Rightarrow> nat \<Rightarrow> nat \<Rightarrow> (nat \<Rightarrow> nat) \<Rightarrow> (nat \<Rightarrow> nat)" where
  "map_areas i last_pos last_size fa =
     (if i < MAX_ORDER
      then map_areas (Suc i) (last_pos + last_size) ((last_size + 1) div 2)
             (fa(i := last_pos + last_size))
      else fa)"
  by pat_completeness auto
termination
  by (relation "measure (\<lambda>(i, _, _, _). MAX_ORDER - i)") auto

declare map_areas.simps [simp del]

fun area_size :: "nat \<Rightarrow> nat \<Rightarrow> nat" where
  "area_size pages 0 = (pages + 7) div 8"
| "area_size pages (Suc i) = (area_size pages i + 1) div 2"

fun area_pos :: "nat \<Rightarrow> nat \<Rightarrow> nat" where
  "area_pos pages 0 = 0"
| "area_pos pages (Suc i) = area_pos pages i + area_size pages i"

lemma map_areas_pos:
  "map_areas (Suc i) (area_pos p i) (area_size p i) fa =
     (\<lambda>k. if i < k \<and> k < MAX_ORDER then area_pos p k else fa k)"
proof (induction "MAX_ORDER - Suc i" arbitrary: i fa)
  case 0
  then show ?case by (subst map_areas.simps) auto
next
  case (Suc n)
  have "n = MAX_ORDER - Suc (Suc i)" using Suc.hyps(2) by simp
  from Suc.hyps(1) [OF this] have "map_areas (Suc (Suc i)) (area_pos p i + area_size p i)
      ((area_size p i + 1) div 2) (fa(Suc i := area_pos p i + area_size p i)) =
    (\<lambda>k. if Suc i < k \<and> k < MAX_ORDER then area_pos p k
      else (fa(Suc i := area_pos p (Suc i))) k)"
    by (simp only: area_pos.simps area_size.simps)
  with Suc.hyps(2) show ?case
    by (subst map_areas.simps) (auto simp: fun_eq_iff)
qed

lemma area_size_covers: "p div 2 ^ k \<le> 8 * area_size p k"
proof (induction k)
  case 0
  then show ?case by simp
next
  case (Suc k)
  have "p div 2 ^ Suc k = p div 2 ^ k div 2"
    by (metis div_mult2_eq power_Suc2)
  also have "\<dots> \<le> 4 * area_size p k" using Suc by linarith
  also have "\<dots> \<le> 8 * area_size p (Suc k)" by simp
  finally show ?case .
qed

lemma area_pos_mono: "i \<le> k \<Longrightarrow> area_pos p i \<le> area_pos p k"
  by (induction k) (auto simp: le_Suc_eq)

lemma area_pos_apart: "i < k \<Longrightarrow> area_pos p i + area_size p i \<le> area_pos p k"
  using area_pos_mono [of "Suc i" k p] by simp

section \<open>Bits that have a place of their own\<close>

text \<open>The areas are where \<open>region_map\<close> puts them, and the index is inside its own area.\<close>

definition layout_ok :: "bpa_map \<Rightarrow> bool" where
  "layout_ok m \<longleftrightarrow> (\<forall>k < MAX_ORDER. m_free_area m k = area_pos (m_pages m) k)"

definition bit_valid :: "bpa_map \<Rightarrow> nat \<Rightarrow> nat \<Rightarrow> bool" where
  "bit_valid m order i \<longleftrightarrow>
     layout_ok m \<and> order < MAX_ORDER \<and> i < 8 * area_size (m_pages m) order"

lemma bit_valid_inj:
  assumes "bit_valid m o1 i" and "bit_valid m o2 k"
    and "m_free_area m o1 + i div 8 = m_free_area m o2 + k div 8" and "i mod 8 = k mod 8"
  shows "o1 = o2 \<and> i = k"
proof -
  let ?p = "m_pages m"
  have a: "area_pos ?p o1 + i div 8 = area_pos ?p o2 + k div 8"
    and b: "i div 8 < area_size ?p o1" "k div 8 < area_size ?p o2"
    using assms by (auto simp: bit_valid_def layout_ok_def less_mult_imp_div_less mult.commute)
  have "o1 = o2"
  proof (rule ccontr)
    assume "o1 \<noteq> o2"
    then consider "o1 < o2" | "o2 < o1" by linarith
    then show False
      using a b area_pos_apart [of o1 o2 ?p] area_pos_apart [of o2 o1 ?p] by cases linarith+
  qed
  moreover from this a have "i div 8 = k div 8" by simp
  with assms(4) have "i = k" by (metis div_mult_mod_eq)
  ultimately show ?thesis by simp
qed

lemma block_check_bit:
  "block_check m order i = bit (m_table m (m_free_area m order + i div 8)) (i mod 8)"
  by (simp add: block_check_def bit_iff_odd_drop_bit and_one_eq odd_iff_mod_2_eq_one)

lemma block_check_set:
  assumes "bit_valid m o1 i" and "bit_valid m o2 k"
  shows "block_check (block_set m o1 i) o2 k \<longleftrightarrow> block_check m o2 k \<or> o1 = o2 \<and> i = k"
  using bit_valid_inj [OF assms]
  by (auto simp: block_check_bit block_set_def Let_def bit_or_iff bit_push_bit_iff bit_1_iff bit_exp_iff)

lemma block_check_clear:
  assumes "bit_valid m o1 i" and "bit_valid m o2 k"
  shows "block_check (block_clear m o1 i) o2 k \<longleftrightarrow> block_check m o2 k \<and> \<not> (o1 = o2 \<and> i = k)"
  using bit_valid_inj [OF assms]
  by (auto simp: block_check_bit block_clear_def Let_def bit_and_iff bit_not_iff
      bit_push_bit_iff bit_1_iff bit_exp_iff)

lemma block_set_fields [simp]:
  "m_pages (block_set m order i) = m_pages m"
  "m_free_area (block_set m order i) = m_free_area m"
  "m_pages_free (block_set m order i) = m_pages_free m"
  "m_next_free_page (block_set m order i) = m_next_free_page m"
  by (simp_all add: block_set_def Let_def)

lemma block_clear_fields [simp]:
  "m_pages (block_clear m order i) = m_pages m"
  "m_free_area (block_clear m order i) = m_free_area m"
  "m_pages_free (block_clear m order i) = m_pages_free m"
  "m_next_free_page (block_clear m order i) = m_next_free_page m"
  by (simp_all add: block_clear_def Let_def)

lemma layout_ok_cong [simp]:
  "layout_ok (block_set m order i) = layout_ok m"
  "layout_ok (block_clear m order i) = layout_ok m"
  by (simp_all add: layout_ok_def)

lemma bit_valid_cong [simp]:
  "bit_valid (block_set m order i) = bit_valid m"
  "bit_valid (block_clear m order i) = bit_valid m"
  by (simp_all add: bit_valid_def fun_eq_iff)

section \<open>The interface the allocator uses\<close>

text \<open>
  What the allocator relies on: a bit that is set or cleared changes, and no other bit with a
  place of its own does. The client lemmas are the effects of the two loops over a range.
\<close>

locale bit_table =
  fixes valid :: "'t \<Rightarrow> nat \<Rightarrow> nat \<Rightarrow> bool"
    and check :: "'t \<Rightarrow> nat \<Rightarrow> nat \<Rightarrow> bool"
    and setb :: "'t \<Rightarrow> nat \<Rightarrow> nat \<Rightarrow> 't"
    and clearb :: "'t \<Rightarrow> nat \<Rightarrow> nat \<Rightarrow> 't"
  assumes check_setb: "valid t o1 i \<Longrightarrow> valid t o2 k \<Longrightarrow>
      check (setb t o1 i) o2 k \<longleftrightarrow> check t o2 k \<or> o1 = o2 \<and> i = k"
    and check_clearb: "valid t o1 i \<Longrightarrow> valid t o2 k \<Longrightarrow>
      check (clearb t o1 i) o2 k \<longleftrightarrow> check t o2 k \<and> \<not> (o1 = o2 \<and> i = k)"
    and valid_setb: "valid (setb t o1 i) o2 k = valid t o2 k"
    and valid_clearb: "valid (clearb t o1 i) o2 k = valid t o2 k"
begin

lemma setb_clearb_other:
  "valid t o1 i \<Longrightarrow> valid t o2 k \<Longrightarrow> (o1, i) \<noteq> (o2, k) \<Longrightarrow>
     check (setb t o1 i) o2 k = check t o2 k \<and> check (clearb t o1 i) o2 k = check t o2 k"
  by (auto simp: check_setb check_clearb)

lemma clearb_setb_restores:
  "valid t o1 i \<Longrightarrow> valid t o2 k \<Longrightarrow> check t o1 i \<Longrightarrow>
     check (setb (clearb t o1 i) o1 i) o2 k = check t o2 k"
  by (auto simp: check_setb check_clearb valid_clearb)

lemma check_fold_clearb:
  assumes "\<And>i. i \<in> set is \<Longrightarrow> valid t o1 i" and "valid t o2 k"
  shows "check (fold (\<lambda>i t. clearb t o1 i) is t) o2 k \<longleftrightarrow>
    check t o2 k \<and> \<not> (o1 = o2 \<and> k \<in> set is)"
  using assms
  by (induction "is" arbitrary: t) (auto simp: check_clearb valid_clearb)

lemma check_fold_setb:
  assumes "\<And>i. i \<in> set is \<Longrightarrow> valid t o1 i" and "valid t o2 k"
  shows "check (fold (\<lambda>i t. setb t o1 i) is t) o2 k \<longleftrightarrow>
    check t o2 k \<or> o1 = o2 \<and> k \<in> set is"
  using assms
  by (induction "is" arbitrary: t) (auto simp: check_setb valid_setb)

end

interpretation blocks: bit_table bit_valid block_check block_set block_clear
  by unfold_locales (simp_all add: block_check_set block_check_clear)

lemma blocks_clear_fold:
  "blocks_clear m order s n = fold (\<lambda>i m. block_clear m order i) [s..<s + n] m"
  by (induction m order s n rule: blocks_clear.induct) (simp_all add: upt_conv_Cons del: upt_Suc)

lemma blocks_set_fold:
  "blocks_set m order s n = fold (\<lambda>i m. block_set m order i) [s..<s + n] m"
  by (induction m order s n rule: blocks_set.induct) (simp_all add: upt_conv_Cons del: upt_Suc)

lemma blocks_clear_fields [simp]:
  "m_pages (blocks_clear m order s n) = m_pages m"
  "m_free_area (blocks_clear m order s n) = m_free_area m"
  "m_pages_free (blocks_clear m order s n) = m_pages_free m"
  "m_next_free_page (blocks_clear m order s n) = m_next_free_page m"
  by (induction m order s n rule: blocks_clear.induct) simp_all

lemma bit_valid_blocks_clear [simp]:
  "bit_valid (blocks_clear m order s n) = bit_valid m"
  by (simp add: bit_valid_def layout_ok_def fun_eq_iff)

lemma block_check_blocks_clear:
  assumes "\<And>i. s \<le> i \<Longrightarrow> i < s + n \<Longrightarrow> bit_valid m o1 i" and "bit_valid m o2 k"
  shows "block_check (blocks_clear m o1 s n) o2 k \<longleftrightarrow>
    block_check m o2 k \<and> \<not> (o1 = o2 \<and> s \<le> k \<and> k < s + n)"
  using blocks.check_fold_clearb [of "[s..<s + n]" m o1 o2 k] assms
  by (simp add: blocks_clear_fold)

end
