(* ===== verification/Buddy_Model.thy ===== *)
theory Buddy_Model
  imports Block_Bits Spinlock
begin

text \<open>
  The physical page allocator of one region: \<open>mregion_t\<close> of kernel/include/synos/mm.h and the
  buddy operations of kernel/page.c, from \<open>free_area_length\<close> to \<open>page_free\<close>, in the order
  of the code. \<open>page_alloc_si\<close> is modelled by the structure it points to and a flag,
  \<open>r_si_mapped\<close>, that says whether the pointer has been set. Indices of blocks are bounded by
  the number of pages of a region, so \<open>offset*2\<close> and \<open>offset+1\<close> are plain; the counters and
  the addresses wrap.
\<close>

record mregion =
  r_start :: nat
  r_size :: nat
  r_attrib :: u8
  r_pages_total :: nat
  r_pages_free :: nat
  r_mem_full :: bool
  r_si_mapped :: bool
  r_page_alloc_si :: bpa_map
  r_chain_length :: nat
  r_lock :: int

definition upd_si :: "(bpa_map \<Rightarrow> bpa_map) \<Rightarrow> mregion \<Rightarrow> mregion" where
  "upd_si f r = r\<lparr>r_page_alloc_si := f (r_page_alloc_si r)\<rparr>"

definition nfp_put :: "nat \<Rightarrow> nat \<Rightarrow> bpa_map \<Rightarrow> bpa_map" where
  "nfp_put order v m = m\<lparr>m_next_free_page := (m_next_free_page m)(order := v)\<rparr>"

definition cnt_put :: "nat \<Rightarrow> nat \<Rightarrow> bpa_map \<Rightarrow> bpa_map" where
  "cnt_put order v m = m\<lparr>m_pages_free := (m_pages_free m)(order := v)\<rparr>"

section \<open>Searching\<close>

function order_max_from :: "nat \<Rightarrow> nat \<Rightarrow> nat" where
  "order_max_from order pages =
     (if order < MAX_ORDER
      then if pages mod 2 \<noteq> 0 then order else order_max_from (Suc order) (pages div 2)
      else MAX_ORDER - 1)"
  by pat_completeness auto
termination
  by (relation "measure (\<lambda>(order, _). MAX_ORDER - order)") auto

declare order_max_from.simps [simp del]

definition order_max :: "nat \<Rightarrow> nat" where
  "order_max pages = order_max_from 0 pages"

lemma order_max_from_0: "order_max_from order 0 = MAX_ORDER - 1"
  by (induction "MAX_ORDER - order" arbitrary: order)
    (subst order_max_from.simps, auto)+

lemma order_max_positive: "order_max p \<noteq> MAX_ORDER - 1 \<Longrightarrow> 0 < p"
  by (cases "p = 0") (simp_all add: order_max_def order_max_from_0)

function find_free_from :: "bpa_map \<Rightarrow> nat \<Rightarrow> nat \<Rightarrow> nat option" where
  "find_free_from m order i =
     (if i < free_area_length (m_pages m) order
      then if \<not> block_check m order i then Some i else find_free_from m order (Suc i)
      else None)"
  by pat_completeness auto
termination
  by (relation "measure (\<lambda>(m, order, i). free_area_length (m_pages m) order - i)") auto

declare find_free_from.simps [simp del]

definition find_next_free_page :: "bpa_map \<Rightarrow> nat \<Rightarrow> nat \<Rightarrow> bpa_map \<times> nat" where
  "find_next_free_page m order start =
     (case find_free_from m order start of
        Some i \<Rightarrow> (m, i)
      | None \<Rightarrow> (cnt_put order 0 m, 0))"

section \<open>Laying out a region\<close>

function free_area_map_loop :: "bpa_map \<Rightarrow> nat \<Rightarrow> bpa_map" where
  "free_area_map_loop m p =
     (let order = order_max p in
      if order \<noteq> MAX_ORDER - 1 then
        if free_area_length (m_pages m) (order + 1) = 0 then
          let m = cnt_put order (free_area_length p order) m
          in blocks_clear m order 0 (m_pages_free m order)
        else
          let m = nfp_put order (free_area_length p order - 1) m;
              m = block_clear m order (m_next_free_page m order);
              m = cnt_put order (add64 (m_pages_free m order) 1) m
          in free_area_map_loop m (p - 2 ^ order)
      else
        let m = cnt_put order (free_area_length p order) m
        in blocks_clear m order 0 (m_pages_free m order))"
  by pat_completeness auto
termination
  by (relation "measure snd") (auto simp: order_max_positive)

declare free_area_map_loop.simps [simp del]

definition free_area_map :: "bpa_map \<Rightarrow> bpa_map" where
  "free_area_map m = free_area_map_loop m (m_pages m)"

text \<open>
  \<open>region_map\<close>: \<open>mem\<close> is what the memory behind \<open>pageent\<close> held before; only its first
  \<open>free_area_size\<close> bytes are set to \<open>0xFF\<close>.
\<close>

definition region_map_table :: "nat \<Rightarrow> (nat \<Rightarrow> u8) \<Rightarrow> bpa_map" where
  "region_map_table pages mem =
     (let fas = (pages * BITS_PER_PAGE + 7) div 8 in
      \<lparr>m_pages = pages,
       m_free_area_size = fas,
       m_free_area = map_areas 1 0 ((pages + 7) div 8) ((\<lambda>_. 0)(0 := 0)),
       m_pages_free = (\<lambda>_. 0),
       m_next_free_page = (\<lambda>_. 0),
       m_table = (\<lambda>k. if k < fas then 0xFF else mem k)\<rparr>)"

definition region_map :: "mregion \<Rightarrow> nat \<Rightarrow> (nat \<Rightarrow> u8) \<Rightarrow> mregion res" where
  "region_map r pages mem =
     (case spinlock_lock (r_lock r) of Inl e \<Rightarrow> Inl e
      | Inr l \<Rightarrow>
          let r = r\<lparr>r_lock := l, r_si_mapped := True,
                    r_page_alloc_si := region_map_table pages mem,
                    r_pages_total := pages, r_pages_free := pages, r_mem_full := False\<rparr>;
              r = upd_si free_area_map r
          in Inr (r\<lparr>r_lock := spinlock_unlock (r_lock r)\<rparr>))"

definition out_of_mem :: "mregion \<Rightarrow> mregion" where
  "out_of_mem r = r\<lparr>r_mem_full := True\<rparr>"

section \<open>Splitting and merging blocks\<close>

text \<open>
  The tail that \<open>block_split\<close> and \<open>pages_alloc\<close> share: move \<open>next_free_page\<close> on and count
  the block as taken. The argument \<open>++map->next_free_page[order]\<close> is stored before the search.
\<close>

definition advance_next :: "nat \<Rightarrow> bpa_map \<Rightarrow> bpa_map" where
  "advance_next order m =
     (let m = (if m_pages_free m order \<noteq> 1
               then let m = nfp_put order (m_next_free_page m order + 1) m
                    in case find_next_free_page m order (m_next_free_page m order) of
                         (m, i) \<Rightarrow> nfp_put order i m
               else nfp_put order 0 m)
      in cnt_put order (sub64 (m_pages_free m order) 1) m)"

definition split_first :: "nat \<Rightarrow> bpa_map \<Rightarrow> bpa_map" where
  "split_first order m =
     (let m = block_set m order (m_next_free_page m order);
          m = block_clear m (order - 1) (m_next_free_page m order * 2);
          m = block_clear m (order - 1) (m_next_free_page m order * 2 + 1);
          m = (if m_next_free_page m (order - 1) > m_next_free_page m order * 2
                  \<or> m_pages_free m (order - 1) = 0
               then nfp_put (order - 1) (m_next_free_page m order * 2) m else m);
          m = cnt_put (order - 1) (add64 (m_pages_free m (order - 1)) 2) m
      in advance_next order m)"

function block_split :: "mregion \<Rightarrow> nat \<Rightarrow> mregion" where
  "block_split r order =
     (if order = 0 \<or> order \<ge> MAX_ORDER then r
      else if m_pages_free (r_page_alloc_si r) order > 0 then upd_si (split_first order) r
      else if order = MAX_ORDER - 1 then out_of_mem r
      else
        let r = block_split r (order + 1) in
        if m_pages_free (r_page_alloc_si r) order = 0 then out_of_mem r
        else upd_si (split_first order) r)"
  by pat_completeness auto
termination
  by (relation "measure (\<lambda>(_, order). MAX_ORDER - order)") auto

declare block_split.simps [simp del]

definition zsplit_at :: "nat \<Rightarrow> nat \<Rightarrow> bpa_map \<Rightarrow> bpa_map" where
  "zsplit_at order offset m =
     (let m = block_set m order offset;
          m = block_clear m (order - 1) (offset * 2);
          m = block_clear m (order - 1) (offset * 2 + 1);
          m = (if m_next_free_page m (order - 1) > m_next_free_page m order * 2
               then nfp_put (order - 1) (m_next_free_page m order * 2) m else m);
          m = cnt_put (order - 1) (add64 (m_pages_free m (order - 1)) 2) m;
          m = (if m_pages_free m order = 1 then nfp_put order 0 m
               else if offset = m_next_free_page m order
               then case find_next_free_page m order (offset + 1) of
                      (m, i) \<Rightarrow> nfp_put order i m
               else m)
      in cnt_put order (sub64 (m_pages_free m order) 1) m)"

function zblock_split :: "bpa_map \<Rightarrow> nat \<Rightarrow> nat \<Rightarrow> bpa_map" where
  "zblock_split m order offset =
     (if order = 0 \<or> order \<ge> MAX_ORDER then m
      else if \<not> block_check m order offset then zsplit_at order offset m
      else if order = MAX_ORDER - 1 then m
      else
        let m = zblock_split m (order + 1) (offset div 2) in
        if \<not> block_check m order offset then zsplit_at order offset m else m)"
  by pat_completeness auto
termination
  by (relation "measure (\<lambda>(_, order, _). MAX_ORDER - order)") auto

declare zblock_split.simps [simp del]

definition merge_pair :: "nat \<Rightarrow> nat \<Rightarrow> bpa_map \<Rightarrow> bpa_map" where
  "merge_pair order offset m =
     (let m = block_set m order offset;
          m = block_set m order (offset + 1);
          m = block_clear m (order + 1) (offset div 2);
          m = cnt_put order (sub64 (m_pages_free m order) 2) m;
          m = cnt_put (order + 1) (add64 (m_pages_free m (order + 1)) 1) m;
          m = (if m_next_free_page m order = offset \<or> m_next_free_page m order = offset + 1
               then case find_next_free_page m order (offset + 2) of
                      (m, i) \<Rightarrow> nfp_put order i m
               else m)
      in (if m_next_free_page m (order + 1) > offset div 2 \<or> m_pages_free m (order + 1) = 1
          then nfp_put (order + 1) (offset div 2) m else m))"

function block_merge :: "bpa_map \<Rightarrow> nat \<Rightarrow> nat \<Rightarrow> bpa_map" where
  "block_merge m order offset =
     (if order \<ge> MAX_ORDER - 1 then m
      else
        let offset = offset div 2 * 2;
            m = merge_pair order offset m
        in if (offset div 2) mod 2 = 0
           then (if \<not> block_check m (order + 1) (offset div 2 + 1)
                 then block_merge m (order + 1) (offset div 2) else m)
           else (if \<not> block_check m (order + 1) (offset div 2 - 1)
                 then block_merge m (order + 1) (offset div 2) else m))"
  by pat_completeness auto
termination
  by (relation "measure (\<lambda>(_, order, _). MAX_ORDER - order)") auto

declare block_merge.simps [simp del]

section \<open>Allocating, reserving and freeing\<close>

text \<open>
  The branch of \<open>pages_alloc\<close> that takes a free block of the order asked for, up to and
  including the \<open>spinlock_unlock\<close>.
\<close>

definition alloc_take :: "mregion \<Rightarrow> nat \<Rightarrow> mregion \<times> nat" where
  "alloc_take r order =
     (let n = m_next_free_page (r_page_alloc_si r) order;
          r = upd_si (\<lambda>m. block_set m order n) r;
          phys_addr = add64 (BLOCK_ORDER_SIZE order * n) (r_start r);
          r = upd_si (advance_next order) r;
          r = (if r_pages_free r \<le> 2 ^ order then out_of_mem r else r);
          r = r\<lparr>r_pages_free := sub64 (r_pages_free r) (2 ^ order)\<rparr>
      in (r\<lparr>r_lock := spinlock_unlock (r_lock r)\<rparr>, phys_addr))"

definition alloc_fail :: "mregion \<Rightarrow> mregion \<times> nat" where
  "alloc_fail r =
     (let r = out_of_mem r in (r\<lparr>r_lock := spinlock_unlock (r_lock r)\<rparr>, 0))"

definition pages_alloc :: "mregion \<Rightarrow> nat \<Rightarrow> (mregion \<times> nat) res" where
  "pages_alloc r order =
     (if order \<ge> MAX_ORDER then Inr (r, 0)
      else case spinlock_lock (r_lock r) of Inl e \<Rightarrow> Inl e
      | Inr l \<Rightarrow>
          let r = r\<lparr>r_lock := l\<rparr> in
          if \<not> r_si_mapped r then Inl NullDeref
          else if m_pages_free (r_page_alloc_si r) order > 0 then Inr (alloc_take r order)
          else if order = MAX_ORDER - 1 then Inr (alloc_fail r)
          else
            let r = block_split r (order + 1) in
            if m_pages_free (r_page_alloc_si r) order = 0 then Inr (alloc_fail r)
            else Inr (alloc_take r order))"

definition page_alloc :: "mregion \<Rightarrow> (mregion \<times> nat) res" where
  "page_alloc r = pages_alloc r 0"

text \<open>
  The two loops of \<open>pages_reserve\<close>: the first looks for the order whose block over the page
  is free (and gives the halved offset with it, or the order asked for when there is none), the
  second splits downwards from it.
\<close>

function reserve_find :: "bpa_map \<Rightarrow> nat \<Rightarrow> nat \<Rightarrow> nat \<Rightarrow> nat \<times> nat" where
  "reserve_find m order i p_offset =
     (if i < MAX_ORDER
      then let p_offset = p_offset div 2 in
           if \<not> block_check m i p_offset then (i, p_offset)
           else reserve_find m order (Suc i) p_offset
      else (order, p_offset))"
  by pat_completeness auto
termination
  by (relation "measure (\<lambda>(_, _, i, _). MAX_ORDER - i)") auto

declare reserve_find.simps [simp del]

function reserve_split :: "bpa_map \<Rightarrow> nat \<Rightarrow> nat \<Rightarrow> nat \<Rightarrow> bpa_map" where
  "reserve_split m order i p_offset =
     (if i > order then reserve_split (zblock_split m i p_offset) order (i - 1) (p_offset * 2)
      else m)"
  by pat_completeness auto
termination
  by (relation "measure (\<lambda>(_, order, i, _). i - order)") auto

declare reserve_split.simps [simp del]

definition reserve_bit :: "nat \<Rightarrow> nat \<Rightarrow> bpa_map \<Rightarrow> bpa_map" where
  "reserve_bit order offset m =
     (let m = block_set m order offset;
          m = cnt_put order (sub64 (m_pages_free m order) 1) m
      in if m_next_free_page m order = offset
         then case find_next_free_page m order (offset + 1) of
                (m, i) \<Rightarrow> nfp_put order i m
         else m)"

definition reserve_account :: "mregion \<Rightarrow> nat \<Rightarrow> mregion" where
  "reserve_account r order =
     (let r = (if r_pages_free r \<le> 2 ^ order then out_of_mem r else r);
          r = r\<lparr>r_pages_free := sub64 (r_pages_free r) (2 ^ order)\<rparr>
      in r\<lparr>r_lock := spinlock_unlock (r_lock r)\<rparr>)"

definition pages_reserve :: "mregion \<Rightarrow> nat \<Rightarrow> nat \<Rightarrow> (mregion \<times> nat) res" where
  "pages_reserve r order offset =
     (case spinlock_lock (r_lock r) of Inl e \<Rightarrow> Inl e
      | Inr l \<Rightarrow>
          let r = r\<lparr>r_lock := l\<rparr>;
              addr = add64 (BLOCK_ORDER_SIZE order * offset) (r_start r) in
          if \<not> r_si_mapped r then Inl NullDeref
          else if order \<ge> MAX_ORDER then Inl OutOfBounds
          else if \<not> block_check (r_page_alloc_si r) order offset then
            Inr (reserve_account (upd_si (reserve_bit order offset) r) order, addr)
          else
            let r = upd_si (\<lambda>m. case reserve_find m order (order + 1) (offset div 2 * 2) of
                                  (i, p_offset) \<Rightarrow> reserve_split m order i p_offset) r;
                r = (if \<not> block_check (r_page_alloc_si r) order offset
                     then upd_si (reserve_bit order offset) r else r)
            in Inr (reserve_account r order, addr))"

text \<open>
  The body of \<open>pages_free\<close> after its checks, in two parts: giving the block back, and merging
  it with its buddy when that is free. Both early returns of \<open>pages_free\<close> leave the lock held.
\<close>

definition free_give :: "mregion \<Rightarrow> nat \<Rightarrow> nat \<Rightarrow> mregion" where
  "free_give r order offset =
     (let r = upd_si (\<lambda>m. block_clear m order offset) r;
          r = (if r_pages_free r = 0 then r\<lparr>r_mem_full := True\<rparr> else r);
          r = r\<lparr>r_pages_free := add64 (r_pages_free r) (2 ^ order)\<rparr>;
          r = upd_si (\<lambda>m. cnt_put order (add64 (m_pages_free m order) 1) m) r
      in if offset < m_next_free_page (r_page_alloc_si r) order
         then upd_si (nfp_put order offset) r else r)"

definition free_merge :: "mregion \<Rightarrow> nat \<Rightarrow> nat \<Rightarrow> mregion" where
  "free_merge r order offset =
     (let buddy = (if offset mod 2 = 1 then offset - 1 else offset + 1)
      in if \<not> block_check (r_page_alloc_si r) order buddy
         then upd_si (\<lambda>m. block_merge m order offset) r else r)"

definition pages_free :: "mregion \<Rightarrow> nat \<Rightarrow> nat \<Rightarrow> mregion res" where
  "pages_free r phaddr order =
     (case spinlock_lock (r_lock r) of Inl e \<Rightarrow> Inl e
      | Inr l \<Rightarrow>
          let r = r\<lparr>r_lock := l\<rparr> in
          if phaddr < r_start r \<or> phaddr \<ge> add64 (r_start r) (r_size r) then Inr r
          else
            let offset = (phaddr - r_start r) div page_size in
            if \<not> r_si_mapped r then Inl NullDeref
            else if order \<ge> MAX_ORDER then Inl OutOfBounds
            else if \<not> block_check (r_page_alloc_si r) order offset then Inr r
            else
              let r = free_merge (free_give r order offset) order offset
              in Inr (r\<lparr>r_lock := spinlock_unlock (r_lock r)\<rparr>))"

definition page_free :: "mregion \<Rightarrow> nat \<Rightarrow> mregion res" where
  "page_free r phaddr = pages_free r phaddr 0"

end
