(* ===== verification/Buddy_Inv.thy ===== *)
theory Buddy_Inv
  imports Buddy_Model
begin

text \<open>
  The abstraction of a region's bitmaps: for every order the set of its free blocks, for the
  region the set of all free blocks and of the pages they cover, and the invariant that ties
  \<open>pages_free[]\<close> and \<open>next_free_page[]\<close> to them. Then the effect of every primitive step of
  the allocator on these sets.
\<close>

section \<open>Free blocks\<close>

definition free_blocks :: "bpa_map \<Rightarrow> nat \<Rightarrow> nat set" where
  "free_blocks m order =
     {i. i < free_area_length (m_pages m) order \<and> \<not> block_check m order i}"

definition ord_ok :: "bpa_map \<Rightarrow> nat \<Rightarrow> bool" where
  "ord_ok m order \<longleftrightarrow> m_pages_free m order = card (free_blocks m order) \<and>
     m_next_free_page m order = (if free_blocks m order = {} then 0 else Min (free_blocks m order))"

lemma free_blocks_finite [simp]: "finite (free_blocks m order)"
  by (simp add: free_blocks_def)

lemma free_blocks_bound: "i \<in> free_blocks m order \<Longrightarrow> i < free_area_length (m_pages m) order"
  by (simp add: free_blocks_def)

lemma free_area_length_le: "free_area_length pages order \<le> pages"
  by (simp add: free_area_length_div)

lemma card_free_blocks_le: "card (free_blocks m order) \<le> m_pages m"
proof -
  have "card (free_blocks m order) \<le> card {..<free_area_length (m_pages m) order}"
    by (rule card_mono) (auto simp: free_blocks_def)
  then show ?thesis using free_area_length_le [of "m_pages m" order] by simp
qed

lemma free_blocks_cong:
  "m_table m' = m_table m \<Longrightarrow> m_free_area m' = m_free_area m \<Longrightarrow> m_pages m' = m_pages m \<Longrightarrow>
     free_blocks m' = free_blocks m"
  by (simp add: free_blocks_def block_check_def fun_eq_iff)

lemma layout_ok_eq:
  "m_free_area m' = m_free_area m \<Longrightarrow> m_pages m' = m_pages m \<Longrightarrow> layout_ok m' = layout_ok m"
  by (simp add: layout_ok_def)

lemma bit_valid_in_range:
  "layout_ok m \<Longrightarrow> order < MAX_ORDER \<Longrightarrow> i < free_area_length (m_pages m) order \<Longrightarrow>
     bit_valid m order i"
  using area_size_covers [of "m_pages m" order]
  by (simp add: bit_valid_def free_area_length_div)

lemma bit_valid_free: "layout_ok m \<Longrightarrow> order < MAX_ORDER \<Longrightarrow> i \<in> free_blocks m order \<Longrightarrow>
    bit_valid m order i"
  by (simp add: bit_valid_in_range free_blocks_bound)

section \<open>Effects of the primitive steps\<close>

lemma nfp_put_fields [simp]:
  "m_pages (nfp_put order v m) = m_pages m"
  "m_free_area (nfp_put order v m) = m_free_area m"
  "m_table (nfp_put order v m) = m_table m"
  "m_pages_free (nfp_put order v m) = m_pages_free m"
  "m_next_free_page (nfp_put order v m) = (m_next_free_page m)(order := v)"
  by (simp_all add: nfp_put_def)

lemma cnt_put_fields [simp]:
  "m_pages (cnt_put order v m) = m_pages m"
  "m_free_area (cnt_put order v m) = m_free_area m"
  "m_table (cnt_put order v m) = m_table m"
  "m_pages_free (cnt_put order v m) = (m_pages_free m)(order := v)"
  "m_next_free_page (cnt_put order v m) = m_next_free_page m"
  by (simp_all add: cnt_put_def)

lemma put_block_check [simp]:
  "block_check (nfp_put order v m) = block_check m"
  "block_check (cnt_put order v m) = block_check m"
  by (intro ext, simp only: block_check_def nfp_put_fields cnt_put_fields)+

lemma put_free_blocks [simp]:
  "free_blocks (nfp_put order v m) = free_blocks m"
  "free_blocks (cnt_put order v m) = free_blocks m"
  by (rule free_blocks_cong; simp)+

lemma put_layout_ok [simp]:
  "layout_ok (nfp_put order v m) = layout_ok m"
  "layout_ok (cnt_put order v m) = layout_ok m"
  by (simp_all add: layout_ok_def)

lemma put_bit_valid [simp]:
  "bit_valid (nfp_put order v m) = bit_valid m"
  "bit_valid (cnt_put order v m) = bit_valid m"
  by (simp_all add: bit_valid_def fun_eq_iff)

lemma free_blocks_set [block_simps]:
  assumes "bit_valid m order i" and "k < MAX_ORDER"
  shows "free_blocks (block_set m order i) k =
    (if k = order then free_blocks m k - {i} else free_blocks m k)"
proof -
  have "layout_ok m" using assms(1) by (simp add: bit_valid_def)
  then show ?thesis
    using assms bit_valid_in_range [of m k]
    by (auto simp: free_blocks_def blocks.check_setb)
qed

lemma free_blocks_clear [block_simps]:
  assumes "bit_valid m order i" and "k < MAX_ORDER"
    and "i < free_area_length (m_pages m) order"
  shows "free_blocks (block_clear m order i) k =
    (if k = order then insert i (free_blocks m k) else free_blocks m k)"
proof -
  have "layout_ok m" using assms(1) by (simp add: bit_valid_def)
  then show ?thesis
    using assms bit_valid_in_range [of m k]
    by (auto simp: free_blocks_def blocks.check_clearb)
qed

text \<open>The search of \<open>find_next_free_page\<close>.\<close>

lemma find_free_from_Some:
  "find_free_from m order s = Some i \<Longrightarrow>
     s \<le> i \<and> i \<in> free_blocks m order \<and> (\<forall>k. s \<le> k \<and> k < i \<longrightarrow> k \<notin> free_blocks m order)"
proof (induction m order s rule: find_free_from.induct)
  case (1 m order s)
  show ?case
  proof (cases "s < free_area_length (m_pages m) order \<and> block_check m order s")
    case True
    with "1.prems" have "find_free_from m order (Suc s) = Some i"
      by (simp add: find_free_from.simps [of m order s])
    with "1.IH" True have "Suc s \<le> i \<and> i \<in> free_blocks m order \<and>
        (\<forall>k. Suc s \<le> k \<and> k < i \<longrightarrow> k \<notin> free_blocks m order)"
      by blast
    moreover from True have "s \<notin> free_blocks m order" by (simp add: free_blocks_def)
    ultimately show ?thesis by (metis Suc_leD Suc_leI le_neq_implies_less)
  next
    case False
    with "1.prems" show ?thesis
      by (subst (asm) find_free_from.simps) (auto simp: free_blocks_def split: if_splits)
  qed
qed

lemma find_free_from_None:
  "find_free_from m order s = None \<Longrightarrow> s \<le> k \<Longrightarrow> k \<notin> free_blocks m order"
proof (induction m order s rule: find_free_from.induct)
  case (1 m order s)
  show ?case
  proof (cases "s < free_area_length (m_pages m) order")
    case True
    with "1.prems" have c: "block_check m order s" "find_free_from m order (Suc s) = None"
      by (auto simp: find_free_from.simps [of m order s] split: if_splits)
    then have "s \<notin> free_blocks m order" by (simp add: free_blocks_def)
    with "1.IH" True c "1.prems"(2) show ?thesis
      by (cases "k = s") auto
  next
    case False
    with "1.prems"(2) show ?thesis by (simp add: free_blocks_def)
  qed
qed

lemma find_next_free_page_Min:
  assumes "free_blocks m order \<noteq> {}" and "\<And>k. k \<in> free_blocks m order \<Longrightarrow> s \<le> k"
  shows "find_next_free_page m order s = (m, Min (free_blocks m order))"
proof -
  from assms find_free_from_None obtain i where i: "find_free_from m order s = Some i"
    by (metis ex_in_conv option.exhaust)
  from find_free_from_Some [OF i] have "i = Min (free_blocks m order)"
    using assms(2) by (intro least_above_is_Min [where s = s]) auto
  with i show ?thesis by (simp add: find_next_free_page_def)
qed

lemma find_next_free_page_none:
  assumes "\<And>k. k \<in> free_blocks m order \<Longrightarrow> k < s"
  shows "find_next_free_page m order s = (cnt_put order 0 m, 0)"
proof -
  have "find_free_from m order s = None"
    using find_free_from_Some [of m order s] assms by (metis not_le option.exhaust)
  then show ?thesis by (simp add: find_next_free_page_def)
qed

section \<open>The bit after the last block\<close>

text \<open>
  An order with an odd number of blocks has a last block without a buddy; \<open>pages_free\<close> and
  \<open>block_merge\<close> still look at the bit where the buddy's would be. It has to be set.
\<close>

definition sentinel :: "bpa_map \<Rightarrow> nat \<Rightarrow> bool" where
  "sentinel m k \<longleftrightarrow> (odd (free_area_length (m_pages m) k) \<longrightarrow>
     block_check m k (free_area_length (m_pages m) k))"

lemma bit_valid_sentinel:
  assumes "layout_ok m" and "k < MAX_ORDER" and "odd (free_area_length (m_pages m) k)"
  shows "bit_valid m k (free_area_length (m_pages m) k)"
proof -
  have "free_area_length (m_pages m) k \<le> 8 * area_size (m_pages m) k"
    using area_size_covers by (simp add: free_area_length_div)
  moreover have "even (8 * area_size (m_pages m) k)" by simp
  ultimately have "free_area_length (m_pages m) k < 8 * area_size (m_pages m) k"
    using assms(3) by (metis le_neq_implies_less)
  with assms(1,2) show ?thesis by (simp add: bit_valid_def)
qed

lemma sentinel_cong:
  "m_table m' = m_table m \<Longrightarrow> m_free_area m' = m_free_area m \<Longrightarrow> m_pages m' = m_pages m \<Longrightarrow>
     sentinel m' = sentinel m"
  by (simp add: sentinel_def block_check_def fun_eq_iff)

lemma sentinel_bits [block_simps]:
  assumes "layout_ok m" and "order < MAX_ORDER" and "i < free_area_length (m_pages m) order"
    and "k < MAX_ORDER"
  shows "sentinel (block_set m order i) k = sentinel m k"
    and "sentinel (block_clear m order i) k = sentinel m k"
  using assms bit_valid_sentinel [OF assms(1,4)] bit_valid_in_range [OF assms(1-3)]
  by (auto simp: sentinel_def blocks.check_setb blocks.check_clearb)

lemma put_sentinel [simp]:
  "sentinel (nfp_put order v m) = sentinel m"
  "sentinel (cnt_put order v m) = sentinel m"
  by (rule sentinel_cong; simp)+

end
