(* ===== verification/Block_Sets.thy ===== *)
theory Block_Sets
  imports Prelude
begin

text \<open>
  The abstract view of a buddy allocator: a set of blocks, a block being an order and an index,
  the pages it covers, and the two moves a buddy allocator makes, splitting a block in two and
  merging two buddies. Both keep the blocks apart and cover the same pages. Nothing here
  mentions bitmaps or counters.
\<close>

type_synonym block = "nat \<times> nat"

fun block_pages :: "block \<Rightarrow> nat set" where
  "block_pages (order, i) = {i * 2 ^ order ..< (i + 1) * 2 ^ order}"

definition apart :: "block set \<Rightarrow> bool" where
  "apart B \<longleftrightarrow> (\<forall>b \<in> B. \<forall>c \<in> B. b \<noteq> c \<longrightarrow> block_pages b \<inter> block_pages c = {})"

definition covered :: "block set \<Rightarrow> nat set" where
  "covered B = (\<Union>b \<in> B. block_pages b)"

definition split_block :: "nat \<Rightarrow> nat \<Rightarrow> block set \<Rightarrow> block set" where
  "split_block order i B = insert (order - 1, 2 * i) (insert (order - 1, 2 * i + 1) (B - {(order, i)}))"

definition merge_block :: "nat \<Rightarrow> nat \<Rightarrow> block set \<Rightarrow> block set" where
  "merge_block order i B = insert (order + 1, i) (B - {(order, 2 * i), (order, 2 * i + 1)})"

lemma block_pages_nonempty [simp]: "block_pages b \<noteq> {}"
  by (cases b) simp

lemma block_pages_finite [simp]: "finite (block_pages b)"
  by (cases b) simp

lemma card_block_pages: "card (block_pages (order, i)) = 2 ^ order"
  by (simp add: algebra_simps)

lemma block_pages_halves:
  "block_pages (Suc k, i) = block_pages (k, 2 * i) \<union> block_pages (k, 2 * i + 1)"
  "block_pages (k, 2 * i) \<inter> block_pages (k, 2 * i + 1) = {}"
  by (auto simp: algebra_simps)

lemma apart_mono: "apart B \<Longrightarrow> A \<subseteq> B \<Longrightarrow> apart A"
  unfolding apart_def by blast

lemma apartD: "apart B \<Longrightarrow> b \<in> B \<Longrightarrow> c \<in> B \<Longrightarrow> b \<noteq> c \<Longrightarrow> block_pages b \<inter> block_pages c = {}"
  unfolding apart_def by blast

lemma covered_mono: "A \<subseteq> B \<Longrightarrow> covered A \<subseteq> covered B"
  by (auto simp: covered_def)

lemma covered_insert [simp]: "covered (insert b B) = block_pages b \<union> covered B"
  by (simp add: covered_def)

lemma block_pages_covered: "b \<in> B \<Longrightarrow> block_pages b \<subseteq> covered B"
  by (auto simp: covered_def)

lemma covered_finite: "finite B \<Longrightarrow> finite (covered B)"
  by (simp add: covered_def)

lemma apart_insert:
  assumes "apart B" and "block_pages b \<inter> covered B = {}"
  shows "apart (insert b B)"
  using assms unfolding apart_def covered_def by blast

lemma covered_remove:
  assumes "apart B" and "b \<in> B"
  shows "covered (B - {b}) = covered B - block_pages b"
  using assms unfolding covered_def apart_def by blast

lemma card_covered_remove:
  assumes "apart B" and "(order, i) \<in> B" and "finite B"
  shows "card (covered (B - {(order, i)})) = card (covered B) - 2 ^ order"
    and "2 ^ order \<le> card (covered B)"
proof -
  have sub: "block_pages (order, i) \<subseteq> covered B"
    using assms(2) by (rule block_pages_covered)
  show "card (covered (B - {(order, i)})) = card (covered B) - 2 ^ order"
    unfolding covered_remove [OF assms(1,2)] card_block_pages [of order i, symmetric]
    using sub by (rule card_Diff_subset [OF block_pages_finite])
  show "2 ^ order \<le> card (covered B)"
    unfolding card_block_pages [of order i, symmetric]
    using sub by (intro card_mono covered_finite assms(3))
qed

lemma part_not_member:
  assumes "apart B" and "b \<in> B" and "block_pages c \<subseteq> block_pages b" and "c \<noteq> b"
  shows "c \<notin> B"
  using apartD [OF assms(1,2)] assms(3,4) block_pages_nonempty [of c] by blast

lemma halves_not_member:
  assumes "apart B" and "(Suc k, i) \<in> B"
  shows "(k, 2 * i) \<notin> B" and "(k, 2 * i + 1) \<notin> B"
  using part_not_member [OF assms, of "(k, 2 * i)"] part_not_member [OF assms, of "(k, 2 * i + 1)"]
    block_pages_halves [of k i] by auto

lemma split_block_ok:
  assumes "apart B" and "(Suc k, i) \<in> B"
  shows "apart (split_block (Suc k) i B)" and "covered (split_block (Suc k) i B) = covered B"
proof -
  let ?R = "B - {(Suc k, i)}"
  have R: "apart ?R" "covered ?R = covered B - block_pages (Suc k, i)"
    using assms by (auto intro: apart_mono simp: covered_remove simp del: block_pages.simps)
  note halves = block_pages_halves [of k i]
  have "apart (insert (k, 2 * i + 1) ?R)"
    using R halves by (intro apart_insert) (auto simp del: block_pages.simps)
  then show "apart (split_block (Suc k) i B)"
    unfolding split_block_def diff_Suc_1
    using R halves by (intro apart_insert) (auto simp del: block_pages.simps)
  show "covered (split_block (Suc k) i B) = covered B"
    unfolding split_block_def diff_Suc_1
    using R halves block_pages_covered [OF assms(2)] by (auto simp del: block_pages.simps)
qed

lemma merge_block_ok:
  assumes "apart B" and "(k, 2 * i) \<in> B" and "(k, 2 * i + 1) \<in> B"
  shows "apart (merge_block k i B)" and "covered (merge_block k i B) = covered B"
proof -
  let ?R = "B - {(k, 2 * i)}"
  have R: "apart ?R" "covered ?R = covered B - block_pages (k, 2 * i)"
    using assms by (auto intro: apart_mono simp: covered_remove simp del: block_pages.simps)
  have "(k, 2 * i + 1) \<in> ?R" using assms(3) by simp
  then have S: "apart (?R - {(k, 2 * i + 1)})"
      "covered (?R - {(k, 2 * i + 1)}) = covered B - block_pages (Suc k, i)"
    using R by (auto intro: apart_mono simp: covered_remove block_pages_halves
        simp del: block_pages.simps)
  have eq: "merge_block k i B = insert (Suc k, i) (?R - {(k, 2 * i + 1)})"
    unfolding merge_block_def by auto
  show "apart (merge_block k i B)"
    unfolding eq using S by (intro apart_insert) (auto simp del: block_pages.simps)
  have "block_pages (Suc k, i) \<subseteq> covered B"
    using assms(2,3) block_pages_covered unfolding block_pages_halves by blast
  then show "covered (merge_block k i B) = covered B"
    unfolding eq using S by (auto simp del: block_pages.simps)
qed

end
