(* ===== verification/Page_Source.thy ===== *)
theory Page_Source
  imports Block_Bits
begin

text \<open>
  The contract of a physical page allocator, as its clients see it: \<open>alloc r order\<close> returns,
  hands out \<open>page_size * 2 ^ order\<close> bytes of frames that were free or the address 0, and never
  makes a frame free. From it: whatever sequence of requests a client makes, the areas it is
  given do not overlap each other nor the frames that are still free.
\<close>

definition area :: "nat \<Rightarrow> nat \<Rightarrow> nat set" where
  "area order addr = {addr ..< addr + BLOCK_ORDER_SIZE order}"

fun alloc_run :: "('r \<Rightarrow> nat \<Rightarrow> ('r \<times> nat) res) \<Rightarrow> 'r \<Rightarrow> nat list \<Rightarrow> ('r \<times> (nat \<times> nat) list) res" where
  "alloc_run alloc r [] = Inr (r, [])"
| "alloc_run alloc r (order # orders) =
     (case alloc r order of Inl e \<Rightarrow> Inl e
      | Inr (r1, a) \<Rightarrow>
          (case alloc_run alloc r1 orders of Inl e \<Rightarrow> Inl e
           | Inr (r2, as) \<Rightarrow> Inr (r2, if a = 0 then as else (order, a) # as)))"

text \<open>What a list of areas covers, and areas pairwise apart, as positions of the list.\<close>

definition given :: "(nat \<times> nat) list \<Rightarrow> nat set" where
  "given as = (\<Union>(order, a) \<in> set as. area order a)"

fun areas_apart :: "(nat \<times> nat) list \<Rightarrow> bool" where
  "areas_apart [] = True"
| "areas_apart ((order, a) # as) = (area order a \<inter> given as = {} \<and> areas_apart as)"

lemma given_simps [simp]:
  "given [] = {}"
  "given ((order, a) # as) = area order a \<union> given as"
  by (simp_all add: given_def)

locale page_source =
  fixes inv :: "'r \<Rightarrow> bool"
    and frames :: "'r \<Rightarrow> nat set"
    and alloc :: "'r \<Rightarrow> nat \<Rightarrow> ('r \<times> nat) res"
  assumes alloc_returns: "inv r \<Longrightarrow> \<exists>r' a. alloc r order = Inr (r', a)"
    and alloc_inv: "inv r \<Longrightarrow> alloc r order = Inr (r', a) \<Longrightarrow> inv r'"
    and alloc_shrinks: "inv r \<Longrightarrow> alloc r order = Inr (r', a) \<Longrightarrow> frames r' \<subseteq> frames r"
    and alloc_area: "inv r \<Longrightarrow> alloc r order = Inr (r', a) \<Longrightarrow> a \<noteq> 0 \<Longrightarrow>
      area order a \<subseteq> frames r \<and> frames r' \<subseteq> frames r - area order a"
begin

lemma alloc_run_returns: "inv r \<Longrightarrow> \<exists>r' as. alloc_run alloc r orders = Inr (r', as)"
proof (induction orders arbitrary: r)
  case Nil
  then show ?case by simp
next
  case (Cons order orders)
  from Cons.prems obtain r1 a where a: "alloc r order = Inr (r1, a)"
    using alloc_returns by blast
  with Cons.prems have "inv r1" by (rule alloc_inv)
  from Cons.IH [OF this] a show ?case by auto
qed

lemma alloc_run_ok:
  "inv r \<Longrightarrow> alloc_run alloc r orders = Inr (r', as) \<Longrightarrow>
     inv r' \<and> areas_apart as \<and> given as \<subseteq> frames r - frames r' \<and> frames r' \<subseteq> frames r"
proof (induction orders arbitrary: r as)
  case Nil
  then show ?case by simp
next
  case (Cons order orders)
  from Cons.prems(2) obtain r1 a bs where
    a: "alloc r order = Inr (r1, a)" and bs: "alloc_run alloc r1 orders = Inr (r', bs)"
    and as: "as = (if a = 0 then bs else (order, a) # bs)"
    by (auto split: sum.splits)
  note one = alloc_inv [OF Cons.prems(1) a] alloc_shrinks [OF Cons.prems(1) a]
    alloc_area [OF Cons.prems(1) a]
  note rest = Cons.IH [OF one(1) bs]
  show ?case
  proof (cases "a = 0")
    case True
    with rest one(2) show ?thesis by (auto simp: as)
  next
    case False
    with one(3) have "area order a \<subseteq> frames r" "frames r1 \<subseteq> frames r - area order a" by auto
    with rest False show ?thesis by (auto simp: as)
  qed
qed

end

end
