(* ===== verification/Buddy_Alloc.thy ===== *)
theory Buddy_Alloc
  imports Buddy_Inv Block_Sets Page_Source
begin

text \<open>
  The invariant of a region and its preservation by splitting and allocating:
  \<open>block_split\<close> is the abstract split, and \<open>pages_alloc\<close> takes a block of free pages out.
\<close>

section \<open>The invariant\<close>

definition blocks_of :: "bpa_map \<Rightarrow> block set" where
  "blocks_of m = {(order, i). order < MAX_ORDER \<and> i \<in> free_blocks m order}"

definition free_pages_of :: "bpa_map \<Rightarrow> nat set" where
  "free_pages_of m = covered (blocks_of m)"

definition buddy_inv :: "bpa_map \<Rightarrow> bool" where
  "buddy_inv m \<longleftrightarrow> layout_ok m \<and> (\<forall>k < MAX_ORDER. ord_ok m k) \<and> apart (blocks_of m) \<and>
     m_pages m < 2 ^ 60 \<and> (\<forall>k < MAX_ORDER. sentinel m k)"

definition region_inv :: "mregion \<Rightarrow> bool" where
  "region_inv r \<longleftrightarrow> r_si_mapped r \<and> r_lock r = 0 \<and> buddy_inv (r_page_alloc_si r) \<and>
     r_pages_free r = card (free_pages_of (r_page_alloc_si r)) \<and>
     r_start r + page_size * m_pages (r_page_alloc_si r) < 2 ^ 64"

lemma in_blocks_of [simp]:
  "(order, i) \<in> blocks_of m \<longleftrightarrow> order < MAX_ORDER \<and> i \<in> free_blocks m order"
  by (simp add: blocks_of_def)

lemma blocks_of_finite [simp]: "finite (blocks_of m)"
proof -
  have "blocks_of m \<subseteq> {..<MAX_ORDER} \<times> {..<m_pages m}"
    using free_area_length_le by (auto simp: blocks_of_def free_blocks_def intro: less_le_trans)
  then show ?thesis by (rule finite_subset) simp
qed

lemma buddy_invD:
  assumes "buddy_inv m"
  shows "layout_ok m" and "k < MAX_ORDER \<Longrightarrow> ord_ok m k" and "apart (blocks_of m)"
    and "m_pages m < 2 ^ 60" and "k < MAX_ORDER \<Longrightarrow> sentinel m k"
  using assms by (auto simp: buddy_inv_def)

lemma ord_ok_cong:
  "free_blocks m' k = free_blocks m k \<Longrightarrow> m_pages_free m' k = m_pages_free m k \<Longrightarrow>
     m_next_free_page m' k = m_next_free_page m k \<Longrightarrow> ord_ok m' k = ord_ok m k"
  by (simp add: ord_ok_def)

lemma ord_ok_empty: "ord_ok m k \<Longrightarrow> m_pages_free m k = 0 \<longleftrightarrow> free_blocks m k = {}"
  by (simp add: ord_ok_def)

lemma ord_ok_next:
  "ord_ok m k \<Longrightarrow> 0 < m_pages_free m k \<Longrightarrow>
     m_next_free_page m k \<in> free_blocks m k \<and> m_next_free_page m k = Min (free_blocks m k)"
  by (auto simp: ord_ok_def card_gt_0_iff)

lemma ord_ok_count: "ord_ok m k \<Longrightarrow> m_pages_free m k \<le> m_pages m"
  using card_free_blocks_le by (simp add: ord_ok_def)

section \<open>advance_next\<close>

lemma find_next_free_page_fields:
  "m_table (fst (find_next_free_page m order s)) = m_table m"
  "m_pages (fst (find_next_free_page m order s)) = m_pages m"
  "m_free_area (fst (find_next_free_page m order s)) = m_free_area m"
  by (simp_all add: find_next_free_page_def split: option.splits)

lemma advance_next_fields [simp]:
  "m_table (advance_next order m) = m_table m"
  "m_pages (advance_next order m) = m_pages m"
  "m_free_area (advance_next order m) = m_free_area m"
  by (simp_all add: advance_next_def Let_def split_beta find_next_free_page_fields)

lemma advance_next_free_blocks [simp]: "free_blocks (advance_next order m) = free_blocks m"
  by (rule free_blocks_cong) simp_all

lemma advance_next_sentinel [simp]: "sentinel (advance_next order m) = sentinel m"
  by (rule sentinel_cong) simp_all

lemma advance_next_layout [simp]: "layout_ok (advance_next order m) = layout_ok m"
  by (simp add: layout_ok_def)

lemma advance_next_ok:
  assumes cnt: "m_pages_free m order = card (free_blocks m order) + 1"
    and above: "\<And>k. k \<in> free_blocks m order \<Longrightarrow> m_next_free_page m order < k"
    and bound: "m_pages_free m order < 2 ^ 64"
  shows "ord_ok (advance_next order m) order"
    and "k \<noteq> order \<Longrightarrow> m_pages_free (advance_next order m) k = m_pages_free m k"
    and "k \<noteq> order \<Longrightarrow> m_next_free_page (advance_next order m) k = m_next_free_page m k"
proof -
  let ?F = "free_blocks m order"
  have dec: "sub64 (m_pages_free m order) 1 = card ?F"
    using cnt bound by (simp add: wrap_simps)
  show "ord_ok (advance_next order m) order"
    "k \<noteq> order \<Longrightarrow> m_pages_free (advance_next order m) k = m_pages_free m k"
    "k \<noteq> order \<Longrightarrow> m_next_free_page (advance_next order m) k = m_next_free_page m k"
  proof (atomize (full), cases "?F = {}")
    case True
    with cnt have "advance_next order m = cnt_put order 0 (nfp_put order 0 m)"
      using dec by (simp add: advance_next_def Let_def)
    with True show "ord_ok (advance_next order m) order \<and>
      (k \<noteq> order \<longrightarrow> m_pages_free (advance_next order m) k = m_pages_free m k) \<and>
      (k \<noteq> order \<longrightarrow> m_next_free_page (advance_next order m) k = m_next_free_page m k)"
      by (simp add: ord_ok_def)
  next
    case False
    define n where "n = m_next_free_page m order + 1"
    have "find_next_free_page (nfp_put order n m) order n = (nfp_put order n m, Min ?F)"
      using False above by (subst find_next_free_page_Min) (auto simp: n_def Suc_leI)
    moreover have "card ?F \<noteq> 0" using False by simp
    ultimately have "advance_next order m =
        cnt_put order (card ?F) (nfp_put order (Min ?F) (nfp_put order n m))"
      using cnt dec by (simp add: advance_next_def Let_def n_def)
    with False show "ord_ok (advance_next order m) order \<and>
      (k \<noteq> order \<longrightarrow> m_pages_free (advance_next order m) k = m_pages_free m k) \<and>
      (k \<noteq> order \<longrightarrow> m_next_free_page (advance_next order m) k = m_next_free_page m k)"
      by (simp add: ord_ok_def)
  qed
qed

section \<open>Splitting\<close>

text \<open>Adding the two halves of a block to the order below keeps its count and its least index.\<close>

definition child_next :: "nat \<Rightarrow> nat \<Rightarrow> bpa_map \<Rightarrow> bpa_map" where
  "child_next k x m =
     (let m = (if m_next_free_page m k > x \<or> m_pages_free m k = 0 then nfp_put k x m else m)
      in cnt_put k (add64 (m_pages_free m k) 2) m)"

lemma child_next_fields [simp]:
  "m_table (child_next k x m) = m_table m"
  "m_pages (child_next k x m) = m_pages m"
  "m_free_area (child_next k x m) = m_free_area m"
  "j \<noteq> k \<Longrightarrow> m_pages_free (child_next k x m) j = m_pages_free m j"
  "j \<noteq> k \<Longrightarrow> m_next_free_page (child_next k x m) j = m_next_free_page m j"
  "free_blocks (child_next k x m) = free_blocks m"
  "layout_ok (child_next k x m) = layout_ok m"
  "sentinel (child_next k x m) = sentinel m"
  by (simp_all add: child_next_def Let_def)

lemma child_next_ok:
  assumes old: "m_pages_free m k = card L" "L \<noteq> {} \<longrightarrow> m_next_free_page m k = Min L"
    and new: "free_blocks m k = insert x (insert (x + 1) L)"
    and L: "finite L" "x \<notin> L" "x + 1 \<notin> L" and bound: "card L < 2 ^ 60"
  shows "ord_ok (child_next k x m) k"
proof -
  have cnt: "add64 (card L) 2 = card (insert x (insert (x + 1) L))"
    using L bound by (simp add: wrap_simps)
  have min: "Min (insert x (insert (x + 1) L)) = (if L = {} \<or> x < Min L then x else Min L)"
    using L by (intro Min_insert_pair) simp_all
  have "m_pages_free m k = 0 \<longleftrightarrow> L = {}" using old L by simp
  then have "m_next_free_page (child_next k x m) k = Min (insert x (insert (x + 1) L))"
    unfolding min using old by (auto simp: child_next_def Let_def)
  moreover have "m_pages_free (child_next k x m) k = card (insert x (insert (x + 1) L))"
    unfolding cnt [symmetric] old(1) [symmetric] by (simp add: child_next_def Let_def)
  ultimately show ?thesis using new by (simp add: ord_ok_def)
qed

definition halves_bits :: "nat \<Rightarrow> nat \<Rightarrow> bpa_map \<Rightarrow> bpa_map" where
  "halves_bits k n m = block_clear (block_clear (block_set m (Suc k) n) k (n * 2)) k (n * 2 + 1)"

lemma halves_bits_fields [simp]:
  "m_pages (halves_bits k n m) = m_pages m"
  "m_free_area (halves_bits k n m) = m_free_area m"
  "m_pages_free (halves_bits k n m) = m_pages_free m"
  "m_next_free_page (halves_bits k n m) = m_next_free_page m"
  "layout_ok (halves_bits k n m) = layout_ok m"
  by (simp_all add: halves_bits_def)

lemma free_area_length_half:
  "i < free_area_length p (Suc k) \<Longrightarrow> 2 * i + 1 < free_area_length p k"
proof -
  assume "i < free_area_length p (Suc k)"
  moreover have "free_area_length p (Suc k) = free_area_length p k div 2"
    by (simp add: free_area_length_div del: free_area_length.simps)
      (metis div_mult2_eq mult.commute)
  ultimately show ?thesis by linarith
qed

lemma halves_bits_free_blocks:
  assumes "layout_ok m" and "Suc k < MAX_ORDER" and "n \<in> free_blocks m (Suc k)" and "j < MAX_ORDER"
  shows "free_blocks (halves_bits k n m) j =
    (if j = Suc k then free_blocks m j - {n}
     else if j = k then insert (2 * n) (insert (2 * n + 1) (free_blocks m j))
     else free_blocks m j)"
proof -
  have n: "n < free_area_length (m_pages m) (Suc k)"
    using assms(3) by (rule free_blocks_bound)
  note half = free_area_length_half [OF n]
  have v: "bit_valid m (Suc k) n" "bit_valid m k (n * 2)" "bit_valid m k (Suc (n * 2))"
    using assms(1,2) n half by (auto intro!: bit_valid_in_range simp del: free_area_length.simps)
  show ?thesis
    unfolding halves_bits_def
    using assms(2,4) v half
    by (auto simp: free_blocks_set free_blocks_clear mult.commute simp del: free_area_length.simps)
qed

lemma halves_bits_sentinel:
  assumes "layout_ok m" and "Suc k < MAX_ORDER" and "n < free_area_length (m_pages m) (Suc k)"
    and "j < MAX_ORDER"
  shows "sentinel (halves_bits k n m) j = sentinel m j"
  using assms free_area_length_half [OF assms(3)]
  by (simp add: halves_bits_def sentinel_bits mult.commute del: free_area_length.simps)

lemma split_first_unfold:
  "split_first (Suc k) m =
     (let n = m_next_free_page m (Suc k) in
      advance_next (Suc k) (child_next k (n * 2) (halves_bits k n m)))"
  by (simp add: split_first_def child_next_def halves_bits_def Let_def)

lemma free_halves_absent:
  assumes "buddy_inv m" and "Suc k < MAX_ORDER" and "n \<in> free_blocks m (Suc k)"
  shows "2 * n \<notin> free_blocks m k" and "2 * n + 1 \<notin> free_blocks m k"
  using halves_not_member [OF buddy_invD(3) [OF assms(1)], of k n] assms(2,3) by auto

lemma blocks_of_split:
  assumes "Suc k < MAX_ORDER" and "\<And>j. j < MAX_ORDER \<Longrightarrow> free_blocks m' j =
    (if j = Suc k then free_blocks m j - {n}
     else if j = k then insert (2 * n) (insert (2 * n + 1) (free_blocks m j))
     else free_blocks m j)"
  shows "blocks_of m' = split_block (Suc k) n (blocks_of m)"
  using assms by (auto simp: split_block_def split: if_splits)

lemma split_first_ok:
  assumes inv: "buddy_inv m" and k: "Suc k < MAX_ORDER" and free: "0 < m_pages_free m (Suc k)"
  defines "n \<equiv> m_next_free_page m (Suc k)"
  shows "buddy_inv (split_first (Suc k) m)"
    and "blocks_of (split_first (Suc k) m) = split_block (Suc k) n (blocks_of m)"
    and "m_pages (split_first (Suc k) m) = m_pages m"
    and "0 < m_pages_free (split_first (Suc k) m) k"
proof -
  note invD = buddy_invD [OF inv]
  have n: "n \<in> free_blocks m (Suc k)" "n = Min (free_blocks m (Suc k))"
    using ord_ok_next [OF invD(2) [OF k] free] unfolding n_def by blast+
  define h where "h = halves_bits k n m"
  define c where "c = child_next k (n * 2) h"
  have s: "split_first (Suc k) m = advance_next (Suc k) c"
    by (simp add: split_first_unfold Let_def n_def h_def c_def)
  have hF: "free_blocks h j =
      (if j = Suc k then free_blocks m j - {n}
       else if j = k then insert (2 * n) (insert (2 * n + 1) (free_blocks m j))
       else free_blocks m j)" if "j < MAX_ORDER" for j
    using halves_bits_free_blocks [OF invD(1) k n(1) that] by (simp add: h_def)
  have kok: "ord_ok m k" using invD(2) k by simp
  have ck: "ord_ok c k"
    unfolding c_def
  proof (rule child_next_ok [where L = "free_blocks m k"])
    show "m_pages_free h k = card (free_blocks m k)"
      "free_blocks m k \<noteq> {} \<longrightarrow> m_next_free_page h k = Min (free_blocks m k)"
      using kok by (simp_all add: ord_ok_def h_def)
    show "free_blocks h k = insert (n * 2) (insert (n * 2 + 1) (free_blocks m k))"
      using hF k by (simp add: mult.commute)
    show "n * 2 \<notin> free_blocks m k" "n * 2 + 1 \<notin> free_blocks m k"
      using free_halves_absent [OF inv k n(1)] by (simp_all add: mult.commute)
    show "card (free_blocks m k) < 2 ^ 60"
      using card_free_blocks_le [of m k] invD(4) by simp
  qed simp
  have "m_pages_free c (Suc k) = card (free_blocks m (Suc k))"
    using invD(2) [OF k] by (simp add: c_def h_def ord_ok_def)
  also have "\<dots> = card (free_blocks c (Suc k)) + 1"
    using hF [OF k] card.remove [OF free_blocks_finite n(1)] by (simp add: c_def)
  finally have cnt: "m_pages_free c (Suc k) = card (free_blocks c (Suc k)) + 1" .
  have above: "m_next_free_page c (Suc k) < j" if "j \<in> free_blocks c (Suc k)" for j
  proof -
    have "j \<in> free_blocks m (Suc k)" and "j \<noteq> n"
      using that hF [OF k] by (simp_all add: c_def)
    then have "n < j" unfolding n(2) by (metis Min_le free_blocks_finite le_neq_implies_less)
    then show ?thesis by (simp add: c_def h_def n_def)
  qed
  have "card (free_blocks c (Suc k)) \<le> m_pages m"
    using card_free_blocks_le [of c "Suc k"] by (simp add: c_def h_def)
  with cnt invD(4) have bound: "m_pages_free c (Suc k) < 2 ^ 64" by simp
  note adv = advance_next_ok [OF cnt above bound]
  have ords: "ord_ok (advance_next (Suc k) c) j" if "j < MAX_ORDER" for j
  proof (cases "j = Suc k")
    case True
    with adv(1) show ?thesis by simp
  next
    case False
    then have "ord_ok (advance_next (Suc k) c) j = ord_ok c j"
      using adv(2,3) by (intro ord_ok_cong) simp_all
    moreover have "ord_ok c j"
    proof (cases "j = k")
      case True
      with ck show ?thesis by simp
    next
      case False
      with \<open>j \<noteq> Suc k\<close> hF [OF that] have "ord_ok c j = ord_ok m j"
        by (intro ord_ok_cong) (simp_all add: c_def h_def)
      with invD(2) that show ?thesis by simp
    qed
    ultimately show ?thesis by simp
  qed
  show pages: "m_pages (split_first (Suc k) m) = m_pages m"
    by (simp add: s c_def h_def)
  show blk: "blocks_of (split_first (Suc k) m) = split_block (Suc k) n (blocks_of m)"
    using hF by (intro blocks_of_split k) (simp add: s c_def)
  have "(Suc k, n) \<in> blocks_of m" using n(1) k by simp
  note sp = split_block_ok [OF invD(3) this]
  have "sentinel (split_first (Suc k) m) j" if "j < MAX_ORDER" for j
    using halves_bits_sentinel [OF invD(1) k free_blocks_bound [OF n(1)] that] invD(5) [OF that]
    by (simp add: s c_def h_def)
  then show "buddy_inv (split_first (Suc k) m)"
    unfolding buddy_inv_def blk pages
    using ords sp(1) invD(1,4) by (simp add: s c_def h_def)
  have "free_blocks (advance_next (Suc k) c) k \<noteq> {}"
    using hF [of k] k by (simp add: c_def)
  then show "0 < m_pages_free (split_first (Suc k) m) k"
    unfolding s using ords [of k] k by (auto simp: ord_ok_def card_gt_0_iff)
qed

definition avail :: "bpa_map \<Rightarrow> nat \<Rightarrow> bool" where
  "avail m order \<longleftrightarrow> (\<exists>j. order \<le> j \<and> j < MAX_ORDER \<and> 0 < m_pages_free m j)"

lemma avail_here: "order < MAX_ORDER \<Longrightarrow> 0 < m_pages_free m order \<Longrightarrow> avail m order"
  by (auto simp: avail_def)

lemma avail_step: "m_pages_free m order = 0 \<Longrightarrow> avail m order = avail m (Suc order)"
  unfolding avail_def by (metis Suc_leD Suc_leI le_neq_implies_less less_irrefl)

lemma avail_top: "avail m (MAX_ORDER - 1) \<longleftrightarrow> 0 < m_pages_free m (MAX_ORDER - 1)"
proof -
  have "MAX_ORDER - 1 \<le> j \<and> j < MAX_ORDER \<longleftrightarrow> j = MAX_ORDER - 1" for j by auto
  then show ?thesis unfolding avail_def by metis
qed

lemma upd_si_simps [simp]:
  "r_page_alloc_si (upd_si f r) = f (r_page_alloc_si r)"
  "r_start (upd_si f r) = r_start r"
  "r_size (upd_si f r) = r_size r"
  "r_pages_free (upd_si f r) = r_pages_free r"
  "r_mem_full (upd_si f r) = r_mem_full r"
  "r_si_mapped (upd_si f r) = r_si_mapped r"
  "r_lock (upd_si f r) = r_lock r"
  by (simp_all add: upd_si_def)

lemma out_of_mem_simps [simp]:
  "r_page_alloc_si (out_of_mem r) = r_page_alloc_si r"
  "r_start (out_of_mem r) = r_start r"
  "r_size (out_of_mem r) = r_size r"
  "r_pages_free (out_of_mem r) = r_pages_free r"
  "r_mem_full (out_of_mem r) = True"
  "r_si_mapped (out_of_mem r) = r_si_mapped r"
  "r_lock (out_of_mem r) = r_lock r"
  by (simp_all add: out_of_mem_def)

lemma split_first_covers:
  assumes "buddy_inv m" and "Suc k < MAX_ORDER" and "0 < m_pages_free m (Suc k)"
  shows "free_pages_of (split_first (Suc k) m) = free_pages_of m"
proof -
  have "(Suc k, m_next_free_page m (Suc k)) \<in> blocks_of m"
    using conjunct1 [OF ord_ok_next [OF buddy_invD(2) [OF assms(1,2)] assms(3)]] assms(2) by simp
  then show ?thesis
    unfolding free_pages_of_def split_first_ok(2) [OF assms]
    by (rule split_block_ok(2) [OF buddy_invD(3) [OF assms(1)]])
qed

definition split_result :: "mregion \<Rightarrow> nat \<Rightarrow> mregion \<Rightarrow> bool" where
  "split_result r order r' \<longleftrightarrow> (\<exists>m'. r' = r\<lparr>r_page_alloc_si := m'\<rparr> \<and> buddy_inv m' \<and>
     free_pages_of m' = free_pages_of (r_page_alloc_si r) \<and>
     m_pages m' = m_pages (r_page_alloc_si r) \<and> 0 < m_pages_free m' (order - 1))"

lemma split_first_result:
  assumes "buddy_inv (r_page_alloc_si r)" and "0 < order" and "order < MAX_ORDER"
    and "0 < m_pages_free (r_page_alloc_si r) order"
  shows "split_result r order (upd_si (split_first order) r)"
proof -
  obtain k where k: "order = Suc k" using assms(2) by (cases order) auto
  note a = assms(1) assms(3,4) [unfolded k]
  show ?thesis
    unfolding split_result_def upd_si_def k
    using split_first_ok [OF a] split_first_covers [OF a] by (intro exI conjI) simp_all
qed

lemma split_result_trans:
  assumes "split_result r (Suc order) r1" and "split_result r1 order r2"
  shows "split_result r order r2"
  using assms by (auto simp: split_result_def)

lemma block_split_ok:
  assumes "buddy_inv (r_page_alloc_si r)" and "0 < order" and "order < MAX_ORDER"
  shows "if avail (r_page_alloc_si r) order then split_result r order (block_split r order)
         else block_split r order = out_of_mem r"
  using assms
proof (induction r order rule: block_split.induct)
  case (1 r order)
  note unf = block_split.simps [of r order]
  have guard: "\<not> (order = 0 \<or> order \<ge> MAX_ORDER)" using "1.prems" by simp
  consider (here) "0 < m_pages_free (r_page_alloc_si r) order"
    | (top) "m_pages_free (r_page_alloc_si r) order = 0" "order = MAX_ORDER - 1"
    | (up) "m_pages_free (r_page_alloc_si r) order = 0" "order \<noteq> MAX_ORDER - 1"
    by blast
  then show ?case
  proof cases
    case here
    then show ?thesis
      using "1.prems" split_first_result [of r order] avail_here [of order "r_page_alloc_si r"] unf
      by simp
  next
    case top
    then show ?thesis using unf "1.prems" avail_top [of "r_page_alloc_si r"] by simp
  next
    case up
    define r1 where "r1 = block_split r (order + 1)"
    have IH: "if avail (r_page_alloc_si r) (order + 1) then split_result r (order + 1) r1
        else r1 = out_of_mem r"
      unfolding r1_def using up "1.prems" guard by (intro "1.IH") auto
    have unf': "block_split r order =
        (if m_pages_free (r_page_alloc_si r1) order = 0 then out_of_mem r1
         else upd_si (split_first order) r1)"
      using unf up guard by (simp add: r1_def Let_def)
    show ?thesis
    proof (cases "avail (r_page_alloc_si r) order")
      case True
      with IH up avail_step have res: "split_result r (Suc order) r1" by simp
      then have r1: "buddy_inv (r_page_alloc_si r1)" "0 < m_pages_free (r_page_alloc_si r1) order"
        by (auto simp: split_result_def)
      from split_first_result [OF r1(1) "1.prems"(2,3) r1(2)]
      have "split_result r order (upd_si (split_first order) r1)"
        by (rule split_result_trans [OF res])
      with True unf' r1(2) show ?thesis by simp
    next
      case False
      with IH up avail_step have "r1 = out_of_mem r" by simp
      with False unf' up show ?thesis by (simp add: out_of_mem_def)
    qed
  qed
qed

section \<open>Allocating\<close>

lemma take_block_ok:
  assumes inv: "buddy_inv m" and k: "k < MAX_ORDER" and free: "0 < m_pages_free m k"
  defines "n \<equiv> m_next_free_page m k"
  defines "m' \<equiv> advance_next k (block_set m k n)"
  shows "(k, n) \<in> blocks_of m" and "buddy_inv m'" and "blocks_of m' = blocks_of m - {(k, n)}"
    and "m_pages m' = m_pages m"
proof -
  note invD = buddy_invD [OF inv]
  have n: "n \<in> free_blocks m k" "n = Min (free_blocks m k)"
    using ord_ok_next [OF invD(2) [OF k] free] unfolding n_def by blast+
  show mem: "(k, n) \<in> blocks_of m" using n(1) k by simp
  define h where "h = block_set m k n"
  have hF: "free_blocks h j = (if j = k then free_blocks m j - {n} else free_blocks m j)"
    if "j < MAX_ORDER" for j
    using free_blocks_set [OF bit_valid_free [OF invD(1) k n(1)] that] by (simp add: h_def)
  have "m_pages_free h k = card (free_blocks m k)"
    using invD(2) [OF k] by (simp add: h_def ord_ok_def)
  also have "\<dots> = card (free_blocks h k) + 1"
    using hF [OF k] card.remove [OF free_blocks_finite n(1)] by simp
  finally have cnt: "m_pages_free h k = card (free_blocks h k) + 1" .
  have above: "m_next_free_page h k < j" if "j \<in> free_blocks h k" for j
  proof -
    have "j \<in> free_blocks m k" and "j \<noteq> n" using that hF [OF k] by simp_all
    then have "n < j" unfolding n(2) by (metis Min_le free_blocks_finite le_neq_implies_less)
    then show ?thesis by (simp add: h_def n_def)
  qed
  have "m_pages_free h k < 2 ^ 64"
    using ord_ok_count [OF invD(2) [OF k]] invD(4) by (simp add: h_def)
  note adv = advance_next_ok [OF cnt above this]
  have ords: "ord_ok m' j" if "j < MAX_ORDER" for j
  proof (cases "j = k")
    case True
    with adv(1) show ?thesis by (simp add: m'_def h_def)
  next
    case False
    with adv(2,3) hF [OF that] have "ord_ok m' j = ord_ok m j"
      by (intro ord_ok_cong) (simp_all add: m'_def h_def)
    with invD(2) that show ?thesis by simp
  qed
  show "blocks_of m' = blocks_of m - {(k, n)}"
    using hF by (auto simp: m'_def h_def split: if_splits)
  moreover have "sentinel m' j" if "j < MAX_ORDER" for j
    using sentinel_bits(1) [OF invD(1) k free_blocks_bound [OF n(1)] that] invD(5) [OF that]
    by (simp add: m'_def)
  ultimately show "buddy_inv m'"
    unfolding buddy_inv_def using ords invD(1,4) apart_mono [OF invD(3)]
    by (simp add: m'_def)
  show "m_pages m' = m_pages m" by (simp add: m'_def)
qed

lemma free_pages_bound: "p \<in> free_pages_of m \<Longrightarrow> p < m_pages m"
proof -
  assume "p \<in> free_pages_of m"
  then obtain k i where "i \<in> free_blocks m k" and p: "p \<in> block_pages (k, i)"
    by (auto simp: free_pages_of_def covered_def)
  then have "i + 1 \<le> m_pages m div 2 ^ k"
    using free_blocks_bound free_area_length_div by fastforce
  then have "(i + 1) * 2 ^ k \<le> m_pages m"
    by (metis div_times_less_eq_dividend mult_le_mono1 order_trans)
  with p show ?thesis by auto
qed

lemma free_pages_finite [simp]: "finite (free_pages_of m)"
  by (simp add: free_pages_of_def covered_finite)

lemma card_free_pages: "card (free_pages_of m) \<le> m_pages m"
proof -
  have "card (free_pages_of m) \<le> card {..<m_pages m}"
    by (rule card_mono) (auto dest: free_pages_bound)
  then show ?thesis by simp
qed

text \<open>A request can be served when some free block is large enough.\<close>

lemma avail_blocks:
  assumes "buddy_inv m"
  shows "avail m order \<longleftrightarrow> (\<exists>j i. order \<le> j \<and> (j, i) \<in> blocks_of m)"
proof -
  have "0 < m_pages_free m j \<longleftrightarrow> (\<exists>i. (j, i) \<in> blocks_of m)" if "j < MAX_ORDER" for j
    using ord_ok_empty [OF buddy_invD(2) [OF assms that]] that by auto
  then show ?thesis unfolding avail_def blocks_of_def by auto
qed

lemma avail_0: "buddy_inv m \<Longrightarrow> avail m 0 \<longleftrightarrow> free_pages_of m \<noteq> {}"
  using avail_blocks [of m 0] by (auto simp: free_pages_of_def covered_def)

definition alloc_result :: "mregion \<Rightarrow> nat \<Rightarrow> mregion \<Rightarrow> nat \<Rightarrow> bool" where
  "alloc_result r order r' i \<longleftrightarrow> region_inv r' \<and>
     block_pages (order, i) \<subseteq> free_pages_of (r_page_alloc_si r) \<and>
     free_pages_of (r_page_alloc_si r') =
       free_pages_of (r_page_alloc_si r) - block_pages (order, i) \<and>
     r_start r' = r_start r \<and> r_size r' = r_size r \<and>
     m_pages (r_page_alloc_si r') = m_pages (r_page_alloc_si r) \<and> r_attrib r' = r_attrib r \<and>
     (r_mem_full r' \<longleftrightarrow> r_mem_full r \<or> free_pages_of (r_page_alloc_si r') = {})"

lemma alloc_take_ok:
  assumes inv: "region_inv r" and k: "k < MAX_ORDER"
    and free: "0 < m_pages_free (r_page_alloc_si r) k"
  defines "n \<equiv> m_next_free_page (r_page_alloc_si r) k"
  shows "\<exists>r'. alloc_take (r\<lparr>r_lock := l\<rparr>) k = (r', r_start r + BLOCK_ORDER_SIZE k * n) \<and>
    alloc_result r k r' n"
proof -
  let ?m = "r_page_alloc_si r"
  define m' where "m' = advance_next k (block_set ?m k n)"
  have bi: "buddy_inv ?m" and cnt: "r_pages_free r = card (free_pages_of ?m)"
    and fit: "r_start r + page_size * m_pages ?m < 2 ^ 64"
    using inv by (auto simp: region_inv_def)
  note take = take_block_ok [OF bi k free, folded n_def, folded m'_def]
  have sub: "block_pages (k, n) \<subseteq> free_pages_of ?m"
    unfolding free_pages_of_def using take(1) by (rule block_pages_covered)
  have rest: "free_pages_of m' = free_pages_of ?m - block_pages (k, n)"
    unfolding free_pages_of_def take(3) using buddy_invD(3) [OF bi] take(1) by (rule covered_remove)
  have card: "card (free_pages_of m') = card (free_pages_of ?m) - 2 ^ k"
    and le: "2 ^ k \<le> card (free_pages_of ?m)"
    unfolding free_pages_of_def take(3)
    by (rule card_covered_remove [OF buddy_invD(3) [OF bi] take(1) blocks_of_finite])+
  have "n * 2 ^ k \<in> free_pages_of ?m"
    by (rule subsetD [OF sub]) simp
  then have "2 ^ k * n < m_pages ?m"
    by (metis free_pages_bound mult.commute)
  with fit have "BLOCK_ORDER_SIZE k * n + r_start r < 2 ^ 64"
    by (simp add: BLOCK_ORDER_SIZE_def)
  then have addr: "add64 (BLOCK_ORDER_SIZE k * n) (r_start r) = r_start r + BLOCK_ORDER_SIZE k * n"
    by (simp add: wrap_simps)
  have dec: "sub64 (r_pages_free r) (2 ^ k) = card (free_pages_of m')"
    using card le cnt fit card_free_pages [of ?m] by (simp add: wrap_simps)
  have full: "r_pages_free r \<le> 2 ^ k \<longleftrightarrow> free_pages_of m' = {}"
    using card le cnt card_0_eq [OF free_pages_finite [of m']] by linarith
  define r' where "r' = r\<lparr>r_pages_free := card (free_pages_of m'), r_lock := 0,
      r_page_alloc_si := m', r_mem_full := (r_mem_full r \<or> free_pages_of m' = {})\<rparr>"
  have "alloc_take (r\<lparr>r_lock := l\<rparr>) k = (r', r_start r + BLOCK_ORDER_SIZE k * n)"
    using addr dec full
    by (cases "free_pages_of m' = {}")
      (simp_all add: alloc_take_def Let_def upd_si_def out_of_mem_def r'_def m'_def n_def)
  moreover have "alloc_result r k r' n"
    using inv take(2,4) sub rest fit
    by (simp add: alloc_result_def region_inv_def r'_def)
  ultimately show ?thesis by blast
qed

lemma block_split_alloc:
  assumes inv: "region_inv r" and k: "order < MAX_ORDER"
    and none: "m_pages_free (r_page_alloc_si r) order = 0" and top: "order \<noteq> MAX_ORDER - 1"
    and av: "avail (r_page_alloc_si r) order"
  defines "r1 \<equiv> block_split r (order + 1)"
  shows "region_inv r1" and "0 < m_pages_free (r_page_alloc_si r1) order"
    and "free_pages_of (r_page_alloc_si r1) = free_pages_of (r_page_alloc_si r)"
    and "r_start r1 = r_start r" and "r_size r1 = r_size r" and "r_mem_full r1 = r_mem_full r"
    and "m_pages (r_page_alloc_si r1) = m_pages (r_page_alloc_si r)" and "r_attrib r1 = r_attrib r"
proof -
  have "buddy_inv (r_page_alloc_si r)" using inv by (simp add: region_inv_def)
  with block_split_ok [of r "order + 1"] k top none av avail_step
  have "split_result r (order + 1) r1" by (simp add: r1_def)
  then obtain m' where m': "r1 = r\<lparr>r_page_alloc_si := m'\<rparr>" "buddy_inv m'"
    "free_pages_of m' = free_pages_of (r_page_alloc_si r)"
    "m_pages m' = m_pages (r_page_alloc_si r)" "0 < m_pages_free m' order"
    by (auto simp: split_result_def)
  then show "region_inv r1" and "0 < m_pages_free (r_page_alloc_si r1) order"
    and "free_pages_of (r_page_alloc_si r1) = free_pages_of (r_page_alloc_si r)"
    and "r_start r1 = r_start r" and "r_size r1 = r_size r" and "r_mem_full r1 = r_mem_full r"
    and "m_pages (r_page_alloc_si r1) = m_pages (r_page_alloc_si r)" and "r_attrib r1 = r_attrib r"
    using inv by (simp_all add: region_inv_def)
qed

lemma block_split_lock: "block_split (r\<lparr>r_lock := l\<rparr>) order = (block_split r order)\<lparr>r_lock := l\<rparr>"
  by (induction r order rule: block_split.induct)
    (subst (1 2) block_split.simps, simp add: Let_def upd_si_def out_of_mem_def)

lemma alloc_result_trans:
  assumes "alloc_result r1 k r' i" and "free_pages_of (r_page_alloc_si r1) = free_pages_of (r_page_alloc_si r)"
    and "r_start r1 = r_start r" and "r_size r1 = r_size r" and "r_mem_full r1 = r_mem_full r"
    and "m_pages (r_page_alloc_si r1) = m_pages (r_page_alloc_si r)" and "r_attrib r1 = r_attrib r"
  shows "alloc_result r k r' i"
  using assms by (simp add: alloc_result_def)

lemma pages_alloc_unfold:
  assumes "region_inv r" and "order < MAX_ORDER"
  shows "pages_alloc r order = Inr
    (let r = r\<lparr>r_lock := 1\<rparr> in
     if m_pages_free (r_page_alloc_si r) order > 0 then alloc_take r order
     else if order = MAX_ORDER - 1 then alloc_fail r
     else let r = block_split r (order + 1) in
       if m_pages_free (r_page_alloc_si r) order = 0 then alloc_fail r else alloc_take r order)"
  using assms by (simp add: pages_alloc_def spinlock_lock_cases region_inv_def Let_def)

lemma pages_alloc_success:
  assumes inv: "region_inv r" and k: "order < MAX_ORDER" and av: "avail (r_page_alloc_si r) order"
  shows "\<exists>r' i. pages_alloc r order = Inr (r', r_start r + BLOCK_ORDER_SIZE order * i) \<and>
    alloc_result r order r' i"
proof (cases "0 < m_pages_free (r_page_alloc_si r) order")
  case True
  then show ?thesis
    using alloc_take_ok [OF inv k True, of 1] pages_alloc_unfold [OF inv k] by force
next
  case False
  then have none: "m_pages_free (r_page_alloc_si r) order = 0" by simp
  have top: "order \<noteq> MAX_ORDER - 1"
  proof
    assume "order = MAX_ORDER - 1"
    with av none avail_top [of "r_page_alloc_si r"] show False by simp
  qed
  define r1 where "r1 = block_split r (order + 1)"
  note sp = block_split_alloc [OF inv k none top av, folded r1_def]
  from alloc_take_ok [OF sp(1) k sp(2), of 1] obtain r' i where
    r': "alloc_take (r1\<lparr>r_lock := 1\<rparr>) order = (r', r_start r1 + BLOCK_ORDER_SIZE order * i)"
    "alloc_result r1 order r' i" by blast
  have "pages_alloc r order = Inr (alloc_take (r1\<lparr>r_lock := 1\<rparr>) order)"
    using pages_alloc_unfold [OF inv k] none top sp(2)
    by (simp add: Let_def block_split_lock r1_def)
  then show ?thesis
    using r' sp(4) alloc_result_trans [OF r'(2) sp(3-8)] by force
qed

lemma pages_alloc_failure:
  assumes inv: "region_inv r" and k: "order < MAX_ORDER"
    and no: "\<not> avail (r_page_alloc_si r) order"
  shows "pages_alloc r order = Inr (r\<lparr>r_mem_full := True\<rparr>, 0)"
proof -
  have none: "m_pages_free (r_page_alloc_si r) order = 0" using no avail_here k by blast
  have lock: "r_lock r = 0" using inv by (simp add: region_inv_def)
  show ?thesis
  proof (cases "order = MAX_ORDER - 1")
    case True
    with none lock show ?thesis
      unfolding pages_alloc_unfold [OF inv k] by (simp add: Let_def alloc_fail_def out_of_mem_def)
  next
    case False
    have "buddy_inv (r_page_alloc_si r)" using inv by (simp add: region_inv_def)
    with block_split_ok [of r "order + 1"] False k no avail_step [OF none]
    have "block_split r (order + 1) = out_of_mem r" by simp
    with none lock False show ?thesis
      unfolding pages_alloc_unfold [OF inv k]
      by (simp add: Let_def block_split_lock alloc_fail_def out_of_mem_def)
  qed
qed

section \<open>A region is a source of pages\<close>

definition region_frames :: "mregion \<Rightarrow> nat set" where
  "region_frames r =
     {x. r_start r \<le> x \<and> (x - r_start r) div page_size \<in> free_pages_of (r_page_alloc_si r)}"

lemma area_of_block:
  "area order (s + BLOCK_ORDER_SIZE order * i) =
     {x. s \<le> x \<and> (x - s) div page_size \<in> block_pages (order, i)}"
proof (intro set_eqI iffI)
  fix x
  let ?b = "i * 2 ^ order" and ?e = "(i + 1) * 2 ^ order"
  show "x \<in> {x. s \<le> x \<and> (x - s) div page_size \<in> block_pages (order, i)}"
    if "x \<in> area order (s + BLOCK_ORDER_SIZE order * i)"
  proof -
    from that have x: "s \<le> x" "?b * 4096 \<le> x - s" "x - s < ?e * 4096"
      by (auto simp: area_def BLOCK_ORDER_SIZE_def algebra_simps)
    then have "?b \<le> (x - s) div 4096" and "(x - s) div 4096 < ?e"
      by (simp_all add: less_eq_div_iff_mult_less_eq div_less_iff_less_mult)
    with x(1) show ?thesis by simp
  qed
  show "x \<in> area order (s + BLOCK_ORDER_SIZE order * i)"
    if "x \<in> {x. s \<le> x \<and> (x - s) div page_size \<in> block_pages (order, i)}"
  proof -
    from that have "s \<le> x" "?b * 4096 \<le> x - s" "x - s < ?e * 4096"
      by (simp_all add: less_eq_div_iff_mult_less_eq div_less_iff_less_mult)
    then show ?thesis
      by (auto simp: area_def BLOCK_ORDER_SIZE_def algebra_simps)
  qed
qed

lemma alloc_result_frames:
  assumes "alloc_result r order r' i"
  shows "area order (r_start r + BLOCK_ORDER_SIZE order * i) \<subseteq> region_frames r"
    and "region_frames r' = region_frames r - area order (r_start r + BLOCK_ORDER_SIZE order * i)"
  using assms unfolding area_of_block by (auto simp: alloc_result_def region_frames_def)

lemma region_inv_full [simp]: "region_inv (r\<lparr>r_mem_full := b\<rparr>) = region_inv r"
  by (simp add: region_inv_def)

lemma region_frames_full [simp]: "region_frames (r\<lparr>r_mem_full := b\<rparr>) = region_frames r"
  by (simp add: region_frames_def)

text \<open>The three ways \<open>pages_alloc\<close> ends in a well-formed region.\<close>

lemma pages_alloc_cases:
  assumes "region_inv r"
  obtains (order) "pages_alloc r order = Inr (r, 0)" "MAX_ORDER \<le> order"
  | (full) "pages_alloc r order = Inr (r\<lparr>r_mem_full := True\<rparr>, 0)" "\<not> avail (r_page_alloc_si r) order"
      "order < MAX_ORDER"
  | (taken) r' i where "pages_alloc r order = Inr (r', r_start r + BLOCK_ORDER_SIZE order * i)"
      "alloc_result r order r' i" "order < MAX_ORDER"
proof (cases "order < MAX_ORDER")
  case False
  then show ?thesis using that(1) by (simp add: pages_alloc_def)
next
  case True
  then show ?thesis
    using that(2,3) pages_alloc_success [OF assms True] pages_alloc_failure [OF assms True] by metis
qed

lemma pages_alloc_frames:
  assumes inv: "region_inv r" and eq: "pages_alloc r order = Inr (r', a)"
  shows "region_inv r' \<and> region_frames r' \<subseteq> region_frames r \<and>
    (a \<noteq> 0 \<longrightarrow> area order a \<subseteq> region_frames r \<and> region_frames r' = region_frames r - area order a)"
  using inv
proof (cases rule: pages_alloc_cases [where order = order])
  case order
  with eq inv show ?thesis by simp
next
  case full
  then have "r' = r\<lparr>r_mem_full := True\<rparr>" "a = 0" using eq by simp_all
  with inv show ?thesis by (simp only: region_inv_full region_frames_full) simp
next
  case (taken r2 i)
  then have "r' = r2" "a = r_start r + BLOCK_ORDER_SIZE order * i" using eq by simp_all
  with taken(2) alloc_result_frames [OF taken(2)] show ?thesis
    unfolding alloc_result_def by blast
qed

lemma pages_alloc_returns: "region_inv r \<Longrightarrow> \<exists>r' a. pages_alloc r order = Inr (r', a)"
  by (rule pages_alloc_cases [of r order]) blast+

interpretation region: page_source region_inv region_frames pages_alloc
  by unfold_locales (use pages_alloc_frames pages_alloc_returns in blast)+

end
