(* ===== verification/Buddy_Init.thy ===== *)
theory Buddy_Init
  imports Buddy_Alloc
begin

text \<open>
  \<open>region_map\<close>: the bitmaps, counters and hints it writes describe a region in which every page
  is free, each covered by exactly one block, provided that the bitmaps fit the memory it clears.
\<close>

section \<open>The blocks a fresh region consists of\<close>

definition init_blocks :: "nat \<Rightarrow> nat \<Rightarrow> nat set" where
  "init_blocks P k =
     (if k < MAX_ORDER - 1 then (if odd (P div 2 ^ k) then {P div 2 ^ k - 1} else {})
      else {..<P div 2 ^ k})"

definition low_blocks :: "nat \<Rightarrow> nat \<Rightarrow> block set" where
  "low_blocks P k = {(j, i). j < k \<and> i \<in> init_blocks P j}"

lemma apart_Un:
  assumes "apart A" and "apart B" and "covered A \<inter> covered B = {}"
  shows "apart (A \<union> B)"
  using assms unfolding apart_def covered_def by blast

lemma covered_Un: "covered (A \<union> B) = covered A \<union> covered B"
  by (auto simp: covered_def)

lemma floor_pow_Suc:
  "(P::nat) div 2 ^ k * 2 ^ k = P div 2 ^ Suc k * 2 ^ Suc k + (if odd (P div 2 ^ k) then 2 ^ k else 0)"
proof -
  define d where "d = P div 2 ^ k"
  have "P div 2 ^ Suc k = d div 2"
    unfolding d_def by (metis div_mult2_eq power_Suc2)
  moreover have "d = d div 2 * 2 + (if odd d then 1 else 0)" by presburger
  then have "d * 2 ^ k = (d div 2 * 2 + (if odd d then 1 else 0)) * 2 ^ k"
    by (rule arg_cong [where f = "\<lambda>x. x * 2 ^ k"])
  ultimately show ?thesis unfolding d_def [symmetric] by (simp add: distrib_right)
qed

lemma low_blocks_Suc:
  "low_blocks P (Suc k) = {k} \<times> init_blocks P k \<union> low_blocks P k"
  by (auto simp: low_blocks_def less_Suc_eq)

lemma low_blocks_ok:
  "k \<le> MAX_ORDER - 1 \<Longrightarrow> apart (low_blocks P k) \<and> covered (low_blocks P k) = {P div 2 ^ k * 2 ^ k ..< P}"
proof (induction k)
  case 0
  show ?case by (simp add: low_blocks_def apart_def covered_def)
next
  case (Suc k)
  then have IH: "apart (low_blocks P k)" "covered (low_blocks P k) = {P div 2 ^ k * 2 ^ k ..< P}"
    by auto
  show ?case
  proof (cases "odd (P div 2 ^ k)")
    case True
    then have eq: "low_blocks P (Suc k) = insert (k, P div 2 ^ k - 1) (low_blocks P k)"
      using Suc.prems by (simp add: low_blocks_Suc init_blocks_def)
    define c where "c = P div 2 ^ Suc k * 2 ^ Suc k"
    have top: "P div 2 ^ k * 2 ^ k = c + 2 ^ k" using floor_pow_Suc [of P k] True by (simp add: c_def)
    then have "(P div 2 ^ k - 1) * 2 ^ k = c" by (simp add: diff_mult_distrib)
    moreover have "P div 2 ^ k - 1 + 1 = P div 2 ^ k" using True by (cases "P div 2 ^ k") auto
    ultimately have blk: "block_pages (k, P div 2 ^ k - 1) = {c ..< c + 2 ^ k}"
      unfolding block_pages.simps top [symmetric] by simp
    have "c + 2 ^ k \<le> P" unfolding top [symmetric] by (rule div_times_less_eq_dividend)
    then have "{c ..< c + 2 ^ k} \<union> {c + 2 ^ k ..< P} = {c ..< P}"
      by (intro ivl_disj_un_two) simp_all
    moreover have "apart (low_blocks P (Suc k))"
      unfolding eq using IH blk top by (intro apart_insert) auto
    ultimately show ?thesis
      unfolding c_def [symmetric] eq covered_insert blk IH(2) top by blast
  next
    case False
    then have "low_blocks P (Suc k) = low_blocks P k"
      using Suc.prems by (simp add: low_blocks_Suc init_blocks_def)
    with IH floor_pow_Suc [of P k] False show ?thesis by simp
  qed
qed

lemma equal_blocks_ok:
  "apart ({k} \<times> {..<n}) \<and> covered ({k} \<times> {..<n}) = {..<n * 2 ^ k}"
proof (induction n)
  case 0
  show ?case by (simp add: apart_def covered_def)
next
  case (Suc n)
  have eq: "{k} \<times> {..<Suc n} = insert (k, n) ({k} \<times> {..<n})" by auto
  have blk: "block_pages (k, n) = {n * 2 ^ k ..< Suc n * 2 ^ k}" by simp
  have "n * 2 ^ k \<le> Suc n * 2 ^ k" by simp
  then have "{n * 2 ^ k ..< Suc n * 2 ^ k} \<union> {..<n * 2 ^ k} = {..<Suc n * 2 ^ k}"
    by (intro set_eqI) (simp only: Un_iff atLeastLessThan_iff lessThan_iff, linarith)
  moreover have "apart (insert (k, n) ({k} \<times> {..<n}))"
    using Suc
    by (intro apart_insert) (simp_all only: blk disjoint_iff atLeastLessThan_iff lessThan_iff,
        simp_all add: not_less)
  ultimately show ?case
    unfolding eq covered_insert blk using Suc by simp
qed

lemma init_blocks_ok:
  "apart (low_blocks P MAX_ORDER)" "covered (low_blocks P MAX_ORDER) = {..<P}"
proof -
  define c where "c = P div 2 ^ 9 * 2 ^ 9"
  have low: "apart (low_blocks P 9)" "covered (low_blocks P 9) = {c ..< P}"
    using low_blocks_ok [of 9 P] by (simp_all add: c_def)
  have top: "apart ({9} \<times> {..<P div 2 ^ 9})" "covered ({9} \<times> {..<P div 2 ^ 9}) = {..<c}"
    using equal_blocks_ok [of 9 "P div 2 ^ 9"] by (simp_all add: c_def)
  have eq: "low_blocks P MAX_ORDER = {9} \<times> {..<P div 2 ^ 9} \<union> low_blocks P 9"
    using low_blocks_Suc [of P 9] by (simp add: init_blocks_def)
  show "apart (low_blocks P MAX_ORDER)"
    unfolding eq using low top by (intro apart_Un) auto
  have "c \<le> P" unfolding c_def by (rule div_times_less_eq_dividend)
  then show "covered (low_blocks P MAX_ORDER) = {..<P}"
    unfolding eq covered_Un low(2) top(2) by auto
qed

section \<open>order_max\<close>

lemma order_max_from_spec:
  "k \<le> MAX_ORDER - 1 \<Longrightarrow> k \<le> order_max_from k q \<and> order_max_from k q \<le> MAX_ORDER - 1 \<and>
     (\<forall>j. k \<le> j \<and> j < order_max_from k q \<longrightarrow> even (q div 2 ^ (j - k))) \<and>
     (order_max_from k q < MAX_ORDER - 1 \<longrightarrow> odd (q div 2 ^ (order_max_from k q - k)))"
proof (induction k q rule: order_max_from.induct)
  case (1 k q)
  note unf = order_max_from.simps [of k q]
  show ?case
  proof (cases "odd q")
    case True
    then have "order_max_from k q = k" using "1.prems" unf by (simp add: odd_iff_mod_2_eq_one)
    with True "1.prems" show ?thesis by auto
  next
    case False
    show ?thesis
    proof (cases "k = MAX_ORDER - 1")
      case True
      have "order_max_from (Suc k) (q div 2) = MAX_ORDER - 1"
        using True by (subst order_max_from.simps) simp
      then have "order_max_from k q = MAX_ORDER - 1" using False True unf by simp
      with True show ?thesis by auto
    next
      case k: False
      have eq: "order_max_from k q = order_max_from (Suc k) (q div 2)"
        using False k "1.prems" unf by simp
      have half: "q div 2 div 2 ^ (j - Suc k) = q div 2 ^ (j - k)" if "k < j" for j
      proof -
        from that have "j - k = Suc (j - Suc k)" by simp
        then show ?thesis by (simp add: div_mult2_eq)
      qed
      have IH: "Suc k \<le> order_max_from k q" "order_max_from k q \<le> MAX_ORDER - 1"
        "\<forall>j. Suc k \<le> j \<and> j < order_max_from k q \<longrightarrow> even (q div 2 div 2 ^ (j - Suc k))"
        "order_max_from k q < MAX_ORDER - 1 \<longrightarrow> odd (q div 2 div 2 ^ (order_max_from k q - Suc k))"
        using "1.IH" False k "1.prems" by (auto simp: eq odd_iff_mod_2_eq_one)
      have "even (q div 2 ^ (j - k))" if "k \<le> j" "j < order_max_from k q" for j
        using that IH(3) half False by (cases "j = k") auto
      then show ?thesis using IH half by simp
    qed
  qed
qed

lemma order_max_spec:
  "order_max q \<le> MAX_ORDER - 1"
  "j < order_max q \<Longrightarrow> even (q div 2 ^ j)"
  "order_max q < MAX_ORDER - 1 \<Longrightarrow> odd (q div 2 ^ order_max q)"
  using order_max_from_spec [of 0 q] by (simp_all add: order_max_def)

section \<open>The loop of _free_area_map\<close>

definition order_done :: "bpa_map \<Rightarrow> nat \<Rightarrow> bool" where
  "order_done m k \<longleftrightarrow> ord_ok m k \<and> free_blocks m k = init_blocks (m_pages m) k"

definition order_todo :: "bpa_map \<Rightarrow> nat \<Rightarrow> bool" where
  "order_todo m k \<longleftrightarrow> free_blocks m k = {} \<and> m_pages_free m k = 0 \<and> m_next_free_page m k = 0"

definition loop_inv :: "bpa_map \<Rightarrow> nat \<Rightarrow> nat \<Rightarrow> bool" where
  "loop_inv m p k \<longleftrightarrow> layout_ok m \<and> k < MAX_ORDER \<and> p = m_pages m div 2 ^ k * 2 ^ k \<and>
     (\<forall>j < k. order_done m j) \<and> (\<forall>j. k \<le> j \<and> j < MAX_ORDER \<longrightarrow> order_todo m j) \<and>
     (\<forall>j < MAX_ORDER. sentinel m j)"

lemma order_todo_done: "order_todo m k \<Longrightarrow> init_blocks (m_pages m) k = {} \<Longrightarrow> order_done m k"
  by (simp add: order_todo_def order_done_def ord_ok_def)

lemma order_done_cong:
  "m_pages m' = m_pages m \<Longrightarrow> free_blocks m' k = free_blocks m k \<Longrightarrow>
     m_pages_free m' k = m_pages_free m k \<Longrightarrow> m_next_free_page m' k = m_next_free_page m k \<Longrightarrow>
     order_done m' k = order_done m k \<and> order_todo m' k = order_todo m k"
  by (simp add: order_done_def order_todo_def ord_ok_def)

lemma shift_floor:
  assumes "k \<le> j"
  shows "(P::nat) div 2 ^ k * 2 ^ k div 2 ^ j = P div 2 ^ j"
proof -
  from assms obtain d where "j = k + d" using le_Suc_ex by blast
  then show ?thesis by (simp add: power_add div_mult2_eq)
qed

lemma floor_even: "j < k \<Longrightarrow> even ((P::nat) div 2 ^ k * 2 ^ k div 2 ^ j)"
proof -
  assume "j < k"
  then obtain d where "k = j + Suc d" using less_iff_Suc_add by auto
  then show ?thesis by (simp add: power_add mult.assoc [symmetric])
qed

lemma floor_same:
  assumes "k \<le> n" and "\<And>j. k \<le> j \<Longrightarrow> j < n \<Longrightarrow> even ((P::nat) div 2 ^ j)"
  shows "P div 2 ^ k * 2 ^ k = P div 2 ^ n * 2 ^ n"
  using assms
proof (induction n rule: dec_induct)
  case base
  show ?case by simp
next
  case (step n)
  with floor_pow_Suc [of P n] show ?case by simp
qed

lemma loop_inv_order:
  assumes "loop_inv m p k"
  shows "k \<le> order_max p" and "loop_inv m p (order_max p)"
    and "p div 2 ^ order_max p = m_pages m div 2 ^ order_max p"
    and "order_max p < MAX_ORDER - 1 \<Longrightarrow> odd (m_pages m div 2 ^ order_max p)"
proof -
  let ?P = "m_pages m" and ?o = "order_max p"
  have p: "p = ?P div 2 ^ k * 2 ^ k" and k: "k < MAX_ORDER" using assms by (auto simp: loop_inv_def)
  show ge: "k \<le> ?o"
  proof (rule ccontr)
    assume "\<not> k \<le> ?o"
    with k order_max_spec(3) [of p] floor_even [of ?o k ?P] p show False by auto
  qed
  show shift: "p div 2 ^ ?o = ?P div 2 ^ ?o" using shift_floor [OF ge] p by simp
  then show "?o < MAX_ORDER - 1 \<Longrightarrow> odd (?P div 2 ^ ?o)" using order_max_spec(3) [of p] by simp
  have even: "even (?P div 2 ^ j)" if "k \<le> j" "j < ?o" for j
    using order_max_spec(2) [OF that(2)] shift_floor [OF that(1), of ?P] p by simp
  have p': "p = ?P div 2 ^ ?o * 2 ^ ?o"
    using floor_same [OF ge even] p by simp
  have "order_done m j" if "k \<le> j" "j < ?o" for j
    using that even [OF that] order_max_spec(1) [of p] assms
    by (intro order_todo_done) (auto simp: loop_inv_def init_blocks_def)
  then show "loop_inv m p ?o"
    using assms p' ge order_max_spec(1) [of p] unfolding loop_inv_def
    by (metis Suc_diff_1 le_imp_less_Suc le_trans not_le zero_less_numeral MAX_ORDER_def)
qed

lemma free_blocks_blocks_clear:
  assumes "layout_ok m" and "k < MAX_ORDER" and "c \<le> free_area_length (m_pages m) k"
    and "j < MAX_ORDER"
  shows "free_blocks (blocks_clear m k 0 c) j =
    (if j = k then {..<c} \<union> free_blocks m j else free_blocks m j)"
proof -
  have "block_check (blocks_clear m k 0 c) j i \<longleftrightarrow> block_check m j i \<and> \<not> (k = j \<and> i < c)"
    if "i < free_area_length (m_pages m) j" for i
    using assms that
    by (subst block_check_blocks_clear) (auto intro!: bit_valid_in_range)
  with assms(3) show ?thesis by (auto simp: free_blocks_def)
qed

lemma sentinel_blocks_clear:
  assumes "layout_ok m" and "k < MAX_ORDER" and "c \<le> free_area_length (m_pages m) k"
    and "j < MAX_ORDER"
  shows "sentinel (blocks_clear m k 0 c) j = sentinel m j"
proof -
  have "block_check (blocks_clear m k 0 c) j (free_area_length (m_pages m) j) \<longleftrightarrow>
      block_check m j (free_area_length (m_pages m) j)"
    if "odd (free_area_length (m_pages m) j)"
    using assms bit_valid_sentinel [OF assms(1,4) that]
    by (subst block_check_blocks_clear) (auto intro!: bit_valid_in_range)
  then show ?thesis by (auto simp: sentinel_def)
qed

lemma free_area_map_last:
  assumes inv: "loop_inv m p k" and c: "c = free_area_length p k"
    and init: "init_blocks (m_pages m) k = {..<c}"
    and rest: "\<And>j. k < j \<Longrightarrow> j < MAX_ORDER \<Longrightarrow> init_blocks (m_pages m) j = {}"
  defines "m' \<equiv> blocks_clear (cnt_put k c m) k 0 c"
  shows "layout_ok m' \<and> m_pages m' = m_pages m \<and>
    (\<forall>j < MAX_ORDER. order_done m' j \<and> sentinel m' j)"
proof -
  have k: "k < MAX_ORDER" "layout_ok m" using inv by (auto simp: loop_inv_def)
  have len: "c = free_area_length (m_pages m) k"
    using c inv shift_floor [of k k "m_pages m"] by (simp add: free_area_length_div loop_inv_def)
  then have F: "free_blocks m' j = (if j = k then {..<c} \<union> free_blocks m j else free_blocks m j)"
    if "j < MAX_ORDER" for j
    using free_blocks_blocks_clear [of "cnt_put k c m" k c j] k that by (simp add: m'_def)
  have "order_done m' j" if j: "j < MAX_ORDER" for j
  proof (cases "j = k")
    case True
    moreover have "order_todo m k" using inv k by (simp add: loop_inv_def)
    ultimately have "free_blocks m' k = {..<c}" and "m_next_free_page m' k = 0"
      and "m_pages_free m' k = c"
      using F [OF k(1)] by (simp_all add: order_todo_def m'_def)
    moreover have "{..<c} \<noteq> {} \<longrightarrow> 0 = Min {..<c}"
      by (metis Min_eqI ex_in_conv finite_lessThan lessThan_iff not_gr0 not_less_zero zero_le)
    ultimately show ?thesis
      using True init by (simp add: order_done_def ord_ok_def m'_def)
  next
    case False
    then have "order_done m' j = order_done m j"
      using F [OF j] by (intro order_done_cong [THEN conjunct1]) (simp_all add: m'_def)
    moreover have "order_done m j"
      using inv False rest [of j] order_todo_done [of m j] j
      by (cases "j < k") (auto simp: loop_inv_def)
    ultimately show ?thesis by simp
  qed
  moreover have "sentinel m' j" if "j < MAX_ORDER" for j
    using sentinel_blocks_clear [of "cnt_put k c m" k c j] k len that inv
    by (simp add: m'_def loop_inv_def)
  ultimately show ?thesis using k by (simp add: m'_def layout_ok_def)
qed

lemma free_area_map_next:
  assumes inv: "loop_inv m p k" and k: "k < MAX_ORDER - 1" and odd: "odd (m_pages m div 2 ^ k)"
  defines "n \<equiv> free_area_length p k - 1"
  defines "m' \<equiv> cnt_put k 1 (block_clear (nfp_put k n m) k n)"
  shows "loop_inv m' (p - 2 ^ k) (Suc k)"
proof -
  let ?P = "m_pages m"
  have lay: "layout_ok m" and p: "p = ?P div 2 ^ k * 2 ^ k" and kM: "k < MAX_ORDER"
    using inv by (auto simp: loop_inv_def)
  have n: "n = ?P div 2 ^ k - 1"
    using shift_floor [of k k ?P] p by (simp add: n_def free_area_length_div)
  have pos: "0 < ?P div 2 ^ k" using odd by (cases "?P div 2 ^ k") auto
  then have lt: "n < free_area_length ?P k" unfolding n free_area_length_div by simp
  have F: "free_blocks m' j = (if j = k then insert n (free_blocks m j) else free_blocks m j)"
    if "j < MAX_ORDER" for j
    using bit_valid_in_range [OF lay kM lt] that lt free_blocks_clear [of "nfp_put k n m" k n j]
    by (simp add: m'_def)
  have todo: "order_todo m k" using inv kM by (simp add: loop_inv_def)
  have here: "order_done m' k"
  proof -
    have "free_blocks m' k = {n}" "m_pages_free m' k = 1" "m_next_free_page m' k = n"
      using F [OF kM] todo by (simp_all add: order_todo_def m'_def)
    moreover have "init_blocks ?P k = {n}" using k odd n by (simp add: init_blocks_def)
    ultimately show ?thesis by (simp add: order_done_def ord_ok_def m'_def)
  qed
  have other: "order_done m' j = order_done m j \<and> order_todo m' j = order_todo m j"
    if "j \<noteq> k" "j < MAX_ORDER" for j
    using F [OF that(2)] that by (intro order_done_cong) (simp_all add: m'_def)
  have "p - 2 ^ k = ?P div 2 ^ Suc k * 2 ^ Suc k"
    using floor_pow_Suc [of ?P k] odd p by simp
  moreover have "\<forall>j < Suc k. order_done m' j"
    using other here inv kM by (auto simp: loop_inv_def less_Suc_eq)
  moreover have "\<forall>j. Suc k \<le> j \<and> j < MAX_ORDER \<longrightarrow> order_todo m' j"
    using other inv by (auto simp: loop_inv_def)
  moreover have "\<forall>j < MAX_ORDER. sentinel m' j"
    using sentinel_bits(2) [of "nfp_put k n m" k n] lay kM lt inv
    by (simp add: m'_def loop_inv_def)
  ultimately show ?thesis
    using lay k by (simp add: loop_inv_def m'_def)
qed

lemma free_area_map_loop_ok:
  "loop_inv m p k \<Longrightarrow> layout_ok (free_area_map_loop m p) \<and>
     m_pages (free_area_map_loop m p) = m_pages m \<and>
     (\<forall>j < MAX_ORDER. order_done (free_area_map_loop m p) j \<and>
       sentinel (free_area_map_loop m p) j)"
proof (induction m p arbitrary: k rule: free_area_map_loop.induct)
  case (1 m p k)
  define o' where "o' = order_max p"
  note ord = loop_inv_order [OF "1.prems", folded o'_def]
  note unf = free_area_map_loop.simps [of m p, folded o'_def]
  have o: "o' \<le> MAX_ORDER - 1" unfolding o'_def by (rule order_max_spec(1))
  let ?c = "free_area_length p o'"
  have c: "?c = m_pages m div 2 ^ o'" using ord(3) by (simp add: free_area_length_div)
  consider (top) "o' = MAX_ORDER - 1"
    | (last) "o' < MAX_ORDER - 1" "free_area_length (m_pages m) (o' + 1) = 0"
    | (more) "o' < MAX_ORDER - 1" "free_area_length (m_pages m) (o' + 1) \<noteq> 0"
    using o by linarith
  then show ?case
  proof cases
    case top
    then have "free_area_map_loop m p = blocks_clear (cnt_put o' ?c m) o' 0 ?c"
      using unf by (simp add: Let_def)
    moreover have "init_blocks (m_pages m) o' = {..<?c}" using top c by (simp add: init_blocks_def)
    ultimately show ?thesis
      using free_area_map_last [OF ord(2) refl] top by simp
  next
    case last
    then have "free_area_map_loop m p = blocks_clear (cnt_put o' ?c m) o' 0 ?c"
      using unf by (simp add: Let_def del: free_area_length.simps)
    moreover have "?c = 1"
    proof -
      have "m_pages m div 2 ^ o' div 2 = 0"
        using last(2) unfolding free_area_length_div by (metis Suc_eq_plus1 div_mult2_eq power_Suc2)
      with ord(4) last(1) show ?thesis unfolding c by (auto elim: oddE)
    qed
    moreover have "init_blocks (m_pages m) j = {}" if "o' < j" for j
    proof -
      from that obtain d where "j = o' + 1 + d" using less_iff_Suc_add by auto
      then have "m_pages m div 2 ^ j = 0"
        using last(2) unfolding free_area_length_div by (simp add: power_add div_mult2_eq)
      then show ?thesis by (simp add: init_blocks_def)
    qed
    ultimately show ?thesis
      using free_area_map_last [OF ord(2) refl] last c by (simp add: init_blocks_def lessThan_Suc)
  next
    case more
    define m1 where "m1 = cnt_put o' 1 (block_clear (nfp_put o' (?c - 1) m) o' (?c - 1))"
    have "order_todo m o'" using ord(2) o by (simp add: loop_inv_def)
    then have eq: "free_area_map_loop m p = free_area_map_loop m1 (p - 2 ^ o')"
      using unf more by (simp add: Let_def m1_def order_todo_def wrap_simps del: free_area_length.simps)
    have inv1: "loop_inv m1 (p - 2 ^ o') (Suc o')"
      unfolding m1_def using free_area_map_next [OF ord(2)] more(1) ord(4) by simp
    have "layout_ok (free_area_map_loop m1 (p - 2 ^ o')) \<and>
      m_pages (free_area_map_loop m1 (p - 2 ^ o')) = m_pages m1 \<and>
      (\<forall>j < MAX_ORDER. order_done (free_area_map_loop m1 (p - 2 ^ o')) j \<and>
        sentinel (free_area_map_loop m1 (p - 2 ^ o')) j)"
    proof (rule "1.IH" [OF o'_def _ _ refl refl _ inv1])
      show "o' \<noteq> MAX_ORDER - 1" "free_area_length (m_pages m) (o' + 1) \<noteq> 0"
        using more by simp_all
      show "m1 = cnt_put o'
          (add64 (m_pages_free (block_clear (nfp_put o' (?c - 1) m) o'
            (m_next_free_page (nfp_put o' (?c - 1) m) o')) o') 1)
          (block_clear (nfp_put o' (?c - 1) m) o' (m_next_free_page (nfp_put o' (?c - 1) m) o'))"
        using \<open>order_todo m o'\<close> by (simp add: m1_def order_todo_def wrap_simps)
    qed
    then show ?thesis unfolding eq by (simp add: m1_def)
  qed
qed

section \<open>region_map\<close>

text \<open>
  The bitmaps of a region of \<open>pages\<close> pages fit when the last byte of every order's bitmap is
  among the \<open>free_area_size\<close> bytes that \<open>region_map\<close> sets to \<open>0xFF\<close>.
\<close>

definition table_fits :: "nat \<Rightarrow> bool" where
  "table_fits pages \<longleftrightarrow>
     list_all (\<lambda>k. free_area_length pages k = 0 \<or>
       area_pos pages k + (free_area_length pages k - 1) div 8 < (pages * BITS_PER_PAGE + 7) div 8)
     [0..<MAX_ORDER]"

lemma region_map_table_layout: "layout_ok (region_map_table pages mem)"
  using map_areas_pos [of 0 pages "(\<lambda>_. 0)(0 := 0)"]
  by (auto simp: layout_ok_def region_map_table_def Let_def)

lemma region_map_table_byte:
  assumes "table_fits pages" and "k < MAX_ORDER" and "0 < free_area_length pages k"
    and "i div 8 \<le> (free_area_length pages k - 1) div 8"
  shows "block_check (region_map_table pages mem) k i"
proof -
  let ?m = "region_map_table pages mem"
  have "area_pos pages k + (free_area_length pages k - 1) div 8
      < (pages * BITS_PER_PAGE + 7) div 8"
    using assms(1-3) unfolding table_fits_def list_all_iff
    by (metis atLeast_upt lessThan_iff not_less_zero)
  moreover have "m_free_area ?m k = area_pos pages k"
    using region_map_table_layout [of pages mem] assms(2)
    by (simp add: layout_ok_def region_map_table_def Let_def)
  ultimately have "m_table ?m (m_free_area ?m k + i div 8) = 0xFF"
    using assms(4) by (simp add: region_map_table_def Let_def)
  moreover have "bit (0xFF :: u8) (i mod 8)"
  proof -
    have "(0xFF :: u8) = - 1" by simp
    then show ?thesis by (simp only: bit_minus_1_iff) simp
  qed
  ultimately show ?thesis by (simp add: block_check_bit)
qed

lemma region_map_table_pages [simp]: "m_pages (region_map_table pages mem) = pages"
  by (simp add: region_map_table_def Let_def)

lemma region_map_table_full:
  assumes "table_fits pages" and "k < MAX_ORDER"
  shows "free_blocks (region_map_table pages mem) k = {}"
proof -
  have "block_check (region_map_table pages mem) k i" if "i < free_area_length pages k" for i
    using that by (intro region_map_table_byte assms div_le_mono) simp_all
  then show ?thesis by (auto simp: free_blocks_def)
qed

lemma region_map_table_sentinel:
  assumes "table_fits pages" and "k < MAX_ORDER"
  shows "sentinel (region_map_table pages mem) k"
proof -
  have "n div 8 \<le> (n - 1) div 8" if "odd n" for n :: nat
    using that by (auto elim!: oddE)
  moreover have "0 < n" if "odd n" for n :: nat
    using that by (cases n) auto
  ultimately show ?thesis
    unfolding sentinel_def using region_map_table_byte [OF assms] by simp
qed

lemma free_area_map_ok:
  assumes "layout_ok m" and "\<And>k. k < MAX_ORDER \<Longrightarrow> order_todo m k \<and> sentinel m k"
    and "m_pages m < 2 ^ 60"
  shows "buddy_inv (free_area_map m)" and "free_pages_of (free_area_map m) = {..<m_pages m}"
    and "m_pages (free_area_map m) = m_pages m"
    and "blocks_of (free_area_map m) = low_blocks (m_pages m) MAX_ORDER"
proof -
  have "loop_inv m (m_pages m) 0" using assms by (simp add: loop_inv_def)
  from free_area_map_loop_ok [OF this]
  have ok: "layout_ok (free_area_map m)"
      "\<forall>j < MAX_ORDER. order_done (free_area_map m) j \<and> sentinel (free_area_map m) j"
    and pages: "m_pages (free_area_map m) = m_pages m"
    by (auto simp: free_area_map_def)
  then have blk: "blocks_of (free_area_map m) = low_blocks (m_pages m) MAX_ORDER"
    by (auto simp: blocks_of_def low_blocks_def order_done_def)
  show "buddy_inv (free_area_map m)"
    using ok pages assms(3) init_blocks_ok(1) by (simp add: buddy_inv_def blk order_done_def)
  show "free_pages_of (free_area_map m) = {..<m_pages m}"
    unfolding free_pages_of_def blk by (rule init_blocks_ok(2))
  show "m_pages (free_area_map m) = m_pages m" by (rule pages)
  show "blocks_of (free_area_map m) = low_blocks (m_pages m) MAX_ORDER" by (rule blk)
qed

lemma region_map_ok:
  assumes "r_lock r = 0" and "table_fits pages" and "r_start r + page_size * pages < 2 ^ 64"
  shows "\<exists>r'. region_map r pages mem = Inr r' \<and> region_inv r' \<and>
    free_pages_of (r_page_alloc_si r') = {..<pages} \<and> r_pages_free r' = pages \<and>
    \<not> r_mem_full r' \<and> r_start r' = r_start r \<and> r_size r' = r_size r \<and>
    m_pages (r_page_alloc_si r') = pages \<and> r_attrib r' = r_attrib r \<and>
    blocks_of (r_page_alloc_si r') = low_blocks pages MAX_ORDER"
proof -
  let ?m = "region_map_table pages mem"
  have fields: "m_pages ?m = pages" "m_pages_free ?m k = 0" "m_next_free_page ?m k = 0" for k
    by (simp_all add: region_map_table_def Let_def)
  have "order_todo ?m k \<and> sentinel ?m k" if "k < MAX_ORDER" for k
    using region_map_table_full [OF assms(2) that] region_map_table_sentinel [OF assms(2) that] fields
    by (simp add: order_todo_def)
  moreover have "m_pages ?m < 2 ^ 60" using assms(3) by (simp add: fields)
  ultimately have ok: "buddy_inv (free_area_map ?m)" "free_pages_of (free_area_map ?m) = {..<pages}"
    "m_pages (free_area_map ?m) = pages" "blocks_of (free_area_map ?m) = low_blocks pages MAX_ORDER"
    using free_area_map_ok [OF region_map_table_layout] fields by auto
  with assms show ?thesis
    by (simp add: region_map_def spinlock_lock_cases Let_def upd_si_def region_inv_def)
qed

text \<open>Regions whose page count is a multiple of 4096 fit.\<close>

lemma area_size_dvd: "k \<le> 9 \<Longrightarrow> area_size (8 * 2 ^ 9 * q) k = 2 ^ (9 - k) * q"
proof (induction k)
  case 0
  then show ?case by simp
next
  case (Suc k)
  then have "9 - k = Suc (9 - Suc k)" by simp
  with Suc show ?case by simp
qed

lemma area_pos_dvd: "k \<le> 9 \<Longrightarrow> area_pos (8 * 2 ^ 9 * q) k + 2 ^ (10 - k) * q = 2 ^ 10 * q"
proof (induction k)
  case 0
  then show ?case by simp
next
  case (Suc k)
  then have "10 - k = Suc (10 - Suc k)" and "10 - Suc k = 9 - k" by simp_all
  with Suc area_size_dvd [of k q] show ?case by (simp add: algebra_simps)
qed

lemma table_fits_dvd: "4096 dvd pages \<Longrightarrow> table_fits pages"
proof -
  assume "4096 dvd pages"
  then obtain q where q: "pages = 8 * 2 ^ 9 * q" by (auto elim: dvdE)
  have "area_pos pages k + (free_area_length pages k - 1) div 8 < (pages * BITS_PER_PAGE + 7) div 8"
    if "k < 10" and "free_area_length pages k \<noteq> 0" for k
  proof -
    have "free_area_length pages k = 8 * (2 ^ (9 - k) * q)"
    proof -
      have "(2::nat) ^ 9 = 2 ^ (9 - k) * 2 ^ k"
        using that(1) by (simp add: power_add [symmetric])
      then have "pages = 8 * (2 ^ (9 - k) * q) * 2 ^ k" unfolding q by (simp add: mult.assoc mult.left_commute)
      then show ?thesis unfolding free_area_length_div by simp
    qed
    with that(2) have "(free_area_length pages k - 1) div 8 < 2 ^ (9 - k) * q" by linarith
    moreover have "area_pos pages k + 2 * (2 ^ (9 - k) * q) = 2 ^ 10 * q"
    proof -
      have "10 - k = Suc (9 - k)" using that(1) by simp
      with area_pos_dvd [of k q] that(1) show ?thesis by (simp add: q)
    qed
    ultimately show ?thesis unfolding q by simp
  qed
  then show ?thesis
    unfolding table_fits_def list_all_iff MAX_ORDER_def by (metis atLeastLessThan_iff set_upt)
qed

end
