(* ===== verification/Buddy_Free.thy ===== *)
theory Buddy_Free
  imports Buddy_Alloc
begin

text \<open>
  Merging and freeing: \<open>block_merge\<close> is the abstract merge, repeated as far as the buddies are
  free, and \<open>pages_free\<close> gives a block back when the hint of its order can be kept.
\<close>

section \<open>Merging a pair\<close>

definition merge_bits :: "nat \<Rightarrow> nat \<Rightarrow> bpa_map \<Rightarrow> bpa_map" where
  "merge_bits k i m = block_clear (block_set (block_set m k (2 * i)) k (2 * i + 1)) (k + 1) i"

lemma merge_bits_fields [simp]:
  "m_pages (merge_bits k i m) = m_pages m"
  "m_free_area (merge_bits k i m) = m_free_area m"
  "m_pages_free (merge_bits k i m) = m_pages_free m"
  "m_next_free_page (merge_bits k i m) = m_next_free_page m"
  "layout_ok (merge_bits k i m) = layout_ok m"
  by (simp_all add: merge_bits_def)

lemma free_area_length_Suc: "free_area_length p (Suc k) = free_area_length p k div 2"
  unfolding free_area_length_div by (metis div_mult2_eq power_Suc2)

lemma merge_bits_effect:
  assumes "layout_ok m" and "Suc k < MAX_ORDER" and "2 * i + 1 < free_area_length (m_pages m) k"
    and "j < MAX_ORDER"
  shows "free_blocks (merge_bits k i m) j =
      (if j = k then free_blocks m j - {2 * i, 2 * i + 1}
       else if j = Suc k then insert i (free_blocks m j) else free_blocks m j)"
    and "sentinel (merge_bits k i m) j = sentinel m j"
proof -
  have up: "i < free_area_length (m_pages m) (Suc k)"
    using assms(3) unfolding free_area_length_Suc by linarith
  have v: "bit_valid m k (2 * i)" "bit_valid m k (Suc (2 * i))" "bit_valid m (Suc k) i"
    using assms(1-3) up by (auto intro!: bit_valid_in_range simp del: free_area_length.simps)
  show "free_blocks (merge_bits k i m) j =
      (if j = k then free_blocks m j - {2 * i, 2 * i + 1}
       else if j = Suc k then insert i (free_blocks m j) else free_blocks m j)"
    unfolding merge_bits_def using assms(4) v up
    by (auto simp: free_blocks_set free_blocks_clear simp del: free_area_length.simps)
  show "sentinel (merge_bits k i m) j = sentinel m j"
    unfolding merge_bits_def using assms up
    by (simp add: sentinel_bits del: free_area_length.simps)
qed

definition merge_next :: "nat \<Rightarrow> nat \<Rightarrow> bpa_map \<Rightarrow> bpa_map" where
  "merge_next k x m =
     (if m_next_free_page m k = x \<or> m_next_free_page m k = x + 1
      then case find_next_free_page m k (x + 2) of (m, i) \<Rightarrow> nfp_put k i m
      else m)"

definition parent_next :: "nat \<Rightarrow> nat \<Rightarrow> bpa_map \<Rightarrow> bpa_map" where
  "parent_next k i m =
     (if m_next_free_page m k > i \<or> m_pages_free m k = 1 then nfp_put k i m else m)"

lemma merge_pair_unfold:
  "merge_pair k (2 * i) m =
     parent_next (k + 1) i (merge_next k (2 * i)
       (cnt_put (k + 1) (add64 (m_pages_free m (k + 1)) 1)
         (cnt_put k (sub64 (m_pages_free m k) 2) (merge_bits k i m))))"
  by (simp add: merge_pair_def merge_bits_def merge_next_def parent_next_def Let_def)

lemma merge_next_fields [simp]:
  "m_table (merge_next k x m) = m_table m"
  "m_pages (merge_next k x m) = m_pages m"
  "m_free_area (merge_next k x m) = m_free_area m"
  by (simp_all add: merge_next_def split_beta find_next_free_page_fields)

lemma parent_next_fields [simp]:
  "m_table (parent_next k i m) = m_table m"
  "m_pages (parent_next k i m) = m_pages m"
  "m_free_area (parent_next k i m) = m_free_area m"
  "m_pages_free (parent_next k i m) = m_pages_free m"
  "j \<noteq> k \<Longrightarrow> m_next_free_page (parent_next k i m) j = m_next_free_page m j"
  by (simp_all add: parent_next_def)

lemma next_free_blocks [simp]:
  "free_blocks (merge_next k x m) = free_blocks m"
  "free_blocks (parent_next k i m) = free_blocks m"
  "sentinel (merge_next k x m) = sentinel m"
  "sentinel (parent_next k i m) = sentinel m"
  "layout_ok (merge_next k x m) = layout_ok m"
  "layout_ok (parent_next k i m) = layout_ok m"
  by (rule free_blocks_cong sentinel_cong layout_ok_eq; simp)+

lemma find_next_other:
  "j \<noteq> k \<Longrightarrow> m_pages_free (fst (find_next_free_page m k s)) j = m_pages_free m j"
  "m_next_free_page (fst (find_next_free_page m k s)) = m_next_free_page m"
  by (simp_all add: find_next_free_page_def split: option.splits)

lemma merge_next_other:
  "j \<noteq> k \<Longrightarrow> m_pages_free (merge_next k x m) j = m_pages_free m j"
  "j \<noteq> k \<Longrightarrow> m_next_free_page (merge_next k x m) j = m_next_free_page m j"
  by (simp_all add: merge_next_def split_beta find_next_other)

text \<open>Taking the pair out of the order below keeps its count and its least index.\<close>

lemma merge_next_ok:
  assumes F: "F \<noteq> {}" "finite F" "m_next_free_page m k = Min F" "{x, x + 1} \<subseteq> F"
    and new: "free_blocks m k = F - {x, x + 1}" "m_pages_free m k = card (F - {x, x + 1})"
  shows "ord_ok (merge_next k x m) k"
proof (cases "Min F = x \<or> Min F = x + 1")
  case True
  then have "Min F = x" using F(2,4) by (metis Min_le Suc_eq_plus1 insert_subset not_less_eq_eq le_refl)
  then have above: "x + 2 \<le> j" if "j \<in> free_blocks m k" for j
    using that F(2) Min_le [of F j] unfolding new(1) by auto
  show ?thesis
  proof (cases "free_blocks m k = {}")
    case False
    with above have "merge_next k x m = nfp_put k (Min (free_blocks m k)) m"
      using True F(3) by (simp add: merge_next_def find_next_free_page_Min)
    then show ?thesis using new False by (auto simp: ord_ok_def)
  next
    case empty: True
    then have "find_next_free_page m k (x + 2) = (cnt_put k 0 m, 0)"
      by (intro find_next_free_page_none) simp
    then have "merge_next k x m = nfp_put k 0 (cnt_put k 0 m)"
      using True F(3) by (simp add: merge_next_def)
    then show ?thesis using empty by (simp add: ord_ok_def)
  qed
next
  case False
  then have mem: "Min F \<in> F - {x, x + 1}" using F(1,2) by simp
  then have "Min (F - {x, x + 1}) = Min F"
    using F(2) by (intro Min_eqI) auto
  moreover have "merge_next k x m = m" using False F(3) by (simp add: merge_next_def)
  ultimately show ?thesis using new F(3) mem unfolding ord_ok_def by (metis empty_iff)
qed

lemma parent_next_ok:
  assumes G: "finite G" "i \<notin> G" "G \<noteq> {} \<longrightarrow> m_next_free_page m k = Min G"
    and new: "free_blocks m k = insert i G" "m_pages_free m k = card (insert i G)"
  shows "ord_ok (parent_next k i m) k"
proof (cases "G = {}")
  case True
  then show ?thesis using new by (simp add: parent_next_def ord_ok_def)
next
  case False
  define g where "g = Min G"
  have "g \<noteq> i" using G False unfolding g_def by (metis Min_in)
  moreover have "Min (insert i G) = min i g" unfolding g_def using G(1) False by simp
  moreover have "m_pages_free m k \<noteq> 1" using False G new(2) by (simp add: card_eq_0_iff)
  moreover have "m_next_free_page m k = g" using False G(3) by (simp add: g_def)
  ultimately show ?thesis
    using new by (cases "i < g") (simp_all add: parent_next_def ord_ok_def del: Min_insert)
qed

lemma merge_pair_ok:
  assumes inv: "buddy_inv m" and k: "Suc k < MAX_ORDER"
    and pair: "{2 * i, 2 * i + 1} \<subseteq> free_blocks m k"
  shows "buddy_inv (merge_pair k (2 * i) m)"
    and "blocks_of (merge_pair k (2 * i) m) = merge_block k i (blocks_of m)"
    and "m_pages (merge_pair k (2 * i) m) = m_pages m"
proof -
  note invD = buddy_invD [OF inv]
  let ?F = "free_blocks m k" and ?G = "free_blocks m (Suc k)"
  have kM: "k < MAX_ORDER" using k by simp
  define h where "h = merge_bits k i m"
  define c where "c = cnt_put (k + 1) (add64 (m_pages_free m (k + 1)) 1)
         (cnt_put k (sub64 (m_pages_free m k) 2) h)"
  define d where "d = merge_next k (2 * i) c"
  have eq: "merge_pair k (2 * i) m = parent_next (Suc k) i d"
    by (simp add: merge_pair_unfold d_def c_def h_def)
  have "2 * i + 1 < free_area_length (m_pages m) k" using pair free_blocks_bound by blast
  note bits = merge_bits_effect [OF invD(1) k this, folded h_def]
  have mem: "(k, 2 * i) \<in> blocks_of m" "(k, 2 * i + 1) \<in> blocks_of m" using pair kM by auto
  have "(Suc k, i) \<notin> blocks_of m"
    using apartD [OF invD(3) mem(1), of "(Suc k, i)"] block_pages_halves(1) [of k i]
      block_pages_nonempty [of "(k, 2 * i)"] by auto
  then have i: "i \<notin> ?G" using k by simp
  have okF: "ord_ok m k" and okG: "ord_ok m (Suc k)" using invD(2) k kM by blast+
  have "card {2 * i, 2 * i + 1} = 2" by simp
  then have cardF: "card (?F - {2 * i, 2 * i + 1}) = m_pages_free m k - 2" "2 \<le> m_pages_free m k"
    using card_Diff_subset [OF _ pair] card_mono [OF free_blocks_finite pair] okF
    by (simp_all add: ord_ok_def)
  then have cntF: "m_pages_free c k = card (?F - {2 * i, 2 * i + 1})"
    using ord_ok_count [OF okF] invD(4) by (simp add: c_def wrap_simps)
  have cntG: "m_pages_free c (Suc k) = card (insert i ?G)"
    using ord_ok_count [OF okG] invD(4) okG i by (simp add: c_def wrap_simps ord_ok_def)
  have d: "ord_ok d k"
    unfolding d_def
  proof (rule merge_next_ok [where F = ?F])
    show "?F \<noteq> {}" "finite ?F" "{2 * i, 2 * i + 1} \<subseteq> ?F" using pair by auto
    then show "m_next_free_page c k = Min ?F" using okF by (simp add: ord_ok_def c_def h_def)
    show "free_blocks c k = ?F - {2 * i, 2 * i + 1}" using bits(1) [OF kM] by (simp add: c_def)
  qed (rule cntF)
  have top: "ord_ok (parent_next (Suc k) i d) (Suc k)"
  proof (rule parent_next_ok [where G = ?G])
    show "?G \<noteq> {} \<longrightarrow> m_next_free_page d (Suc k) = Min ?G"
      using okG by (simp add: d_def merge_next_other c_def h_def ord_ok_def)
    show "free_blocks d (Suc k) = insert i ?G" using bits(1) [OF k] by (simp add: d_def c_def)
    show "m_pages_free d (Suc k) = card (insert i ?G)"
      using cntG by (simp add: d_def merge_next_other)
  qed (use i in simp_all)
  have ords: "ord_ok (parent_next (Suc k) i d) j" if j: "j < MAX_ORDER" for j
  proof -
    consider "j = k" | "j = Suc k" | "j \<noteq> k" "j \<noteq> Suc k" by blast
    then show ?thesis
    proof cases
      case 1
      with d show ?thesis by (simp add: ord_ok_def)
    next
      case 2
      with top show ?thesis by simp
    next
      case 3
      then have "ord_ok (parent_next (Suc k) i d) j = ord_ok m j"
        using bits(1) [OF j] by (intro ord_ok_cong) (simp_all add: d_def merge_next_other c_def h_def)
      with invD(2) [OF j] show ?thesis by simp
    qed
  qed
  show pages: "m_pages (merge_pair k (2 * i) m) = m_pages m" by (simp add: eq d_def c_def h_def)
  show blk: "blocks_of (merge_pair k (2 * i) m) = merge_block k i (blocks_of m)"
    using bits(1) k by (auto simp: eq d_def c_def merge_block_def split: if_splits)
  show "buddy_inv (merge_pair k (2 * i) m)"
    unfolding buddy_inv_def blk pages
    using ords merge_block_ok(1) [OF invD(3) mem] invD(1,4,5) bits(2)
    by (simp add: eq d_def c_def h_def)
qed

section \<open>block_merge\<close>

lemma buddy_free:
  assumes "sentinel m k" and "i \<in> free_blocks m k"
    and "\<not> block_check m k b" and "b = (if even i then i + 1 else i - 1)"
  shows "{2 * (i div 2), 2 * (i div 2) + 1} \<subseteq> free_blocks m k"
proof -
  have i: "i < free_area_length (m_pages m) k" using assms(2) by (rule free_blocks_bound)
  have "b < free_area_length (m_pages m) k"
  proof (cases "even i")
    case True
    have "b \<noteq> free_area_length (m_pages m) k"
    proof
      assume eq: "b = free_area_length (m_pages m) k"
      with True assms(4) have "odd (free_area_length (m_pages m) k)" by (metis even_add odd_one)
      with assms(1) eq assms(3) show False by (simp add: sentinel_def)
    qed
    with True i assms(4) show ?thesis by simp
  next
    case False
    with i assms(4) show ?thesis by simp
  qed
  then have "b \<in> free_blocks m k" using assms(3) by (simp add: free_blocks_def)
  with assms(2,4) show ?thesis by (cases "even i") (auto elim!: evenE oddE)
qed

lemma block_merge_ok:
  assumes "buddy_inv m" and "order < MAX_ORDER"
    and "{2 * (offset div 2), 2 * (offset div 2) + 1} \<subseteq> free_blocks m order"
  shows "buddy_inv (block_merge m order offset) \<and>
    free_pages_of (block_merge m order offset) = free_pages_of m \<and>
    m_pages (block_merge m order offset) = m_pages m"
  using assms
proof (induction "MAX_ORDER - order" arbitrary: m order offset)
  case 0
  then show ?case by simp
next
  case (Suc d)
  define i where "i = offset div 2"
  define m1 where "m1 = merge_pair order (2 * i) m"
  note unf = block_merge.simps [of m order offset]
  show ?case
  proof (cases "order = MAX_ORDER - 1")
    case True
    with unf Suc.prems show ?thesis by simp
  next
    case False
    then have k: "Suc order < MAX_ORDER" using Suc.prems(2) by simp
    have pair: "{2 * i, 2 * i + 1} \<subseteq> free_blocks m order" using Suc.prems(3) by (simp add: i_def)
    note mp = merge_pair_ok [OF Suc.prems(1) k pair, folded m1_def]
    have mem: "(order, 2 * i) \<in> blocks_of m" "(order, 2 * i + 1) \<in> blocks_of m"
      using pair Suc.prems(2) by auto
    have cov: "free_pages_of m1 = free_pages_of m"
      unfolding free_pages_of_def mp(2)
      by (rule merge_block_ok(2) [OF buddy_invD(3) [OF Suc.prems(1)] mem])
    have "(Suc order, i) \<in> blocks_of m1" unfolding mp(2) by (simp add: merge_block_def)
    then have up: "i \<in> free_blocks m1 (Suc order)" using k by simp
    define b where "b = (if even i then i + 1 else i - 1)"
    have "block_merge m order offset =
        (if \<not> block_check m1 (Suc order) b then block_merge m1 (Suc order) i else m1)"
      using unf False Suc.prems(2)
      by (simp add: Let_def m1_def i_def b_def mult.commute even_iff_mod_2_eq_zero [symmetric])
    moreover have "buddy_inv (block_merge m1 (Suc order) i) \<and>
        free_pages_of (block_merge m1 (Suc order) i) = free_pages_of m1 \<and>
        m_pages (block_merge m1 (Suc order) i) = m_pages m1"
      if "\<not> block_check m1 (Suc order) b"
      using Suc.hyps(2) buddy_free [OF buddy_invD(5) [OF mp(1) k] up that b_def] mp(1) k
      by (intro Suc.hyps(1)) simp_all
    ultimately show ?thesis using mp(1,3) cov by simp
  qed
qed

section \<open>pages_free\<close>

text \<open>
  \<open>pages_free\<close> lowers \<open>next_free_page\<close> when the freed block lies below it, and leaves it
  alone otherwise. That is right when the order has another free block (whose least index the
  hint is), or when the freed block is block 0. After the last free block of an order has been
  taken the hint is 0, and then it is wrong for every other block.
\<close>

definition hint_ok :: "bpa_map \<Rightarrow> nat \<Rightarrow> nat \<Rightarrow> bool" where
  "hint_ok m order offset \<longleftrightarrow> free_blocks m order \<noteq> {} \<or> offset = 0"

definition give_bits :: "bpa_map \<Rightarrow> nat \<Rightarrow> nat \<Rightarrow> bpa_map" where
  "give_bits m order offset =
     (let m = block_clear m order offset;
          m = cnt_put order (add64 (m_pages_free m order) 1) m
      in if offset < m_next_free_page m order then nfp_put order offset m else m)"

lemma give_bits_fields [simp]:
  "m_pages (give_bits m order offset) = m_pages m"
  "m_free_area (give_bits m order offset) = m_free_area m"
  "free_blocks (give_bits m order offset) = free_blocks (block_clear m order offset)"
  "sentinel (give_bits m order offset) = sentinel (block_clear m order offset)"
  "block_check (give_bits m order offset) = block_check (block_clear m order offset)"
  "j \<noteq> order \<Longrightarrow> m_pages_free (give_bits m order offset) j = m_pages_free m j"
  "j \<noteq> order \<Longrightarrow> m_next_free_page (give_bits m order offset) j = m_next_free_page m j"
  by (simp_all add: give_bits_def Let_def)

lemma give_bits_blocks:
  assumes inv: "buddy_inv m" and k: "k < MAX_ORDER" and off: "i < free_area_length (m_pages m) k"
    and taken: "block_pages (k, i) \<inter> free_pages_of m = {}"
  shows "i \<notin> free_blocks m k"
    and "j < MAX_ORDER \<Longrightarrow> free_blocks (give_bits m k i) j =
      (if j = k then insert i (free_blocks m j) else free_blocks m j)"
    and "blocks_of (give_bits m k i) = insert (k, i) (blocks_of m)"
    and "free_pages_of (give_bits m k i) = block_pages (k, i) \<union> free_pages_of m"
    and "j < MAX_ORDER \<Longrightarrow> sentinel (give_bits m k i) j"
    and "m_pages_free (give_bits m k i) k = card (insert i (free_blocks m k))"
    and "m_next_free_page (give_bits m k i) k = min i (m_next_free_page m k)"
proof -
  note invD = buddy_invD [OF inv]
  show fresh: "i \<notin> free_blocks m k"
  proof
    assume "i \<in> free_blocks m k"
    then have "(k, i) \<in> blocks_of m" using k by simp
    then have "block_pages (k, i) \<subseteq> free_pages_of m"
      unfolding free_pages_of_def by (rule block_pages_covered)
    with taken block_pages_nonempty [of "(k, i)"] show False by blast
  qed
  show F: "free_blocks (give_bits m k i) j =
      (if j = k then insert i (free_blocks m j) else free_blocks m j)" if "j < MAX_ORDER" for j
    using free_blocks_clear [OF bit_valid_in_range [OF invD(1) k off] that off] by simp
  show "sentinel (give_bits m k i) j" if "j < MAX_ORDER" for j
    using sentinel_bits(2) [OF invD(1) k off that] invD(5) [OF that] by simp
  show blk: "blocks_of (give_bits m k i) = insert (k, i) (blocks_of m)"
    using F k by (auto split: if_splits)
  show "free_pages_of (give_bits m k i) = block_pages (k, i) \<union> free_pages_of m"
    unfolding free_pages_of_def blk by simp
  show "m_pages_free (give_bits m k i) k = card (insert i (free_blocks m k))"
    using ord_ok_count [OF invD(2) [OF k]] invD(4) invD(2) [OF k] fresh
    by (simp add: give_bits_def Let_def wrap_simps ord_ok_def)
  show "m_next_free_page (give_bits m k i) k = min i (m_next_free_page m k)"
    by (simp add: give_bits_def Let_def min_def)
qed

lemma give_bits_ok:
  assumes inv: "buddy_inv m" and k: "k < MAX_ORDER" and off: "i < free_area_length (m_pages m) k"
    and taken: "block_pages (k, i) \<inter> free_pages_of m = {}" and hint: "hint_ok m k i"
  shows "buddy_inv (give_bits m k i)"
proof -
  note invD = buddy_invD [OF inv]
  note blocks = give_bits_blocks [OF inv k off taken]
  let ?m' = "give_bits m k i" and ?F = "free_blocks m k"
  have okF: "ord_ok m k" using invD(2) k by blast
  have "m_next_free_page ?m' k = Min (insert i ?F)"
  proof (cases "?F = {}")
    case True
    with hint blocks(7) show ?thesis by (simp add: hint_ok_def)
  next
    case False
    with blocks(7) okF show ?thesis by (simp add: ord_ok_def)
  qed
  with blocks(2) [OF k] blocks(6) have here: "ord_ok ?m' k" by (simp add: ord_ok_def)
  have ords: "ord_ok ?m' j" if j: "j < MAX_ORDER" for j
  proof (cases "j = k")
    case True
    with here show ?thesis by simp
  next
    case False
    then have "ord_ok ?m' j = ord_ok m j" using blocks(2) [OF j] by (intro ord_ok_cong) simp_all
    with invD(2) [OF j] show ?thesis by simp
  qed
  then show ?thesis
    unfolding buddy_inv_def blocks(3)
    using blocks(5) invD(1,4) apart_insert [OF invD(3) taken [unfolded free_pages_of_def]]
    by (simp add: layout_ok_def)
qed

text \<open>What \<open>pages_free\<close> does after its checks, as one function.\<close>

definition free_and_merge :: "bpa_map \<Rightarrow> nat \<Rightarrow> nat \<Rightarrow> bpa_map" where
  "free_and_merge m order offset =
     (let m = give_bits m order offset in
      if \<not> block_check m order (if even offset then offset + 1 else offset - 1)
      then block_merge m order offset else m)"

lemma free_and_merge_ok:
  assumes "buddy_inv m" and "k < MAX_ORDER" and "i < free_area_length (m_pages m) k"
    and "block_pages (k, i) \<inter> free_pages_of m = {}" and "hint_ok m k i"
  shows "buddy_inv (free_and_merge m k i) \<and> m_pages (free_and_merge m k i) = m_pages m \<and>
    free_pages_of (free_and_merge m k i) = block_pages (k, i) \<union> free_pages_of m"
proof -
  note give = give_bits_ok [OF assms] give_bits_blocks(3,4) [OF assms(1-4)]
  define b where "b = (if even i then i + 1 else i - 1)"
  have "(k, i) \<in> blocks_of (give_bits m k i)" unfolding give(2) using assms(2) by simp
  then have mem: "i \<in> free_blocks (give_bits m k i) k" by (simp only: in_blocks_of)
  have "buddy_inv (block_merge (give_bits m k i) k i) \<and>
      free_pages_of (block_merge (give_bits m k i) k i) = free_pages_of (give_bits m k i) \<and>
      m_pages (block_merge (give_bits m k i) k i) = m_pages (give_bits m k i)"
    if "\<not> block_check (give_bits m k i) k b"
    using block_merge_ok [OF give(1) assms(2)
        buddy_free [OF buddy_invD(5) [OF give(1) assms(2)] mem that b_def]] .
  then show ?thesis
    using give(1,3) by (auto simp: free_and_merge_def Let_def b_def [symmetric])
qed

lemma free_give_eq:
  "free_give r order offset =
     r\<lparr>r_page_alloc_si := give_bits (r_page_alloc_si r) order offset,
       r_mem_full := (r_mem_full r \<or> r_pages_free r = 0),
       r_pages_free := add64 (r_pages_free r) (2 ^ order)\<rparr>"
  by (cases r; cases "r_pages_free r = 0")
    (simp_all add: free_give_def give_bits_def upd_si_def Let_def)

lemma free_merge_eq:
  assumes "r_page_alloc_si r = give_bits m order offset"
  shows "free_merge r order offset = r\<lparr>r_page_alloc_si := free_and_merge m order offset\<rparr>"
proof -
  have b: "(if offset mod 2 = 1 then offset - 1 else offset + 1)
      = (if even offset then offset + 1 else offset - 1)"
    by presburger
  define bud where "bud = (if even offset then offset + 1 else offset - 1)"
  show ?thesis
    unfolding free_merge_def b free_and_merge_def Let_def upd_si_def bud_def [symmetric] assms
    by (cases r; cases "block_check (give_bits m order offset) order bud") (use assms in simp_all)
qed

lemma pages_free_unfold:
  assumes "region_inv r" and "order < MAX_ORDER" and "r_start r \<le> phaddr"
    and "phaddr < r_start r + r_size r" and "r_start r + r_size r < 2 ^ 64"
    and "offset = (phaddr - r_start r) div page_size"
    and "block_check (r_page_alloc_si r) order offset"
  shows "pages_free r phaddr order = Inr
    (r\<lparr>r_page_alloc_si := free_and_merge (r_page_alloc_si r) order offset,
       r_mem_full := (r_mem_full r \<or> r_pages_free r = 0),
       r_pages_free := add64 (r_pages_free r) (2 ^ order)\<rparr>)"
proof -
  have lock: "spinlock_lock (r_lock r) = Inr 1" "r_lock r = 0" "r_si_mapped r"
    using assms(1) by (auto simp: region_inv_def spinlock_lock_cases)
  have range: "\<not> (phaddr < r_start r \<or> phaddr \<ge> add64 (r_start r) (r_size r))"
    using assms(3-5) by (simp add: wrap_simps)
  have body: "free_merge (free_give r' order offset) order offset =
      r'\<lparr>r_page_alloc_si := free_and_merge (r_page_alloc_si r') order offset,
         r_mem_full := (r_mem_full r' \<or> r_pages_free r' = 0),
         r_pages_free := add64 (r_pages_free r') (2 ^ order)\<rparr>" for r' offset
    by (subst free_merge_eq [where m = "r_page_alloc_si r'"]) (simp_all add: free_give_eq)
  show ?thesis
    unfolding pages_free_def lock(1) sum.case Let_def
    using range assms(2,7) lock(2,3)
    by (cases r) (simp add: assms(6) body spinlock_unlock_def atomic_store_def)
qed

text \<open>
  The contract of \<open>pages_free\<close>: a block whose pages are all taken is given back, and the region
  keeps its invariant, provided \<open>hint_ok\<close>.
\<close>

lemma pages_free_ok:
  assumes inv: "region_inv r" and k: "order < MAX_ORDER" and lo: "r_start r \<le> phaddr"
    and hi: "phaddr < r_start r + r_size r" "r_start r + r_size r < 2 ^ 64"
    and off: "offset = (phaddr - r_start r) div page_size"
    and len: "offset < free_area_length (m_pages (r_page_alloc_si r)) order"
    and taken: "block_pages (order, offset) \<inter> free_pages_of (r_page_alloc_si r) = {}"
    and hint: "hint_ok (r_page_alloc_si r) order offset"
  shows "\<exists>r'. pages_free r phaddr order = Inr r' \<and> region_inv r' \<and>
    free_pages_of (r_page_alloc_si r') =
      block_pages (order, offset) \<union> free_pages_of (r_page_alloc_si r) \<and>
    r_pages_free r' = r_pages_free r + 2 ^ order"
proof -
  let ?m = "r_page_alloc_si r"
  have bi: "buddy_inv ?m" and free: "r_pages_free r = card (free_pages_of ?m)"
    and addr: "r_start r + page_size * m_pages ?m < 2 ^ 64"
    using inv by (auto simp: region_inv_def)
  note res = free_and_merge_ok [OF bi k len taken hint]
  have "block_check ?m order offset"
    using give_bits_blocks(1) [OF bi k len taken] len by (simp add: free_blocks_def)
  note run = pages_free_unfold [OF inv k lo hi off this]
  have card: "card (block_pages (order, offset) \<union> free_pages_of ?m) = 2 ^ order + r_pages_free r"
    unfolding free using taken
    by (subst card_Un_disjoint) (simp_all add: card_block_pages del: block_pages.simps)
  have "card (free_pages_of (free_and_merge ?m order offset)) \<le> m_pages ?m"
    using free_pages_bound [of _ "free_and_merge ?m order offset"] res
    by (metis card_lessThan card_mono finite_lessThan lessThan_iff subsetI)
  then have "r_pages_free r + 2 ^ order < 2 ^ 64"
    using res card addr by simp
  then show ?thesis
    using run res card inv bi by (simp add: region_inv_def wrap_simps)
qed

end
