(* ===== verification/Region_Contract.thy ===== *)
theory Region_Contract
  imports Buddy_Init Buddy_Free
begin

text \<open>
  What one region promises its callers, as properties of \<open>region_map\<close>, \<open>pages_alloc\<close>,
  \<open>pages_free\<close> and \<open>pages_reserve\<close>: the contracts that hold, with the witnesses on a region of
  16 MiB at 1 MiB laid out by \<open>region_map\<close>, and the runs on which the code leaves its contract.
\<close>

section \<open>A concrete region\<close>

definition blank_region :: "nat \<Rightarrow> nat \<Rightarrow> mregion" where
  "blank_region start pages =
     \<lparr>r_start = start, r_size = pages * page_size, r_attrib = 0x43, r_pages_total = 0,
      r_pages_free = 0, r_mem_full = False, r_si_mapped = False,
      r_page_alloc_si = region_map_table 0 (\<lambda>_. 0), r_chain_length = 0, r_lock = 0\<rparr>"

definition mapped_region :: "nat \<Rightarrow> nat \<Rightarrow> (nat \<Rightarrow> u8) \<Rightarrow> mregion" where
  "mapped_region start pages mem =
     (case region_map (blank_region start pages) pages mem of Inl _ \<Rightarrow> blank_region start pages
      | Inr r \<Rightarrow> r)"

definition demo_region :: mregion where
  "demo_region = mapped_region 0x100000 4096 (\<lambda>_. 0)"

lemma mapped_region_ok:
  assumes "table_fits pages" and "start + page_size * pages < 2 ^ 64"
  shows "region_inv (mapped_region start pages mem)"
    and "free_pages_of (r_page_alloc_si (mapped_region start pages mem)) = {..<pages}"
    and "r_start (mapped_region start pages mem) = start"
    and "r_size (mapped_region start pages mem) = pages * page_size"
    and "m_pages (r_page_alloc_si (mapped_region start pages mem)) = pages"
    and "\<not> r_mem_full (mapped_region start pages mem)"
    and "r_attrib (mapped_region start pages mem) = 0x43"
proof -
  obtain r' where "region_map (blank_region start pages) pages mem = Inr r'" and "region_inv r'"
    "free_pages_of (r_page_alloc_si r') = {..<pages}" "r_start r' = start"
    "r_size r' = pages * page_size" "\<not> r_mem_full r'"
    "m_pages (r_page_alloc_si r') = pages" "r_attrib r' = 0x43"
    using region_map_ok [OF _ assms(1), of "blank_region start pages" mem] assms(2)
    by (auto simp: blank_region_def)
  then show "region_inv (mapped_region start pages mem)"
    and "free_pages_of (r_page_alloc_si (mapped_region start pages mem)) = {..<pages}"
    and "r_start (mapped_region start pages mem) = start"
    and "r_size (mapped_region start pages mem) = pages * page_size"
    and "m_pages (r_page_alloc_si (mapped_region start pages mem)) = pages"
    and "\<not> r_mem_full (mapped_region start pages mem)"
    and "r_attrib (mapped_region start pages mem) = 0x43"
    by (simp_all add: mapped_region_def)
qed

lemma demo_fits: "table_fits 4096"
  by (rule table_fits_dvd) simp

lemma demo_region_ok:
  "region_inv demo_region" "free_pages_of (r_page_alloc_si demo_region) = {..<4096}"
  "r_start demo_region = 0x100000" "r_size demo_region = 4096 * page_size"
  "m_pages (r_page_alloc_si demo_region) = 4096" "\<not> r_mem_full demo_region"
  "r_attrib demo_region = 0x43"
  unfolding demo_region_def by (rule mapped_region_ok [OF demo_fits], simp)+

lemma demo_region_block: "\<exists>j i. 0 \<le> j \<and> (j, i) \<in> blocks_of (r_page_alloc_si demo_region)"
proof -
  have "0 \<in> free_pages_of (r_page_alloc_si demo_region)" by (simp add: demo_region_ok)
  then show ?thesis by (auto simp: free_pages_of_def covered_def simp del: in_blocks_of)
qed

text \<open>A region of one page: taken and given back.\<close>

lemma one_page_fits: "table_fits 1"
  by (simp add: table_fits_def upt_rec)

lemma one_page_free:
  obtains r where "pages_alloc (mapped_region 0x100000 1 mem) 0 = Inr (r, 0x100000)"
    and "region_inv r" and "free_pages_of (r_page_alloc_si r) = {}" and "r_start r = 0x100000"
    and "r_size r = page_size" and "m_pages (r_page_alloc_si r) = 1" and "r_mem_full r"
    and "r_attrib r = 0x43"
proof -
  let ?r = "mapped_region 0x100000 1 mem"
  have "0x100000 + page_size * 1 < 2 ^ 64" by simp
  note ok = mapped_region_ok [OF one_page_fits this, of mem]
  have "avail (r_page_alloc_si ?r) 0"
    using avail_0 ok(1,2) by (simp add: region_inv_def lessThan_Suc)
  then obtain r i where r: "pages_alloc ?r 0 = Inr (r, r_start ?r + BLOCK_ORDER_SIZE 0 * i)"
      "alloc_result ?r 0 r i"
    using pages_alloc_success [OF ok(1), of 0] by auto
  then have "i = 0" using ok(2) by (auto simp: alloc_result_def)
  with r ok show ?thesis
    by (intro that [of r]) (auto simp: alloc_result_def BLOCK_ORDER_SIZE_def)
qed

text \<open>One page after the other, a region can be emptied.\<close>

lemma exhaust_region:
  assumes "region_inv r"
  obtains r' as where "alloc_run pages_alloc r (replicate (r_pages_free r) 0) = Inr (r', as)"
    and "region_inv r'" and "free_pages_of (r_page_alloc_si r') = {}"
    and "r_start r' = r_start r" and "r_size r' = r_size r"
    and "m_pages (r_page_alloc_si r') = m_pages (r_page_alloc_si r)"
proof -
  have "\<exists>r' as. alloc_run pages_alloc r (replicate (r_pages_free r) 0) = Inr (r', as) \<and>
      region_inv r' \<and> free_pages_of (r_page_alloc_si r') = {} \<and> r_start r' = r_start r \<and>
      r_size r' = r_size r \<and> m_pages (r_page_alloc_si r') = m_pages (r_page_alloc_si r)"
    using assms
  proof (induction "r_pages_free r" arbitrary: r)
    case 0
    then have "free_pages_of (r_page_alloc_si r) = {}" by (simp add: region_inv_def)
    with 0 show ?case by simp
  next
    case (Suc n)
    then have card: "card (free_pages_of (r_page_alloc_si r)) = Suc n" by (simp add: region_inv_def)
    then have "free_pages_of (r_page_alloc_si r) \<noteq> {}" by auto
    then have "avail (r_page_alloc_si r) 0"
      using avail_0 Suc.prems by (simp add: region_inv_def)
    then obtain r1 i where r1: "pages_alloc r 0 = Inr (r1, r_start r + BLOCK_ORDER_SIZE 0 * i)"
      "alloc_result r 0 r1 i"
      using pages_alloc_success [OF Suc.prems, of 0] by auto
    then have "n = r_pages_free r1" "region_inv r1"
      using card by (auto simp: alloc_result_def region_inv_def)
    from Suc.hyps(1) [OF this] obtain r' as where
      "alloc_run pages_alloc r1 (replicate (r_pages_free r1) 0) = Inr (r', as)" "region_inv r'"
      "free_pages_of (r_page_alloc_si r') = {}" "r_start r' = r_start r1" "r_size r' = r_size r1"
      "m_pages (r_page_alloc_si r') = m_pages (r_page_alloc_si r1)"
      by blast
    with r1 Suc.hyps(2) \<open>n = r_pages_free r1\<close> show ?case
      by (auto simp: alloc_result_def Suc.hyps(2) [symmetric])
  qed
  with that show ?thesis by blast
qed

section \<open>The contracts that hold\<close>

text \<open>
  C1. \<open>pages_alloc\<close>, on every branch: in a well-formed region a request of a valid order
  either hands out a whole free block of that order, aligned to its size within the region, and
  removes exactly its pages from the free ones, or, when no free block is large enough, returns 0
  and changes nothing but \<open>mem_full\<close>. It is served whenever some free block is large enough,
  whatever splitting that takes, and the region stays well-formed.
\<close>

theorem pages_alloc_contract:
  assumes "region_inv r" and "order < MAX_ORDER"
  shows "if \<exists>j i. order \<le> j \<and> (j, i) \<in> blocks_of (r_page_alloc_si r)
    then \<exists>r' i. pages_alloc r order = Inr (r', r_start r + page_size * (i * 2 ^ order)) \<and>
      region_inv r' \<and> r_start r' = r_start r \<and>
      {i * 2 ^ order ..< (i + 1) * 2 ^ order} \<subseteq> free_pages_of (r_page_alloc_si r) \<and>
      free_pages_of (r_page_alloc_si r') =
        free_pages_of (r_page_alloc_si r) - {i * 2 ^ order ..< (i + 1) * 2 ^ order} \<and>
      (r_mem_full r' \<longleftrightarrow> r_mem_full r \<or> free_pages_of (r_page_alloc_si r') = {})
    else pages_alloc r order = Inr (r\<lparr>r_mem_full := True\<rparr>, 0)"
proof (cases "avail (r_page_alloc_si r) order")
  case True
  have "buddy_inv (r_page_alloc_si r)" using assms(1) by (simp add: region_inv_def)
  moreover obtain r' i where "pages_alloc r order = Inr (r', r_start r + BLOCK_ORDER_SIZE order * i)"
    and "alloc_result r order r' i"
    using pages_alloc_success [OF assms True] by blast
  moreover have "BLOCK_ORDER_SIZE order * i = page_size * (i * 2 ^ order)"
    by (simp add: BLOCK_ORDER_SIZE_def)
  ultimately show ?thesis
    using True avail_blocks unfolding alloc_result_def block_pages.simps by auto
next
  case False
  have "buddy_inv (r_page_alloc_si r)" using assms(1) by (simp add: region_inv_def)
  from avail_blocks [OF this] False
  have "\<not> (\<exists>j i. order \<le> j \<and> (j, i) \<in> blocks_of (r_page_alloc_si r))" by blast
  then show ?thesis using pages_alloc_failure [OF assms False] by (simp only: if_False)
qed

theorem pages_alloc_contract_witness:
  "region_inv demo_region \<and>
   (\<exists>r' i. pages_alloc demo_region 0 = Inr (r', 0x100000 + page_size * i) \<and> i < 4096 \<and>
      region_inv r' \<and> free_pages_of (r_page_alloc_si r') = {..<4096} - {i})"
proof -
  have "\<exists>r' i. pages_alloc demo_region 0 = Inr (r', r_start demo_region + page_size * (i * 2 ^ 0)) \<and>
      region_inv r' \<and> r_start r' = r_start demo_region \<and>
      {i * 2 ^ 0 ..< (i + 1) * 2 ^ 0} \<subseteq> free_pages_of (r_page_alloc_si demo_region) \<and>
      free_pages_of (r_page_alloc_si r') =
        free_pages_of (r_page_alloc_si demo_region) - {i * 2 ^ 0 ..< (i + 1) * 2 ^ 0} \<and>
      (r_mem_full r' \<longleftrightarrow> r_mem_full demo_region \<or> free_pages_of (r_page_alloc_si r') = {})"
    using pages_alloc_contract [of demo_region 0] demo_region_ok(1)
    by (simp only: demo_region_block if_True) simp
  then show ?thesis
    using demo_region_ok by fastforce
qed

text \<open>
  Whatever sequence of requests is made of a well-formed region, every request returns (the
  lock is always released), the areas handed out are pairwise disjoint, and all of them lay in
  frames that were free before and are not free afterwards.
\<close>

theorem allocations_never_overlap:
  assumes "region_inv r"
  shows "\<exists>r' as. alloc_run pages_alloc r orders = Inr (r', as) \<and> region_inv r' \<and>
    areas_apart as \<and> given as \<subseteq> region_frames r - region_frames r'"
proof -
  obtain r' as where run: "alloc_run pages_alloc r orders = Inr (r', as)"
    using region.alloc_run_returns [OF assms] by blast
  with region.alloc_run_ok [OF assms run] show ?thesis by blast
qed

theorem allocations_never_overlap_witness:
  "\<exists>r' as. alloc_run pages_alloc demo_region [0, 3, 9, 0, 10] = Inr (r', as) \<and> areas_apart as"
  using allocations_never_overlap [OF demo_region_ok(1), of "[0, 3, 9, 0, 10]"] by blast





section \<open>Where the code leaves the contract\<close>

lemma no_merge:
  assumes "sentinel m k" and "free_blocks m k = {i}"
  shows "block_check m k (if even i then i + 1 else i - 1)"
proof (rule ccontr)
  assume "\<not> ?thesis"
  with buddy_free [OF assms(1) _ this refl] assms(2)
  have "{2 * (i div 2), 2 * (i div 2) + 1} \<subseteq> {i}" by simp
  then show False by auto
qed

text \<open>
  C35. Without \<open>hint_ok\<close> the allocator hands out memory that is in use: when no block of the order
  is free, freeing any block of it but block 0 leaves \<open>next_free_page\<close> at 0, so the next request of
  that order returns the start of the region, whoever owns it.
\<close>

theorem freed_block_hint_double_allocates:
  assumes "region_inv r" and "order < MAX_ORDER" and "r_start r \<le> phaddr"
    and "phaddr < r_start r + r_size r" and "r_start r + r_size r < 2 ^ 64"
    and "offset = (phaddr - r_start r) div page_size"
    and "offset < m_pages (r_page_alloc_si r) div 2 ^ order" and "0 < offset"
    and "block_pages (order, offset) \<inter> free_pages_of (r_page_alloc_si r) = {}"
    and "free_blocks (r_page_alloc_si r) order = {}"
    and "0 \<notin> free_pages_of (r_page_alloc_si r)"
  shows "\<exists>r1 r2. pages_free r phaddr order = Inr r1 \<and> 0 \<notin> free_pages_of (r_page_alloc_si r1) \<and>
    pages_alloc r1 order = Inr (r2, r_start r)"
proof -
  let ?m = "r_page_alloc_si r" and ?m1 = "give_bits (r_page_alloc_si r) order offset"
  have bi: "buddy_inv ?m" and lock: "r_lock r = 0" "r_si_mapped r"
    using assms(1) by (auto simp: region_inv_def)
  have len: "offset < free_area_length (m_pages ?m) order"
    using assms(7) by (simp add: free_area_length_div)
  note give = give_bits_blocks [OF bi assms(2) len assms(9)]
  have "block_check ?m order offset"
    using give(1) len by (simp add: free_blocks_def)
  note run = pages_free_unfold [OF assms(1-6) this]
  have "block_check ?m1 order (if even offset then offset + 1 else offset - 1)"
    using no_merge [OF give(5) [OF assms(2)]] give(2) [OF assms(2)] assms(10) by simp
  then have m1: "free_and_merge ?m order offset = ?m1"
    unfolding free_and_merge_def Let_def by (simp only: not_True_eq_False if_False simp_thms)
  have "m_next_free_page ?m1 order = 0"
    using buddy_invD(2) [OF bi assms(2)] assms(10) give(7) by (simp add: ord_ok_def)
  moreover have "m_pages_free ?m1 order = 1"
    using give(6) assms(10) by simp
  moreover have "0 \<notin> free_pages_of ?m1"
    unfolding give(4) using assms(8,11) by simp
  moreover have "r_start r < 2 ^ 64"
    using assms(1) by (simp add: region_inv_def)
  ultimately show ?thesis
    unfolding run m1 using lock assms(2)
    by (simp add: pages_alloc_def alloc_take_def Let_def spinlock_lock_cases upd_si_def out_of_mem_def
        wrap_simps)
qed

theorem freed_block_hint_witness:
  "\<exists>r r1 r2. region_inv r \<and> 0 \<notin> free_pages_of (r_page_alloc_si r) \<and>
     pages_free r (0x100000 + page_size) 0 = Inr r1 \<and>
     0 \<notin> free_pages_of (r_page_alloc_si r1) \<and> pages_alloc r1 0 = Inr (r2, 0x100000)"
proof -
  obtain r as where r: "region_inv r" "free_pages_of (r_page_alloc_si r) = {}"
    "r_start r = 0x100000" "r_size r = 4096 * page_size" "m_pages (r_page_alloc_si r) = 4096"
    using exhaust_region [OF demo_region_ok(1)] demo_region_ok(3-5) by metis
  then have "(0, i) \<notin> blocks_of (r_page_alloc_si r)" for i
    using block_pages_covered [of "(0, i)"] by (auto simp: free_pages_of_def simp del: in_blocks_of)
  then have "free_blocks (r_page_alloc_si r) 0 = {}" by auto
  with freed_block_hint_double_allocates
    [where r = r and order = 0 and phaddr = "0x100000 + page_size" and offset = 1] r
  have "\<exists>r1 r2. pages_free r (0x100000 + page_size) 0 = Inr r1 \<and>
      0 \<notin> free_pages_of (r_page_alloc_si r1) \<and> pages_alloc r1 0 = Inr (r2, 0x100000)"
    by simp
  moreover have "0 \<notin> free_pages_of (r_page_alloc_si r)" using r(2) by simp
  ultimately show ?thesis using r(1) by blast
qed

text \<open>
  Both early returns of \<open>pages_free\<close> keep the lock: freeing an address outside the region, or a
  page that is already free, leaves a region on which every further operation spins for ever.
\<close>

theorem pages_free_keeps_lock:
  assumes "region_inv r" and "order < MAX_ORDER"
    and "phaddr < r_start r \<or> add64 (r_start r) (r_size r) \<le> phaddr \<or>
      \<not> block_check (r_page_alloc_si r) order ((phaddr - r_start r) div page_size)"
  shows "\<exists>r1. pages_free r phaddr order = Inr r1 \<and> r_lock r1 = 1 \<and>
    pages_alloc r1 0 = Inl Deadlock \<and> pages_free r1 p k = Inl Deadlock \<and>
    pages_reserve r1 k i = Inl Deadlock \<and> region_map r1 n mem = Inl Deadlock"
  using assms
  by (auto simp: region_inv_def pages_free_def pages_alloc_def pages_reserve_def region_map_def
      spinlock_lock_cases Let_def)

theorem pages_free_keeps_lock_witness:
  "\<exists>r1. pages_free demo_region 0 0 = Inr r1 \<and> pages_alloc r1 0 = Inl Deadlock"
proof -
  have "0 < MAX_ORDER" "(0::nat) < r_start demo_region" by (simp_all add: demo_region_ok)
  with pages_free_keeps_lock [OF demo_region_ok(1), of 0 0] show ?thesis by blast
qed

text \<open>Any sequence of the operations on a region, with any arguments.\<close>

lemma block_split_full: "r_mem_full r \<Longrightarrow> r_mem_full (block_split r order)"
  by (induction r order rule: block_split.induct) (subst block_split.simps, simp add: Let_def)

inductive region_op :: "mregion \<Rightarrow> mregion \<Rightarrow> bool" where
  alloc: "pages_alloc r order = Inr (r', a) \<Longrightarrow> region_op r r'"
| free: "pages_free r phaddr order = Inr r' \<Longrightarrow> region_op r r'"
| reserve: "pages_reserve r order offset = Inr (r', a) \<Longrightarrow> region_op r r'"

lemma alloc_take_full: "alloc_take r order = (r', a) \<Longrightarrow> r_mem_full r \<Longrightarrow> r_mem_full r'"
  by (auto simp: alloc_take_def Let_def)

lemma reserve_account_full: "r_mem_full r \<Longrightarrow> r_mem_full (reserve_account r order)"
  by (simp add: reserve_account_def Let_def)

lemma free_merge_full: "r_mem_full (free_merge r order offset) = r_mem_full r"
  by (simp add: free_merge_def Let_def)

lemma free_give_full: "r_mem_full r \<Longrightarrow> r_mem_full (free_give r order offset)"
  by (simp add: free_give_eq)

lemma region_op_full:
  assumes "region_op r r'" and "r_mem_full r"
  shows "r_mem_full r'"
  using assms
proof (cases rule: region_op.cases)
  case (alloc order a)
  with assms(2) show ?thesis
    by (auto simp: pages_alloc_def alloc_fail_def Let_def block_split_full
        elim!: alloc_take_full split: if_splits sum.splits)
next
  case (free phaddr order)
  with assms(2) show ?thesis
    by (auto simp: pages_free_def Let_def free_merge_full free_give_full split: if_splits sum.splits)
next
  case (reserve order offset a)
  with assms(2) show ?thesis
    by (auto simp: pages_reserve_def Let_def intro!: reserve_account_full split: if_splits sum.splits)
qed

text \<open>
  \<open>mem_full\<close> is never taken back: no operation of the allocator but \<open>region_map\<close> clears it, so
  a region that was full once is passed over for ever, even when all its pages have been freed.
\<close>

theorem mem_full_for_ever:
  assumes "region_op\<^sup>*\<^sup>* r r'" and "r_mem_full r"
  shows "r_mem_full r'"
  using assms by (induction) (auto intro: region_op_full)

theorem mem_full_for_ever_witness:
  "\<exists>r1 r2. pages_alloc (mapped_region 0x100000 1 (\<lambda>_. 0)) 0 = Inr (r1, 0x100000) \<and>
     pages_free r1 0x100000 0 = Inr r2 \<and>
     free_pages_of (r_page_alloc_si r2) = {0} \<and> r_mem_full r2"
proof -
  obtain r where r: "pages_alloc (mapped_region 0x100000 1 (\<lambda>_. 0)) 0 = Inr (r, 0x100000)"
    "region_inv r" "free_pages_of (r_page_alloc_si r) = {}" "r_start r = 0x100000"
    "r_size r = page_size" "m_pages (r_page_alloc_si r) = 1" "r_mem_full r"
    by (rule one_page_free)
  have "hint_ok (r_page_alloc_si r) 0 0" by (simp add: hint_ok_def)
  with pages_free_ok [where r = r and order = 0 and phaddr = "0x100000" and offset = 0] r
  obtain r' where r': "pages_free r 0x100000 0 = Inr r'" "free_pages_of (r_page_alloc_si r') = {0}"
    by auto
  then have "region_op\<^sup>*\<^sup>* r r'" by (auto intro: region_op.free)
  from mem_full_for_ever [OF this r(7)] r(1) r' show ?thesis by blast
qed

text \<open>
  A request that cannot be served because of its size marks the whole region full, although
  smaller requests would still be served: with a page free and no free block of the order asked
  for, \<open>mem_full\<close> is set, while \<open>page_alloc\<close> on the very same region still hands out a page.
\<close>

theorem large_request_marks_full:
  assumes "region_inv r" and "order < MAX_ORDER" and "free_pages_of (r_page_alloc_si r) \<noteq> {}"
    and "\<forall>j i. order \<le> j \<longrightarrow> (j, i) \<notin> blocks_of (r_page_alloc_si r)"
  shows "\<exists>r1. pages_alloc r order = Inr (r1, 0) \<and> r_mem_full r1 \<and>
    (\<exists>r2 i. page_alloc r1 = Inr (r2, r_start r + page_size * i) \<and>
      i \<in> free_pages_of (r_page_alloc_si r))"
proof -
  have bi: "buddy_inv (r_page_alloc_si r)" using assms(1) by (simp add: region_inv_def)
  have no: "\<not> avail (r_page_alloc_si r) order"
    unfolding avail_blocks [OF bi] using assms(4) by blast
  define r1 where "r1 = r\<lparr>r_mem_full := True\<rparr>"
  have "region_inv r1" and si: "r_page_alloc_si r1 = r_page_alloc_si r" "r_start r1 = r_start r"
    using assms(1) by (simp_all add: r1_def)
  moreover have "avail (r_page_alloc_si r1) 0" using avail_0 [OF bi] assms(3) si by simp
  ultimately obtain r2 i where "pages_alloc r1 0 = Inr (r2, r_start r1 + BLOCK_ORDER_SIZE 0 * i)"
    "alloc_result r1 0 r2 i"
    using pages_alloc_success [of r1 0] by auto
  moreover have "pages_alloc r order = Inr (r1, 0)"
    using pages_alloc_failure [OF assms(1,2) no] by (simp add: r1_def)
  ultimately show ?thesis
    using si by (intro exI [of _ r1])
      (auto simp: page_alloc_def alloc_result_def BLOCK_ORDER_SIZE_def r1_def)
qed

theorem large_request_marks_full_witness:
  "\<exists>r1. pages_alloc (mapped_region 0x100000 1 (\<lambda>_. 0)) 9 = Inr (r1, 0) \<and> r_mem_full r1 \<and>
    (\<exists>r2. page_alloc r1 = Inr (r2, 0x100000))"
proof -
  let ?r = "mapped_region 0x100000 1 (\<lambda>_. 0)"
  have "0x100000 + page_size * 1 < 2 ^ 64" by simp
  note ok = mapped_region_ok [OF one_page_fits this, of "\<lambda>_. 0"]
  have "(j, i) \<notin> blocks_of (r_page_alloc_si ?r)" if "9 \<le> j" for j i
  proof
    assume "(j, i) \<in> blocks_of (r_page_alloc_si ?r)"
    then have sub: "block_pages (j, i) \<subseteq> {..<1}"
      using block_pages_covered ok(2) unfolding free_pages_of_def by metis
    have "2 ^ j \<le> (1 :: nat)"
      using card_mono [OF _ sub] card_block_pages [of j i] by simp
    with \<open>9 \<le> j\<close> show False using power_increasing [of 9 j "2 :: nat"] by simp
  qed
  then obtain r1 r2 i where "pages_alloc ?r 9 = Inr (r1, 0)" "r_mem_full r1"
    "page_alloc r1 = Inr (r2, r_start ?r + page_size * i)" "i \<in> free_pages_of (r_page_alloc_si ?r)"
    using large_request_marks_full [OF ok(1), of 9] ok(2) by auto
  with ok(2,3) show ?thesis by auto
qed

end
