(* ===== verification/Buddy_Reserve.thy ===== *)
theory Buddy_Reserve
  imports Region_Contract
begin

text \<open>
  \<open>pages_reserve\<close> of kernel/page.c: the case that works, a block that is free as a whole, and
  a case of a page inside a larger free block in which the hint of the order below goes wrong.
\<close>

section \<open>Reserving a free block\<close>

lemma reserve_bit_ok:
  assumes inv: "buddy_inv m" and n: "(k, n) \<in> blocks_of m"
  shows "buddy_inv (reserve_bit k n m)"
    and "blocks_of (reserve_bit k n m) = blocks_of m - {(k, n)}"
    and "m_pages (reserve_bit k n m) = m_pages m"
proof -
  note invD = buddy_invD [OF inv]
  have k: "k < MAX_ORDER" and nF: "n \<in> free_blocks m k" using n by simp_all
  define h where "h = cnt_put k (sub64 (m_pages_free m k) 1) (block_set m k n)"
  define F where "F = free_blocks m k"
  have hF: "free_blocks h j = (if j = k then F - {n} else free_blocks m j)"
    if "j < MAX_ORDER" for j
    using free_blocks_set [OF bit_valid_free [OF invD(1) k nF] that] by (simp add: h_def F_def)
  have okF: "m_pages_free m k = card F" "m_next_free_page m k = Min F" and fin: "finite F" and "n \<in> F"
    using invD(2) [OF k] nF by (auto simp: ord_ok_def F_def)
  have "card F \<le> m_pages m" using ord_ok_count [OF invD(2) [OF k]] okF(1) by simp
  moreover have "0 < card F" using \<open>n \<in> F\<close> fin by (auto simp: card_gt_0_iff)
  ultimately have "sub64 (card F) 1 = card F - 1"
    using invD(4) by (intro sub64_exact) simp_all
  then have cnt: "m_pages_free h k = card (free_blocks h k)"
    using hF [OF k] \<open>n \<in> F\<close> fin okF(1) by (simp add: h_def)
  define r where "r = reserve_bit k n m"
  have r: "r = (if m_next_free_page h k = n
      then case find_next_free_page h k (n + 1) of (m, i) \<Rightarrow> nfp_put k i m else h)"
    unfolding r_def reserve_bit_def h_def Let_def by simp
  have min: "n = Min F" if "m_next_free_page h k = n" using that okF(2) by (simp add: h_def)
  have above: "n + 1 \<le> j" if "j \<in> F - {n}" "n = Min F" for j
    using that Min_le [OF fin] by (metis DiffD1 DiffD2 Suc_eq_plus1 Suc_leI insertCI le_neq_implies_less)
  have fields: "m_table r = m_table h" "m_pages r = m_pages h" "m_free_area r = m_free_area h"
    unfolding r by (simp_all add: split_beta find_next_free_page_fields)
  then have rF: "free_blocks r j = free_blocks h j" and rs: "sentinel r j = sentinel h j" for j
    using free_blocks_cong [of r h] sentinel_cong [of r h] by simp_all
  have here: "ord_ok r k"
  proof (cases "m_next_free_page h k = n")
    case False
    then have "r = h" by (simp add: r)
    moreover have "m_next_free_page h k \<in> F - {n}" using False okF(2) Min_in [OF fin] \<open>n \<in> F\<close>
      by (auto simp: h_def)
    moreover from this have "Min (F - {n}) = m_next_free_page h k"
      using okF(2) fin by (intro Min_eqI) (auto simp: h_def)
    ultimately show ?thesis using cnt hF [OF k] unfolding ord_ok_def by auto
  next
    case True
    show ?thesis
    proof (cases "free_blocks h k = {}")
      case empty: True
      then have "find_next_free_page h k (n + 1) = (cnt_put k 0 h, 0)"
        by (intro find_next_free_page_none) simp
      then have "r = nfp_put k 0 (cnt_put k 0 h)" using True by (simp add: r)
      then show ?thesis using empty by (simp add: ord_ok_def)
    next
      case False
      have "find_next_free_page h k (n + 1) = (h, Min (free_blocks h k))"
        using above min [OF True] hF [OF k] by (intro find_next_free_page_Min [OF False]) simp
      then have "r = nfp_put k (Min (free_blocks h k)) h" using True by (simp add: r)
      then show ?thesis using cnt False by (auto simp: ord_ok_def)
    qed
  qed
  have ords: "ord_ok r j" if j: "j < MAX_ORDER" for j
  proof (cases "j = k")
    case True
    with here show ?thesis by simp
  next
    case False
    then have "ord_ok r j = ord_ok m j"
      using rF [of j] hF [OF j]
      by (intro ord_ok_cong) (auto simp: r h_def find_next_other split_beta)
    with invD(2) [OF j] show ?thesis by simp
  qed
  show blk: "blocks_of (reserve_bit k n m) = blocks_of m - {(k, n)}"
    using rF hF k unfolding r_def [symmetric] F_def by (auto split: if_splits)
  show "m_pages (reserve_bit k n m) = m_pages m"
    using fields unfolding r_def [symmetric] by (simp add: h_def)
  have "sentinel r j" if "j < MAX_ORDER" for j
    using sentinel_bits(1) [OF invD(1) k free_blocks_bound [OF nF] that] invD(5) [OF that] rs
    by (simp add: h_def)
  moreover have "layout_ok r" using invD(1) fields by (simp add: layout_ok_def h_def)
  ultimately show "buddy_inv (reserve_bit k n m)"
    using ords invD(4) apart_mono [OF invD(3)] blk fields
    unfolding buddy_inv_def r_def [symmetric] by (simp add: h_def)
qed

text \<open>
  C7. \<open>pages_reserve\<close> on a block that is free as a whole takes exactly that block: the region stays
  well-formed, counters and hints included, the lock is released and the address returned is the
  block's.
\<close>

theorem pages_reserve_contract:
  assumes "region_inv r" and "(order, offset) \<in> blocks_of (r_page_alloc_si r)"
  shows "\<exists>r'. pages_reserve r order offset = Inr (r', r_start r + page_size * (offset * 2 ^ order)) \<and>
    region_inv r' \<and> blocks_of (r_page_alloc_si r') = blocks_of (r_page_alloc_si r) - {(order, offset)} \<and>
    free_pages_of (r_page_alloc_si r') =
      free_pages_of (r_page_alloc_si r) - {offset * 2 ^ order ..< (offset + 1) * 2 ^ order}"
proof -
  let ?m = "r_page_alloc_si r" and ?m' = "reserve_bit order offset (r_page_alloc_si r)"
  have bi: "buddy_inv ?m" and cnt: "r_pages_free r = card (free_pages_of ?m)"
    and fit: "r_start r + page_size * m_pages ?m < 2 ^ 64"
    and lock: "r_lock r = 0" "r_si_mapped r"
    using assms(1) by (auto simp: region_inv_def)
  note res = reserve_bit_ok [OF bi assms(2)]
  have free: "free_pages_of ?m' = free_pages_of ?m - block_pages (order, offset)"
    unfolding free_pages_of_def res(2) using buddy_invD(3) [OF bi] assms(2) by (rule covered_remove)
  have card: "card (free_pages_of ?m') = card (free_pages_of ?m) - 2 ^ order"
    and le: "2 ^ order \<le> card (free_pages_of ?m)"
    unfolding free_pages_of_def res(2)
    by (rule card_covered_remove [OF buddy_invD(3) [OF bi] assms(2) blocks_of_finite])+
  have "offset * 2 ^ order \<in> free_pages_of ?m"
    using block_pages_covered [OF assms(2)] unfolding free_pages_of_def by (rule subsetD) simp
  then have "2 ^ order * offset < m_pages ?m"
    by (metis free_pages_bound mult.commute)
  with fit have "BLOCK_ORDER_SIZE order * offset + r_start r < 2 ^ 64"
    by (simp add: BLOCK_ORDER_SIZE_def)
  then have addr: "add64 (BLOCK_ORDER_SIZE order * offset) (r_start r)
      = r_start r + page_size * (offset * 2 ^ order)"
    by (simp add: wrap_simps BLOCK_ORDER_SIZE_def)
  have dec: "sub64 (r_pages_free r) (2 ^ order) = card (free_pages_of ?m')"
    using card le cnt fit card_free_pages [of ?m] by (simp add: wrap_simps)
  have k: "order < MAX_ORDER" and "\<not> block_check ?m order offset"
    using assms(2) by (simp_all add: free_blocks_def)
  then have "pages_reserve r order offset = Inr
      (reserve_account (upd_si (reserve_bit order offset) (r\<lparr>r_lock := 1\<rparr>)) order,
       r_start r + page_size * (offset * 2 ^ order))"
    using lock addr by (simp add: pages_reserve_def spinlock_lock_cases Let_def)
  moreover have "region_inv (reserve_account (upd_si (reserve_bit order offset) (r\<lparr>r_lock := 1\<rparr>)) order)"
    using res dec lock fit by (simp add: region_inv_def reserve_account_def Let_def)
  moreover have "r_page_alloc_si (reserve_account (upd_si (reserve_bit order offset) (r\<lparr>r_lock := 1\<rparr>)) order)
      = ?m'"
    by (simp add: reserve_account_def Let_def)
  ultimately show ?thesis
    using res(2) free unfolding block_pages.simps by auto
qed

section \<open>Reserving a page of a larger block\<close>

lemma zsplit_at_fields:
  "m_table (zsplit_at (Suc k) i m) = m_table (halves_bits k i m)"
  "m_pages (zsplit_at (Suc k) i m) = m_pages m"
  "m_free_area (zsplit_at (Suc k) i m) = m_free_area m"
  by (simp_all add: zsplit_at_def halves_bits_def Let_def split_beta find_next_free_page_fields)

lemma zsplit_at_free_blocks [simp]:
  "free_blocks (zsplit_at (Suc k) i m) = free_blocks (halves_bits k i m)"
  by (rule free_blocks_cong) (simp_all add: zsplit_at_fields)

text \<open>The order below gets two blocks more; its hint follows the hint of the order split.\<close>

lemma zsplit_at_below:
  "m_pages_free (zsplit_at (Suc k) i m) k = add64 (m_pages_free m k) 2"
  "m_next_free_page (zsplit_at (Suc k) i m) k =
    (if m_next_free_page m k > m_next_free_page m (Suc k) * 2
     then m_next_free_page m (Suc k) * 2 else m_next_free_page m k)"
  by (simp_all add: zsplit_at_def Let_def split_beta find_next_other)

lemma reserve_half:
  assumes "(Suc k, i) \<in> blocks_of m"
  shows "(case reserve_find m k (Suc k) (2 * i) of (j, p) \<Rightarrow> reserve_split m k j p) = zsplit_at (Suc k) i m"
proof -
  have "\<not> block_check m (Suc k) i" using assms by (simp add: free_blocks_def)
  then show ?thesis
    using assms by (simp add: reserve_find.simps [of m k "Suc k"] reserve_split.simps [of m k "Suc k"]
        reserve_split.simps [of _ k k] zblock_split.simps [of m "Suc k"])
qed

lemma reserve_half_bits:
  assumes inv: "buddy_inv m" and i: "(Suc k, i) \<in> blocks_of m" and j: "j < MAX_ORDER"
  defines "m2 \<equiv> reserve_bit k (2 * i) (zsplit_at (Suc k) i m)"
  shows "\<not> block_check (zsplit_at (Suc k) i m) k (2 * i)"
    and "free_blocks m2 j = (if j = Suc k then free_blocks m j - {i}
      else if j = k then insert (2 * i + 1) (free_blocks m j) else free_blocks m j)"
proof -
  have iF: "i \<in> free_blocks m (Suc k)" and k: "Suc k < MAX_ORDER" using i by simp_all
  define h where "h = halves_bits k i m"
  note hF = halves_bits_free_blocks [OF buddy_invD(1) [OF inv] k, of i, folded h_def]
  have h0: "free_blocks h k = insert (2 * i) (insert (2 * i + 1) (free_blocks m k))"
    using hF [of k] iF k by simp
  have z: "free_blocks (zsplit_at (Suc k) i m) = free_blocks h" by (simp add: h_def)
  with h0 show "\<not> block_check (zsplit_at (Suc k) i m) k (2 * i)"
    by (metis (mono_tags, lifting) free_blocks_def insertI1 mem_Collect_eq)
  have lay: "layout_ok (zsplit_at (Suc k) i m)"
    using buddy_invD(1) [OF inv] by (simp add: layout_ok_def zsplit_at_fields)
  have "2 * i \<in> free_blocks (zsplit_at (Suc k) i m) k" using h0 z by simp
  then have "bit_valid (zsplit_at (Suc k) i m) k (2 * i)"
    using lay k by (intro bit_valid_free) simp_all
  note set = free_blocks_set [OF this j]
  have m2: "free_blocks m2 = free_blocks (block_set (zsplit_at (Suc k) i m) k (2 * i))"
    by (rule free_blocks_cong)
      (simp_all add: m2_def reserve_bit_def Let_def split_beta find_next_free_page_fields)
  have "2 * i \<notin> free_blocks m k"
    using free_halves_absent(1) [OF inv _ , of k i] iF k by simp
  with m2 set z h0 hF [of j] iF j show "free_blocks m2 j = (if j = Suc k then free_blocks m j - {i}
      else if j = k then insert (2 * i + 1) (free_blocks m j) else free_blocks m j)"
    by auto
qed

text \<open>The call that reserves the first half of a free block.\<close>

lemma pages_reserve_half:
  assumes "region_inv r" and "(Suc k, i) \<in> blocks_of (r_page_alloc_si r)"
  shows "\<exists>r'. pages_reserve r k (2 * i) = Inr (r', r_start r + page_size * (2 ^ k * (2 * i))) \<and>
    r_page_alloc_si r' = reserve_bit k (2 * i) (zsplit_at (Suc k) i (r_page_alloc_si r)) \<and>
    r_start r' = r_start r \<and> r_size r' = r_size r \<and> r_attrib r' = r_attrib r \<and> r_lock r' = 0 \<and> r_si_mapped r' \<and>
    r_mem_full r' = (r_mem_full r \<or> r_pages_free r \<le> 2 ^ k)"
proof -
  let ?m = "r_page_alloc_si r"
  have bi: "buddy_inv ?m" and lock: "r_lock r = 0" "r_si_mapped r"
    and fit: "r_start r + page_size * m_pages ?m < 2 ^ 64"
    using assms(1) by (auto simp: region_inv_def)
  define z where "z = zsplit_at (Suc k) i ?m"
  define m2 where "m2 = reserve_bit k (2 * i) z"
  have k: "k < MAX_ORDER" and iF: "i \<in> free_blocks ?m (Suc k)" and Sk: "Suc k < MAX_ORDER" using assms(2) by simp_all
  note bits = reserve_half_bits(1) [OF bi assms(2) k, folded z_def]
  note half = reserve_half [OF assms(2), folded z_def]
  have "block_pages (Suc k, i) \<subseteq> free_pages_of ?m"
    unfolding free_pages_of_def using assms(2) by (rule block_pages_covered)
  then have "2 ^ Suc k * i + 2 ^ k \<in> free_pages_of ?m" by (rule subsetD) (simp add: algebra_simps)
  then have bound: "2 ^ k * (2 * i) + 2 ^ k < m_pages ?m"
    using free_pages_bound by fastforce
  then have "(2 * i + 1) * 2 ^ k \<le> m_pages ?m" by (simp add: algebra_simps)
  then have "2 * i < free_area_length (m_pages ?m) k"
    unfolding free_area_length_div by (simp add: less_eq_div_iff_mult_less_eq Suc_le_eq [symmetric])
  then have taken: "block_check ?m k (2 * i)"
    using free_halves_absent(1) [OF bi Sk iF] by (simp add: free_blocks_def)
  have addr: "add64 (BLOCK_ORDER_SIZE k * (2 * i)) (r_start r) = r_start r + page_size * (2 ^ k * (2 * i))"
    using bound fit by (simp add: BLOCK_ORDER_SIZE_def wrap_simps)
  define r1 where "r1 = reserve_account (r\<lparr>r_lock := 1, r_page_alloc_si := m2\<rparr>) k"
  have "upd_si (\<lambda>m. case reserve_find m k (k + 1) (2 * i div 2 * 2) of (j, p) \<Rightarrow> reserve_split m k j p)
      (r\<lparr>r_lock := 1\<rparr>) = r\<lparr>r_lock := 1, r_page_alloc_si := z\<rparr>"
    using half by (simp add: upd_si_def mult.commute [of i 2])
  then have "pages_reserve r k (2 * i) = Inr (r1, r_start r + page_size * (2 ^ k * (2 * i)))"
    using lock taken bits addr k
    by (simp add: pages_reserve_def spinlock_lock_cases Let_def r1_def m2_def upd_si_def)
  moreover have "r_page_alloc_si r1 = m2" "r_start r1 = r_start r" "r_size r1 = r_size r" "r_attrib r1 = r_attrib r"
    "r_lock r1 = 0" "r_si_mapped r1" "r_mem_full r1 = (r_mem_full r \<or> r_pages_free r \<le> 2 ^ k)"
    using lock by (simp_all add: r1_def reserve_account_def out_of_mem_def Let_def)
  ultimately show ?thesis unfolding m2_def z_def by blast
qed

text \<open>
  Reserving a page of a free pair hands out memory that is in use: when no single page is free
  and the pair is not the first of the region, \<open>zblock_split\<close> derives the hint of order 0 from the
  hint of order 1 instead of the block it splits, and never raises it from 0. The next \<open>page_alloc\<close>
  then returns the start of the region, although that page is taken.
\<close>

theorem reserve_hint_double_allocates:
  assumes "region_inv r" and "(1, i) \<in> blocks_of (r_page_alloc_si r)" and "0 < i"
    and "free_blocks (r_page_alloc_si r) 0 = {}" and "0 \<notin> free_pages_of (r_page_alloc_si r)"
  shows "\<exists>r1 r2. pages_reserve r 0 (2 * i) = Inr (r1, r_start r + page_size * (2 * i)) \<and>
    0 \<notin> free_pages_of (r_page_alloc_si r1) \<and> page_alloc r1 = Inr (r2, r_start r)"
proof -
  let ?m = "r_page_alloc_si r"
  have bi: "buddy_inv ?m" and lock: "r_lock r = 0" "r_si_mapped r"
    and fit: "r_start r + page_size * m_pages ?m < 2 ^ 64"
    using assms(1) by (auto simp: region_inv_def)
  define z where "z = zsplit_at 1 i ?m"
  define m2 where "m2 = reserve_bit 0 (2 * i) z"
  have pair: "(Suc 0, i) \<in> blocks_of ?m" using assms(2) by simp
  note bits = reserve_half_bits [OF bi pair, folded One_nat_def, folded z_def, folded m2_def]
  note half = reserve_half [OF pair, folded One_nat_def]
  have ord0: "m_pages_free ?m 0 = 0" "m_next_free_page ?m 0 = 0"
    using buddy_invD(2) [OF bi, of 0] assms(4) by (simp_all add: ord_ok_def)
  then have z0: "m_pages_free z 0 = 2" "m_next_free_page z 0 = 0"
    using zsplit_at_below [of 0 i ?m] by (simp_all add: z_def wrap_simps)
  then have m20: "m_pages_free m2 0 = 1" "m_next_free_page m2 0 = 0"
    using assms(3) by (simp_all add: m2_def reserve_bit_def Let_def wrap_simps)
  have "2 * i < m_pages ?m"
  proof -
    have "block_pages (1, i) \<subseteq> free_pages_of ?m"
      unfolding free_pages_of_def using assms(2) by (rule block_pages_covered)
    then have "2 * i \<in> free_pages_of ?m" by (rule subsetD) simp
    then show ?thesis by (rule free_pages_bound)
  qed
  with fit have addr: "add64 (BLOCK_ORDER_SIZE 0 * (2 * i)) (r_start r) = r_start r + page_size * (2 * i)"
    by (simp add: BLOCK_ORDER_SIZE_def wrap_simps)
  have "2 * i \<notin> free_blocks ?m 0" using assms(4) by simp
  then have taken: "block_check ?m 0 (2 * i)"
    using \<open>2 * i < m_pages ?m\<close> by (simp add: free_blocks_def)
  define r1 where "r1 = reserve_account (r\<lparr>r_lock := 1, r_page_alloc_si := m2\<rparr>) 0"
  have "upd_si (reserve_bit 0 (2 * i)) (upd_si (\<lambda>m. case reserve_find m 0 1 (2 * i) of
      (j, p) \<Rightarrow> reserve_split m 0 j p) (r\<lparr>r_lock := 1\<rparr>)) = r\<lparr>r_lock := 1, r_page_alloc_si := m2\<rparr>"
    by (simp add: upd_si_def half z_def [symmetric] m2_def
        del: One_nat_def)
  then have "pages_reserve r 0 (2 * i) = Inr (r1, r_start r + page_size * (2 * i))"
    using lock taken bits(1) [of 0] addr half
    by (simp add: pages_reserve_def spinlock_lock_cases Let_def r1_def z_def
        mult.commute [of i 2] del: One_nat_def)
  moreover have "page_alloc r1 = Inr (fst (alloc_take (r1\<lparr>r_lock := 1\<rparr>) 0), r_start r)"
    using lock m20 fit
    by (simp add: page_alloc_def pages_alloc_def alloc_take_def spinlock_lock_cases Let_def r1_def
        reserve_account_def upd_si_def out_of_mem_def wrap_simps)
  moreover have "r_page_alloc_si r1 = m2"
    by (simp add: r1_def reserve_account_def Let_def)
  moreover have "0 \<notin> free_pages_of m2"
  proof
    assume "0 \<in> free_pages_of m2"
    then obtain j b where b: "j < MAX_ORDER" "b \<in> free_blocks m2 j" "0 \<in> block_pages (j, b)"
      by (auto simp: free_pages_of_def covered_def)
    then have "b = 0" by (cases b) auto
    with b have "(j, b) \<in> blocks_of ?m"
      using bits(2) [OF b(1)] by (auto split: if_splits)
    with b(3) assms(5) show False
      using block_pages_covered [of "(j, b)"] unfolding free_pages_of_def by blast
  qed
  ultimately show ?thesis by auto
qed

text \<open>
  A region with page 0 taken, no free page on its own and a free pair: emptied, then given the pairs
  of pages 0-1 and 4-5, then pages 0-1 taken again.
\<close>

lemma free_pair:
  obtains r where "region_inv r" and "(1, 2) \<in> blocks_of (r_page_alloc_si r)"
    and "free_blocks (r_page_alloc_si r) 0 = {}" and "0 \<notin> free_pages_of (r_page_alloc_si r)"
    and "r_start r = 0x100000"
proof -
  obtain r0 where r0: "region_inv r0" "free_pages_of (r_page_alloc_si r0) = {}"
    "r_start r0 = 0x100000" "m_pages (r_page_alloc_si r0) = 4096"
    using exhaust_region [OF demo_region_ok(1)] demo_region_ok(3-5) by metis
  define m0 where "m0 = r_page_alloc_si r0"
  have m0: "buddy_inv m0" "free_pages_of m0 = {}" "m_pages m0 = 4096"
    using r0 by (simp_all add: region_inv_def m0_def)
  have none: "blocks_of m0 = {}"
    using m0(2) block_pages_nonempty unfolding free_pages_of_def covered_def by blast
  define m1 where "m1 = give_bits m0 1 0"
  have len: "0 < free_area_length (m_pages m0) 1" "2 < free_area_length (m_pages m1) 1"
    and pages: "m_pages m1 = 4096"
    using m0(3) by (simp_all add: m1_def)
  have k: "1 < MAX_ORDER" by simp
  have "block_pages (1, 0) \<inter> free_pages_of m0 = {}" using m0(2) by simp
  note m1 = give_bits_blocks(3,4) [OF m0(1) k len(1) this, folded m1_def]
    give_bits_ok [OF m0(1) k len(1) this, folded m1_def]
  have bi1: "buddy_inv m1" using m1(3) by (simp add: hint_ok_def)
  have free1: "free_pages_of m1 = {0, 1}" using m1(2) m0(2) by auto
  have "0 \<in> free_blocks m1 1" using m1(1) k by (metis in_blocks_of insertI1)
  then have hint: "hint_ok m1 1 2" by (auto simp: hint_ok_def)
  define m2 where "m2 = give_bits m1 1 2"
  have apart2: "block_pages (1, 2) \<inter> free_pages_of m1 = {}" using free1 by simp
  note m2 = give_bits_blocks(3) [OF bi1 k len(2) apart2, folded m2_def]
    give_bits_ok [OF bi1 k len(2) apart2 hint, folded m2_def]
  define m3 where "m3 = reserve_bit 1 0 m2"
  have "(1, 0) \<in> blocks_of m2" using m2(1) m1(1) by simp
  note m3 = reserve_bit_ok [OF m2(2) this, folded m3_def]
  have blk3: "blocks_of m3 = {(1, 2)}" using m3(2) m2(1) m1(1) none by auto
  define r where "r = r0\<lparr>r_page_alloc_si := m3, r_pages_free := card (free_pages_of m3)\<rparr>"
  have "m_pages m3 = 4096" using m3(3) pages by (simp add: m2_def)
  then have "region_inv r" using r0(1,3,4) m3(1) by (simp add: r_def region_inv_def)
  moreover have "i \<notin> free_blocks m3 0" for i
    using blk3 in_blocks_of [of 0 i m3] by auto
  moreover have "0 \<notin> free_pages_of m3" unfolding free_pages_of_def blk3 by (simp add: covered_def)
  moreover have "(1, 2) \<in> blocks_of m3" unfolding blk3 by simp
  ultimately show ?thesis using r0(3) by (intro that [of r]) (auto simp: r_def)
qed

theorem reserve_hint_witness:
  "\<exists>r r1 r2. region_inv r \<and> 0 \<notin> free_pages_of (r_page_alloc_si r) \<and>
     pages_reserve r 0 4 = Inr (r1, 0x100000 + page_size * 4) \<and>
     0 \<notin> free_pages_of (r_page_alloc_si r1) \<and> page_alloc r1 = Inr (r2, 0x100000)"
proof -
  obtain r where r: "region_inv r" "(1, 2) \<in> blocks_of (r_page_alloc_si r)"
    "free_blocks (r_page_alloc_si r) 0 = {}" "0 \<notin> free_pages_of (r_page_alloc_si r)"
    "r_start r = 0x100000"
    by (rule free_pair)
  from reserve_hint_double_allocates [OF r(1,2) _ r(3,4)] r(5)
  have "\<exists>r1 r2. pages_reserve r 0 4 = Inr (r1, 0x100000 + page_size * 4) \<and>
      0 \<notin> free_pages_of (r_page_alloc_si r1) \<and> page_alloc r1 = Inr (r2, 0x100000)"
    by simp
  with r show ?thesis by blast
qed

theorem pages_reserve_contract_witness:
  "\<exists>r r'. region_inv r \<and> pages_reserve r 1 2 = Inr (r', 0x100000 + page_size * 4) \<and> region_inv r' \<and>
     4 \<in> free_pages_of (r_page_alloc_si r) \<and> 4 \<notin> free_pages_of (r_page_alloc_si r')"
proof -
  obtain r where r: "region_inv r" "(1, 2) \<in> blocks_of (r_page_alloc_si r)" "r_start r = 0x100000"
    by (rule free_pair)
  have "4 \<in> free_pages_of (r_page_alloc_si r)"
    using block_pages_covered [OF r(2)] unfolding free_pages_of_def by (rule subsetD) simp
  with pages_reserve_contract [OF r(1,2)] r(1,3) show ?thesis by (simp del: One_nat_def) fastforce
qed

end
