(* ===== verification/Regions.thy ===== *)
theory Regions
  imports Region_Contract
begin

text \<open>
  The allocator over all regions: the chain of \<open>mregion_t\<close>, the globals \<open>regions\<close>,
  \<open>next_region\<close> and \<open>outOfMem\<close> of kernel/page.c, and the functions that search the chain,
  allocate and free. The chain is the list of its regions, a pointer into it the index of the
  region, \<open>NULL\<close> is \<open>None\<close>. The loops of the code end because each turn moves the pointer along
  the chain.
\<close>

section \<open>Searching the chain\<close>

definition region_usable :: "mregion \<Rightarrow> bool" where
  "region_usable r \<longleftrightarrow> r_attrib r AND 0x43 = 0x43 \<and> r_attrib r AND 0x34 = 0 \<and> page_size \<le> r_size r"

definition next_ptr :: "mregion list \<Rightarrow> nat \<Rightarrow> nat option" where
  "next_ptr rs i = (if Suc i < length rs then Some (Suc i) else None)"

function find_next_from :: "mregion list \<Rightarrow> nat \<Rightarrow> nat option" where
  "find_next_from rs i =
     (if i < length rs then if region_usable (rs ! i) then Some i else find_next_from rs (Suc i)
      else None)"
  by pat_completeness auto
termination by (relation "measure (\<lambda>(rs, i). length rs - i)") auto

declare find_next_from.simps [simp del]

definition findNextRegion :: "mregion list \<Rightarrow> nat option \<Rightarrow> nat option" where
  "findNextRegion rs start = (case start of None \<Rightarrow> None | Some i \<Rightarrow> find_next_from rs i)"

lemma find_next_from_first:
  "is_first (\<lambda>l. region_usable (rs ! l)) i (length rs) (find_next_from rs i)"
proof (induction rs i rule: find_next_from.induct)
  case (1 rs i)
  then show ?case
    by (subst find_next_from.simps) (auto intro: is_first_end is_first_here is_first_step)
qed

lemma find_next_from_Some:
  "find_next_from rs i = Some j \<Longrightarrow> i \<le> j \<and> j < length rs \<and> region_usable (rs ! j)"
  using find_next_from_first [of rs i] by (simp add: is_first_def)

text \<open>The loop of \<open>findFreeRegion\<close>; the caller's \<open>outOfMem\<close> is set when it gives \<open>None\<close>.\<close>

function find_free_from_region :: "mregion list \<Rightarrow> nat option \<Rightarrow> nat option" where
  "find_free_from_region rs start =
     (case findNextRegion rs start of None \<Rightarrow> None
      | Some r \<Rightarrow>
          if r_mem_full (rs ! r) then find_free_from_region rs (next_ptr rs (the start)) else Some r)"
  by pat_completeness auto
termination
proof (relation "measure (\<lambda>(rs, start). case start of None \<Rightarrow> 0 | Some i \<Rightarrow> Suc (length rs - i))")
  show "wf (measure (\<lambda>(rs, start). case start of None \<Rightarrow> 0 | Some i \<Rightarrow> Suc (length rs - i)))"
    by (rule wf_measure)
  fix rs :: "mregion list" and start r
  assume "findNextRegion rs start = Some r"
  then show "((rs, next_ptr rs (the start)), rs, start)
      \<in> measure (\<lambda>(rs, start). case start of None \<Rightarrow> 0 | Some i \<Rightarrow> Suc (length rs - i))"
    by (auto simp: findNextRegion_def next_ptr_def split: option.splits dest: find_next_from_Some)
qed

declare find_free_from_region.simps [simp del]

record pages_state =
  regions :: "mregion list"
  next_region :: "nat option"
  outOfMem :: bool

definition findFreeRegion :: "pages_state \<Rightarrow> nat option \<Rightarrow> pages_state \<times> nat option" where
  "findFreeRegion s start =
     (case find_free_from_region (regions s) start of
        None \<Rightarrow> (s\<lparr>outOfMem := True\<rparr>, None)
      | Some r \<Rightarrow> (s, Some r))"

function find_region_from :: "mregion list \<Rightarrow> nat \<Rightarrow> nat \<Rightarrow> nat option" where
  "find_region_from rs paddress i =
     (if i < length rs
      then if r_start (rs ! i) \<le> paddress \<and> add64 (r_start (rs ! i)) (r_size (rs ! i)) > paddress
           then Some i else find_region_from rs paddress (Suc i)
      else None)"
  by pat_completeness auto
termination by (relation "measure (\<lambda>(rs, _, i). length rs - i)") auto

declare find_region_from.simps [simp del]

definition findRegion :: "mregion list \<Rightarrow> nat \<Rightarrow> nat option \<Rightarrow> nat option" where
  "findRegion rs paddress start =
     (case start of None \<Rightarrow> None | Some i \<Rightarrow> find_region_from rs paddress i)"

lemma find_region_from_first:
  "is_first (\<lambda>l. r_start (rs ! l) \<le> paddress \<and> paddress < add64 (r_start (rs ! l)) (r_size (rs ! l)))
     i (length rs) (find_region_from rs paddress i)"
proof (induction rs paddress i rule: find_region_from.induct)
  case (1 rs paddress i)
  then show ?case
    by (subst find_region_from.simps) (auto intro: is_first_end is_first_here is_first_step)
qed

text \<open>A region that can serve a request, and what the loop of \<open>findFreeRegion\<close> finds.\<close>

definition serving :: "mregion \<Rightarrow> bool" where
  "serving r \<longleftrightarrow> region_usable r \<and> \<not> r_mem_full r"

lemma find_free_from_region_first:
  "is_first (\<lambda>l. serving (rs ! l)) i (length rs) (find_free_from_region rs (Some i))"
proof (induction "length rs - i" arbitrary: i rule: less_induct)
  case less
  show ?case
  proof (cases "find_next_from rs i")
    case None
    with find_next_from_first [of rs i] show ?thesis
      by (subst find_free_from_region.simps)
        (simp add: is_first_def findNextRegion_def serving_def)
  next
    case (Some j)
    note j = find_next_from_first [of rs i, unfolded Some is_first_def option.case]
    show ?thesis
    proof (cases "r_mem_full (rs ! j)")
      case False
      with j show ?thesis
        by (subst find_free_from_region.simps)
          (simp add: is_first_def findNextRegion_def Some serving_def)
    next
      case True
      have step: "find_free_from_region rs (Some i) = find_free_from_region rs (next_ptr rs i)"
        using True by (subst find_free_from_region.simps) (simp add: findNextRegion_def Some)
      have no: "\<not> serving (rs ! i)"
        using j True by (cases "i = j") (auto simp: serving_def)
      show ?thesis
      proof (cases "Suc i < length rs")
        case True
        with less [of "Suc i"] no show ?thesis
          unfolding step by (auto simp: next_ptr_def intro: is_first_step)
      next
        case False
        then have "find_free_from_region rs (next_ptr rs i) = None"
          by (subst find_free_from_region.simps) (simp add: next_ptr_def findNextRegion_def)
        with False no show ?thesis
          unfolding step by (simp add: is_first_step [OF is_first_end])
      qed
    qed
  qed
qed

section \<open>Allocating and freeing\<close>

text \<open>The argument \<open>gfp_mask\<close> of the code is not used there and left out.\<close>

definition region_put :: "pages_state \<Rightarrow> nat \<Rightarrow> mregion \<Rightarrow> pages_state" where
  "region_put s i r = s\<lparr>regions := (regions s)[i := r]\<rparr>"

lemma findFreeRegion_Some:
  assumes "findFreeRegion s (next_ptr (regions s) i) = (s', Some j)"
  shows "s' = s \<and> i < j \<and> j < length (regions s) \<and> serving (regions s ! j) \<and>
    (\<forall>l. i < l \<and> l < j \<longrightarrow> \<not> serving (regions s ! l))"
proof -
  have "find_free_from_region (regions s) (next_ptr (regions s) i) = Some j" and "s' = s"
    using assms by (auto simp: findFreeRegion_def split: option.splits)
  moreover have "find_free_from_region (regions s) None = None"
    by (subst find_free_from_region.simps) (simp add: findNextRegion_def)
  ultimately show ?thesis
    using find_free_from_region_first [of "regions s" "Suc i"]
    by (auto simp: next_ptr_def is_first_def Suc_le_eq split: if_splits)
qed

lemma findFreeRegion_None:
  assumes "findFreeRegion s (next_ptr (regions s) i) = (s', None)"
  shows "s' = s\<lparr>outOfMem := True\<rparr> \<and> (\<forall>l. i < l \<and> l < length (regions s) \<longrightarrow> \<not> serving (regions s ! l))"
proof -
  have "find_free_from_region (regions s) (next_ptr (regions s) i) = None"
    and "s' = s\<lparr>outOfMem := True\<rparr>"
    using assms by (auto simp: findFreeRegion_def split: option.splits)
  then show ?thesis
    using find_free_from_region_first [of "regions s" "Suc i"]
    by (auto simp: next_ptr_def is_first_def Suc_le_eq split: if_splits)
qed

lemma findFreeRegion_cases:
  obtains (found) j where "findFreeRegion s (next_ptr (regions s) i) = (s, Some j)"
      "i < j" "j < length (regions s)" "serving (regions s ! j)"
      "\<forall>l. i < l \<and> l < j \<longrightarrow> \<not> serving (regions s ! l)"
  | (none) "findFreeRegion s (next_ptr (regions s) i) = (s\<lparr>outOfMem := True\<rparr>, None)"
      "\<forall>l. i < l \<and> l < length (regions s) \<longrightarrow> \<not> serving (regions s ! l)"
proof (cases "findFreeRegion s (next_ptr (regions s) i)")
  case (Pair s' p)
  then show ?thesis
    using that findFreeRegion_Some [of s i s'] findFreeRegion_None [of s i s'] by (cases p) auto
qed

function alloc_page :: "pages_state \<Rightarrow> (pages_state \<times> nat) res" where
  "alloc_page s =
     (if outOfMem s then Inr (s, 0)
      else case next_region s of None \<Rightarrow> Inl NullDeref
      | Some i \<Rightarrow>
          if i \<ge> length (regions s) then Inl OutOfBounds
          else if r_mem_full (regions s ! i) then
            (case findFreeRegion s (next_ptr (regions s) i) of
               (s1, p) \<Rightarrow> alloc_page (s1\<lparr>next_region := p\<rparr>))
          else (case page_alloc (regions s ! i) of Inl e \<Rightarrow> Inl e
                | Inr (r, addr) \<Rightarrow> Inr (region_put s i r, addr)))"
  by pat_completeness auto
termination
proof (relation "measure (\<lambda>s. if outOfMem s then 0 else
    (case next_region s of None \<Rightarrow> 0 | Some i \<Rightarrow> Suc (length (regions s) - i)))")
  fix s i p and s1 :: pages_state
  assume "\<not> outOfMem s" "next_region s = Some i" "\<not> i \<ge> length (regions s)"
    and "(s1, p) = findFreeRegion s (next_ptr (regions s) i)"
  then show "(s1\<lparr>next_region := p\<rparr>, s) \<in> measure (\<lambda>s. if outOfMem s then 0 else
      (case next_region s of None \<Rightarrow> 0 | Some i \<Rightarrow> Suc (length (regions s) - i)))"
    by (cases rule: findFreeRegion_cases [of s i]) auto
qed simp_all

declare alloc_page.simps [simp del]

function alloc_pages_loop :: "pages_state \<Rightarrow> nat option \<Rightarrow> nat \<Rightarrow> (pages_state \<times> nat) res" where
  "alloc_pages_loop s areg order =
     (if outOfMem s then Inr (s\<lparr>outOfMem := False\<rparr>, 0)
      else case areg of None \<Rightarrow> Inl NullDeref
      | Some i \<Rightarrow>
          if i \<ge> length (regions s) then Inl OutOfBounds
          else case pages_alloc (regions s ! i) order of Inl e \<Rightarrow> Inl e
          | Inr (r, paddr) \<Rightarrow>
              let s = region_put s i r in
              if paddr = 0 then
                (case findFreeRegion s (next_ptr (regions s) i) of
                   (s1, p) \<Rightarrow> alloc_pages_loop s1 p order)
              else Inr (s, paddr))"
  by pat_completeness auto
termination
proof (relation "measure (\<lambda>(s, areg, _). if outOfMem s then 0 else
    (case areg of None \<Rightarrow> 0 | Some i \<Rightarrow> Suc (length (regions s) - i)))")
  fix s :: pages_state and areg order i b r paddr x s1 p
  assume "\<not> outOfMem s" "areg = Some i" "\<not> i \<ge> length (regions s)"
    "x = region_put s i r" "(s1, p) = findFreeRegion x (next_ptr (regions x) i)"
  then show "((s1, p, order), s, areg, order) \<in> measure (\<lambda>(s, areg, _). if outOfMem s then 0 else
      (case areg of None \<Rightarrow> 0 | Some i \<Rightarrow> Suc (length (regions s) - i)))"
    by (cases rule: findFreeRegion_cases [of x i]) (auto simp: region_put_def)
qed simp_all

declare alloc_pages_loop.simps [simp del]

definition alloc_pages :: "pages_state \<Rightarrow> nat \<Rightarrow> (pages_state \<times> nat) res" where
  "alloc_pages s order =
     (if outOfMem s then Inr (s, 0) else alloc_pages_loop s (next_region s) order)"

definition head_ptr :: "mregion list \<Rightarrow> nat option" where
  "head_ptr rs = (if rs = [] then None else Some 0)"

definition free_pages :: "pages_state \<Rightarrow> nat \<Rightarrow> nat \<Rightarrow> pages_state res" where
  "free_pages s order pages =
     (case findRegion (regions s) pages (head_ptr (regions s)) of None \<Rightarrow> Inr s
      | Some i \<Rightarrow>
          (case pages_free (regions s ! i) pages order of Inl e \<Rightarrow> Inl e
           | Inr r \<Rightarrow>
               let s = region_put s i r in
               (case next_region s of None \<Rightarrow> Inl NullDeref
                | Some n \<Rightarrow>
                    let s = (if r_start (regions s ! i) < r_start (regions s ! n)
                             then s\<lparr>next_region := Some i\<rparr> else s)
                    in Inr (if outOfMem s then s\<lparr>outOfMem := False\<rparr> else s))))"

definition free_page :: "pages_state \<Rightarrow> nat \<Rightarrow> pages_state res" where
  "free_page s page = free_pages s 0 page"

end
