(* ===== verification/Page_Allocator.thy ===== *)
theory Page_Allocator
  imports Regions
begin

text \<open>
  The allocator over all regions as its callers see it: an invariant of the chain, the contract of
  \<open>alloc_page\<close> and \<open>alloc_pages\<close>, both interpretations of \<open>page_source\<close>, and what becomes of
  a system that has run out of memory.
\<close>

section \<open>The invariant\<close>

definition span :: "mregion \<Rightarrow> nat set" where
  "span r = {r_start r ..< r_start r + page_size * m_pages (r_page_alloc_si r)}"

definition region_ok :: "mregion \<Rightarrow> bool" where
  "region_ok r \<longleftrightarrow> (region_usable r \<longrightarrow>
     region_inv r \<and> (r_mem_full r \<or> free_pages_of (r_page_alloc_si r) \<noteq> {}))"

definition spans_apart :: "mregion list \<Rightarrow> bool" where
  "spans_apart rs \<longleftrightarrow> (\<forall>i j. i < j \<and> j < length rs \<longrightarrow> span (rs ! i) \<inter> span (rs ! j) = {})"

definition sys_inv :: "pages_state \<Rightarrow> bool" where
  "sys_inv s \<longleftrightarrow> (\<forall>i < length (regions s). region_ok (regions s ! i)) \<and> spans_apart (regions s) \<and>
     (case next_region s of None \<Rightarrow> outOfMem s
      | Some i \<Rightarrow> i < length (regions s) \<and> region_usable (regions s ! i))"

definition sys_frames :: "pages_state \<Rightarrow> nat set" where
  "sys_frames s = (\<Union>i \<in> {i. i < length (regions s) \<and> region_usable (regions s ! i)}.
     region_frames (regions s ! i))"

lemma region_frames_span: "region_frames r \<subseteq> span r"
proof
  fix x
  assume "x \<in> region_frames r"
  then have x: "r_start r \<le> x" "(x - r_start r) div page_size < m_pages (r_page_alloc_si r)"
    by (auto simp: region_frames_def dest: free_pages_bound)
  from x(2) have "x - r_start r < page_size * m_pages (r_page_alloc_si r)"
    by (simp add: div_less_iff_less_mult mult.commute)
  with x(1) show "x \<in> span r" by (auto simp: span_def)
qed

lemma sys_frames_put:
  assumes "spans_apart (regions s)" and "i < length (regions s)" and "region_usable (regions s ! i)"
    and "region_usable r" and "region_frames r = region_frames (regions s ! i) - A"
    and "A \<subseteq> span (regions s ! i)"
  shows "sys_frames (region_put s i r) = sys_frames s - A"
proof -
  have "region_frames (regions s ! j) \<inter> A = {}" if "j < length (regions s)" "j \<noteq> i" for j
  proof -
    have "span (regions s ! j) \<inter> span (regions s ! i) = {}"
      using assms(1,2) that unfolding spans_apart_def by (metis inf_commute linorder_neqE_nat)
    with region_frames_span [of "regions s ! j"] assms(6) show ?thesis by blast
  qed
  moreover have "region_frames r \<inter> A = {}" using assms(5) by blast
  ultimately show ?thesis
    using assms(2-5) unfolding sys_frames_def region_put_def
    by (auto simp: nth_list_update split: if_splits) blast+
qed

lemma sys_inv_put:
  assumes "sys_inv s" and "i < length (regions s)" and "region_ok r" and "span r = span (regions s ! i)"
    and "region_usable r = region_usable (regions s ! i)"
  shows "sys_inv (region_put s i r)"
  using assms unfolding sys_inv_def spans_apart_def region_put_def
  by (auto simp: nth_list_update split: option.splits)

text \<open>One request to one region of the chain.\<close>

lemma pages_alloc_in_chain:
  assumes inv: "sys_inv s" and i: "i < length (regions s)" "region_usable (regions s ! i)"
    and eq: "pages_alloc (regions s ! i) order = Inr (r, a)"
  shows "sys_inv (region_put s i r)" and "region_usable r" and "span r = span (regions s ! i)"
    and "a \<noteq> 0 \<Longrightarrow> area order a \<subseteq> region_frames (regions s ! i) \<and>
      sys_frames (region_put s i r) = sys_frames s - area order a"
    and "sys_frames (region_put s i r) \<subseteq> sys_frames s"
proof -
  let ?r = "regions s ! i"
  have ok: "region_ok ?r" and rinv: "region_inv ?r"
    using inv i by (auto simp: sys_inv_def region_ok_def)
  have "region_ok r \<and> region_usable r \<and> span r = span ?r"
    using rinv
  proof (cases rule: pages_alloc_cases [where order = order])
    case order
    with eq ok i show ?thesis by simp
  next
    case full
    with eq have "r = ?r\<lparr>r_mem_full := True\<rparr>" by simp
    with rinv i show ?thesis by (simp add: region_ok_def region_usable_def span_def)
  next
    case (taken r' b)
    with eq have "r' = r" by simp
    with taken(2) i ok show ?thesis
      by (auto simp: alloc_result_def region_ok_def region_usable_def span_def)
  qed
  then show ok': "sys_inv (region_put s i r)" "region_usable r" "span r = span ?r"
    using sys_inv_put [OF inv i(1)] i(2) by auto
  have one: "region_frames r \<subseteq> region_frames ?r"
    "a \<noteq> 0 \<Longrightarrow> area order a \<subseteq> region_frames ?r \<and> region_frames r = region_frames ?r - area order a"
    using pages_alloc_frames [OF rinv eq] by blast+
  have put: "sys_frames (region_put s i r) = sys_frames s - A"
    if "region_frames r = region_frames ?r - A" "A \<subseteq> region_frames ?r" for A
    using inv i ok'(2) that region_frames_span [of ?r]
    by (intro sys_frames_put) (auto simp: sys_inv_def)
  have "region_frames r = region_frames ?r - (region_frames ?r - region_frames r)"
    using one(1) by blast
  from put [OF this] show "sys_frames (region_put s i r) \<subseteq> sys_frames s" by blast
  show "area order a \<subseteq> region_frames ?r \<and> sys_frames (region_put s i r) = sys_frames s - area order a"
    if "a \<noteq> 0"
    using one(2) [OF that] put by blast
qed

section \<open>alloc_page and alloc_pages\<close>

lemma sys_inv_oom [simp]: "sys_inv s \<Longrightarrow> sys_inv (s\<lparr>outOfMem := True\<rparr>)"
  by (simp add: sys_inv_def split: option.splits)

lemma sys_frames_more [simp]:
  "sys_frames (s\<lparr>outOfMem := b\<rparr>) = sys_frames s"
  "sys_frames (s\<lparr>next_region := p\<rparr>) = sys_frames s"
  by (simp_all add: sys_frames_def)

lemma sys_inv_next:
  assumes "sys_inv s" and "j < length (regions s)" and "region_usable (regions s ! j)"
  shows "sys_inv (s\<lparr>next_region := Some j\<rparr>)"
  using assms by (simp add: sys_inv_def)

lemma sys_inv_none: "sys_inv s \<Longrightarrow> sys_inv (s\<lparr>outOfMem := True, next_region := None\<rparr>)"
  by (simp add: sys_inv_def)

text \<open>
  What \<open>alloc_page\<close> does from region \<open>i\<close> on, \<open>j\<close> being the first region at or after it that is
  usable and not marked full, if there is one.
\<close>

lemma alloc_page_walk:
  assumes inv: "sys_inv s" and oom: "\<not> outOfMem s" and i: "next_region s = Some i"
    and first: "is_first (\<lambda>l. serving (regions s ! l)) i (length (regions s)) res"
  shows "alloc_page s = (case res of Some j \<Rightarrow> alloc_page (s\<lparr>next_region := Some j\<rparr>)
    | None \<Rightarrow> Inr (s\<lparr>outOfMem := True, next_region := None\<rparr>, 0))"
proof (cases "r_mem_full (regions s ! i)")
  case False
  with inv i have "serving (regions s ! i)" "i < length (regions s)"
    by (auto simp: sys_inv_def serving_def)
  then have "res = Some i" by (intro is_first_unique [OF first is_first_here])
  moreover have "s\<lparr>next_region := Some i\<rparr> = s" using i by simp
  ultimately show ?thesis by simp
next
  case True
  have len: "i < length (regions s)" using inv i by (simp add: sys_inv_def)
  have no: "\<not> serving (regions s ! i)" using True by (simp add: serving_def)
  have step: "alloc_page s = (case findFreeRegion s (next_ptr (regions s) i) of
      (s1, p) \<Rightarrow> alloc_page (s1\<lparr>next_region := p\<rparr>))"
    using oom i len True by (subst alloc_page.simps) simp
  show ?thesis
  proof (cases rule: findFreeRegion_cases [of s i])
    case (found j)
    then have "is_first (\<lambda>l. serving (regions s ! l)) (Suc i) (length (regions s)) (Some j)"
      by (simp add: is_first_def Suc_le_eq)
    from is_first_unique [OF first is_first_step [OF this no]] have "res = Some j" .
    then show ?thesis unfolding step found(1) by simp
  next
    case none
    then have "is_first (\<lambda>l. serving (regions s ! l)) (Suc i) (length (regions s)) None"
      by (simp add: is_first_def Suc_le_eq)
    from is_first_unique [OF first is_first_step [OF this no]] have "res = None" .
    then show ?thesis unfolding step none(1) by (simp add: alloc_page.simps)
  qed
qed

text \<open>What \<open>alloc_page\<close> does when the region it points to can serve.\<close>

lemma alloc_page_serves:
  assumes inv: "sys_inv s" and oom: "\<not> outOfMem s" and j: "next_region s = Some j"
    and srv: "serving (regions s ! j)"
  shows "\<exists>r p. alloc_page s = Inr (region_put s j r, r_start (regions s ! j) + page_size * p) \<and>
    p \<in> free_pages_of (r_page_alloc_si (regions s ! j)) \<and>
    free_pages_of (r_page_alloc_si r) = free_pages_of (r_page_alloc_si (regions s ! j)) - {p} \<and>
    pages_alloc (regions s ! j) 0 = Inr (r, r_start (regions s ! j) + page_size * p) \<and>
    sys_inv (region_put s j r)"
proof -
  let ?r = "regions s ! j"
  have len: "j < length (regions s)" and use: "region_usable ?r" and full: "\<not> r_mem_full ?r"
    using inv j srv by (auto simp: sys_inv_def serving_def)
  with inv have rinv: "region_inv ?r" and "free_pages_of (r_page_alloc_si ?r) \<noteq> {}"
    by (auto simp: sys_inv_def region_ok_def)
  then have "avail (r_page_alloc_si ?r) 0" using avail_0 by (simp add: region_inv_def)
  then obtain r p where r: "pages_alloc ?r 0 = Inr (r, r_start ?r + BLOCK_ORDER_SIZE 0 * p)"
    "alloc_result ?r 0 r p"
    using pages_alloc_success [OF rinv, of 0] by auto
  have "alloc_page s = Inr (region_put s j r, r_start ?r + page_size * p)"
    using oom j len full r(1)
    by (subst alloc_page.simps) (simp add: page_alloc_def BLOCK_ORDER_SIZE_def)
  with r pages_alloc_in_chain(1) [OF inv len use r(1)] show ?thesis
    by (auto simp: alloc_result_def BLOCK_ORDER_SIZE_def)
qed

text \<open>
  C3. \<open>alloc_page\<close>, from any state of the chain that satisfies the invariant and is not out of
  memory: it terminates; if some usable region at or after \<open>next_region\<close> is not marked full, it takes
  one free page of the first such region and leaves every other page and region as it was; if
  there is none, it returns 0 and sets \<open>outOfMem\<close>. The invariant holds again in both cases.
\<close>

theorem alloc_page_contract:
  assumes "sys_inv s" and "\<not> outOfMem s" and "next_region s = Some i"
  shows "if \<exists>l. i \<le> l \<and> l < length (regions s) \<and> serving (regions s ! l)
    then \<exists>j r p. is_first (\<lambda>l. serving (regions s ! l)) i (length (regions s)) (Some j) \<and>
      alloc_page s = Inr (s\<lparr>next_region := Some j, regions := (regions s)[j := r]\<rparr>,
        r_start (regions s ! j) + page_size * p) \<and>
      p \<in> free_pages_of (r_page_alloc_si (regions s ! j)) \<and>
      free_pages_of (r_page_alloc_si r) = free_pages_of (r_page_alloc_si (regions s ! j)) - {p} \<and>
      sys_inv (s\<lparr>next_region := Some j, regions := (regions s)[j := r]\<rparr>)
    else alloc_page s = Inr (s\<lparr>outOfMem := True, next_region := None\<rparr>, 0) \<and>
      sys_inv (s\<lparr>outOfMem := True, next_region := None\<rparr>)"
proof -
  have first: "is_first (\<lambda>l. serving (regions s ! l)) i (length (regions s))
      (find_free_from_region (regions s) (Some i))"
    by (rule find_free_from_region_first)
  note walk = alloc_page_walk [OF assms first]
  show ?thesis
  proof (cases "find_free_from_region (regions s) (Some i)")
    case None
    with first have "\<not> (\<exists>l. i \<le> l \<and> l < length (regions s) \<and> serving (regions s ! l))"
      by (auto simp: is_first_def)
    with walk None sys_inv_none [OF assms(1)] show ?thesis by auto
  next
    case (Some j)
    note j = first [unfolded Some]
    then have srv: "i \<le> j \<and> j < length (regions s) \<and> serving (regions s ! j)"
      by (simp add: is_first_def)
    let ?s = "s\<lparr>next_region := Some j\<rparr>"
    have "sys_inv ?s"
      using sys_inv_next [OF assms(1)] srv by (simp add: serving_def)
    with alloc_page_serves [of ?s j] assms(2) srv walk Some j
    show ?thesis by (auto simp: region_put_def)
  qed
qed

lemma alloc_page_frames:
  assumes inv: "sys_inv s"
  shows "\<exists>s' a. alloc_page s = Inr (s', a) \<and> sys_inv s' \<and> sys_frames s' \<subseteq> sys_frames s \<and>
    (a \<noteq> 0 \<longrightarrow> area 0 a \<subseteq> sys_frames s \<and> sys_frames s' \<subseteq> sys_frames s - area 0 a)"
proof (cases "outOfMem s")
  case True
  with inv show ?thesis by (simp add: alloc_page.simps)
next
  case False
  with inv obtain i where i: "next_region s = Some i" by (auto simp: sys_inv_def split: option.splits)
  have first: "is_first (\<lambda>l. serving (regions s ! l)) i (length (regions s))
      (find_free_from_region (regions s) (Some i))"
    by (rule find_free_from_region_first)
  note walk = alloc_page_walk [OF inv False i first]
  show ?thesis
  proof (cases "find_free_from_region (regions s) (Some i)")
    case None
    with walk sys_inv_none [OF inv] show ?thesis by (simp add: sys_frames_def)
  next
    case (Some j)
    with first have srv: "j < length (regions s)" "serving (regions s ! j)"
      by (auto simp: is_first_def)
    let ?s = "s\<lparr>next_region := Some j\<rparr>"
    have inv': "sys_inv ?s" using sys_inv_next [OF inv] srv by (simp add: serving_def)
    from alloc_page_serves [of ?s j] inv' srv False obtain r p where
      r: "alloc_page ?s = Inr (region_put ?s j r, r_start (regions s ! j) + page_size * p)"
      "pages_alloc (regions s ! j) 0 = Inr (r, r_start (regions s ! j) + page_size * p)"
      by auto
    have "pages_alloc (regions ?s ! j) 0 = Inr (r, r_start (regions s ! j) + page_size * p)"
      using r(2) by simp
    note chain = pages_alloc_in_chain [OF inv' _ _ this]
    have "region_frames (regions s ! j) \<subseteq> sys_frames s"
      using srv by (auto simp: sys_frames_def serving_def)
    with chain srv walk Some r(1) show ?thesis
      by (simp add: serving_def) blast
  qed
qed

lemma findFreeRegion_inv:
  assumes "sys_inv t" and "next_region t \<noteq> None"
    and "findFreeRegion t (next_ptr (regions t) i) = (s1, p)"
  shows "sys_inv s1 \<and> sys_frames s1 = sys_frames t \<and> next_region s1 \<noteq> None \<and>
    (case p of None \<Rightarrow> outOfMem s1 | Some i \<Rightarrow> i < length (regions s1) \<and> region_usable (regions s1 ! i))"
proof (cases rule: findFreeRegion_cases [of t i])
  case (found j)
  with assms(3) have "s1 = t" "p = Some j" by simp_all
  with assms(1,2) found show ?thesis by (simp add: serving_def)
next
  case none
  with assms(3) have "s1 = t\<lparr>outOfMem := True\<rparr>" "p = None" by simp_all
  with assms(1,2) show ?thesis by simp
qed

lemma alloc_pages_loop_frames:
  assumes "sys_inv s" and "next_region s \<noteq> None"
    and "case areg of None \<Rightarrow> outOfMem s | Some i \<Rightarrow> i < length (regions s) \<and> region_usable (regions s ! i)"
  shows "\<exists>s' a. alloc_pages_loop s areg order = Inr (s', a) \<and> sys_inv s' \<and>
    sys_frames s' \<subseteq> sys_frames s \<and>
    (a \<noteq> 0 \<longrightarrow> area order a \<subseteq> sys_frames s \<and> sys_frames s' \<subseteq> sys_frames s - area order a)"
  using assms
proof (induction s areg order rule: alloc_pages_loop.induct)
  case (1 s areg order)
  show ?case
  proof (cases "outOfMem s")
    case True
    with "1.prems" show ?thesis
      by (subst alloc_pages_loop.simps) (auto simp: sys_inv_def split: option.splits)
  next
    case False
    with "1.prems"(3) obtain i where i: "areg = Some i" "i < length (regions s)"
      "region_usable (regions s ! i)"
      by (auto split: option.splits)
    with "1.prems"(1) have rinv: "region_inv (regions s ! i)"
      by (auto simp: sys_inv_def region_ok_def)
    from pages_alloc_returns [OF this, of order] obtain r a where
      r: "pages_alloc (regions s ! i) order = Inr (r, a)" by blast
    define t where "t = region_put s i r"
    note chain = pages_alloc_in_chain [OF "1.prems"(1) i(2,3) r, folded t_def]
    have nr: "next_region t \<noteq> None" and oom: "\<not> outOfMem t"
      using "1.prems"(2) False by (simp_all add: t_def region_put_def)
    show ?thesis
    proof (cases "a = 0")
      case False
      have "region_frames (regions s ! i) \<subseteq> sys_frames s" using i by (auto simp: sys_frames_def)
      with chain False i r \<open>\<not> outOfMem s\<close> show ?thesis
        by (subst alloc_pages_loop.simps) (auto simp: t_def [symmetric] Let_def)
    next
      case True
      obtain s1 p where f: "findFreeRegion t (next_ptr (regions t) i) = (s1, p)"
        by (cases "findFreeRegion t (next_ptr (regions t) i)")
      have step: "alloc_pages_loop s areg order = alloc_pages_loop s1 p order"
        using True False i r f
        by (subst alloc_pages_loop.simps) (simp add: t_def [symmetric] Let_def)
      note s1 = findFreeRegion_inv [OF chain(1) nr f]
      have "\<exists>s' b. alloc_pages_loop s1 p order = Inr (s', b) \<and> sys_inv s' \<and>
          sys_frames s' \<subseteq> sys_frames s1 \<and>
          (b \<noteq> 0 \<longrightarrow> area order b \<subseteq> sys_frames s1 \<and> sys_frames s' \<subseteq> sys_frames s1 - area order b)"
        using s1 by (intro "1.IH" [OF \<open>\<not> outOfMem s\<close> i(1) _ r refl t_def True f [symmetric]])
          (simp_all add: i(2) not_le)
      with chain(5) s1 show ?thesis
        unfolding step by auto blast+
    qed
  qed
qed

text \<open>
  Both functions as one source of pages, as their callers use them: single pages from
  \<open>alloc_page\<close>, blocks from \<open>alloc_pages\<close>.
\<close>

definition get_pages :: "pages_state \<Rightarrow> nat \<Rightarrow> (pages_state \<times> nat) res" where
  "get_pages s order = (if order = 0 then alloc_page s else alloc_pages s order)"

lemma get_pages_frames:
  assumes "sys_inv s"
  shows "\<exists>s' a. get_pages s order = Inr (s', a) \<and> sys_inv s' \<and> sys_frames s' \<subseteq> sys_frames s \<and>
    (a \<noteq> 0 \<longrightarrow> area order a \<subseteq> sys_frames s \<and> sys_frames s' \<subseteq> sys_frames s - area order a)"
proof (cases "order = 0")
  case True
  with alloc_page_frames [OF assms] show ?thesis by (simp add: get_pages_def)
next
  case False
  show ?thesis
  proof (cases "outOfMem s")
    case True
    with False assms show ?thesis by (simp add: get_pages_def alloc_pages_def)
  next
    case oom: False
    with assms have "next_region s \<noteq> None" "case next_region s of None \<Rightarrow> outOfMem s
        | Some i \<Rightarrow> i < length (regions s) \<and> region_usable (regions s ! i)"
      by (auto simp: sys_inv_def split: option.splits)
    from alloc_pages_loop_frames [OF assms this, of order] False oom show ?thesis
      by (simp add: get_pages_def alloc_pages_def)
  qed
qed

interpretation system: page_source sys_inv sys_frames get_pages
  by unfold_locales (use get_pages_frames in \<open>metis Inr_inject Pair_inject\<close>)+

lemma demo_usable: "region_usable demo_region"
  by (simp add: region_usable_def demo_region_ok)

definition demo_system :: pages_state where
  "demo_system = \<lparr>regions = [demo_region], next_region = Some 0, outOfMem = False\<rparr>"

lemma demo_system_inv: "sys_inv demo_system"
  using demo_usable demo_region_ok
  by (auto simp: sys_inv_def demo_system_def region_ok_def spans_apart_def lessThan_empty_iff)

theorem alloc_page_contract_witness:
  "\<exists>s p. alloc_page demo_system = Inr (s, 0x100000 + page_size * p) \<and> p < 4096 \<and> sys_inv s"
proof -
  have "\<exists>l. 0 \<le> l \<and> l < length (regions demo_system) \<and> serving (regions demo_system ! l)"
    using demo_usable by (auto simp: demo_system_def serving_def demo_region_ok)
  moreover have "\<not> outOfMem demo_system" "next_region demo_system = Some 0"
    by (simp_all add: demo_system_def)
  moreover note alloc_page_contract [OF demo_system_inv this]
  ultimately obtain j r p where "j < length (regions demo_system)"
    "alloc_page demo_system = Inr (demo_system\<lparr>next_region := Some j,
       regions := (regions demo_system)[j := r]\<rparr>, r_start (regions demo_system ! j) + page_size * p)"
    "p \<in> free_pages_of (r_page_alloc_si (regions demo_system ! j))"
    "sys_inv (demo_system\<lparr>next_region := Some j, regions := (regions demo_system)[j := r]\<rparr>)"
    unfolding is_first_def by auto
  then show ?thesis
    by (auto simp: demo_system_def demo_region_ok)
qed

text \<open>
  C4. Across all regions and both entry points: whatever sequence of single pages and blocks is
  requested, every request returns, the areas handed out are pairwise disjoint and were free
  frames of the system before, and none of their frames is free afterwards.
\<close>

theorem system_allocations_never_overlap:
  assumes "sys_inv s"
  shows "\<exists>s' as. alloc_run get_pages s orders = Inr (s', as) \<and> sys_inv s' \<and> areas_apart as \<and>
    given as \<subseteq> sys_frames s - sys_frames s'"
proof -
  obtain s' as where run: "alloc_run get_pages s orders = Inr (s', as)"
    using system.alloc_run_returns [OF assms] by blast
  with system.alloc_run_ok [OF assms run] show ?thesis by blast
qed

theorem system_allocations_witness:
  "\<exists>s' as. alloc_run get_pages demo_system [0, 4, 0, 9] = Inr (s', as) \<and> areas_apart as"
  using system_allocations_never_overlap [OF demo_system_inv, of "[0, 4, 0, 9]"] by blast

section \<open>Out of memory\<close>

text \<open>
  Once \<open>alloc_page\<close> has found no region to serve it, freeing a page stops the kernel:
  \<open>next_region\<close> is \<open>NULL\<close> and \<open>free_page\<close> reads its \<open>start\<close>.
\<close>

theorem free_after_exhaustion_faults:
  assumes "sys_inv s" and "\<not> outOfMem s" and "next_region s = Some i"
    and "\<forall>l. i \<le> l \<and> l < length (regions s) \<longrightarrow> \<not> serving (regions s ! l)"
    and "findRegion (regions s) page (Some 0) = Some k"
    and "pages_free (regions s ! k) page 0 = Inr r"
  shows "\<exists>s1. alloc_page s = Inr (s1, 0) \<and> free_page s1 page = Inl NullDeref"
proof -
  have "is_first (\<lambda>l. serving (regions s ! l)) i (length (regions s)) None"
    using assms(4) by (simp add: is_first_def)
  from alloc_page_walk [OF assms(1-3) this]
  have "alloc_page s = Inr (s\<lparr>outOfMem := True, next_region := None\<rparr>, 0)" by simp
  moreover have "regions s \<noteq> []" using assms(1,3) by (auto simp: sys_inv_def)
  ultimately show ?thesis
    using assms(5,6) by (simp add: free_page_def free_pages_def head_ptr_def region_put_def Let_def)
qed

text \<open>A system of one region of one page, which is taken.\<close>

lemma full_system:
  obtains r where "sys_inv \<lparr>regions = [r], next_region = Some 0, outOfMem = False\<rparr>"
    and "r_mem_full r" and "region_usable r" and "r_start r = 0x100000" and "r_size r = page_size"
    and "\<exists>r'. pages_free r 0x100000 0 = Inr r' \<and> free_pages_of (r_page_alloc_si r') = {0}"
proof -
  obtain r where r: "region_inv r" "free_pages_of (r_page_alloc_si r) = {}" "r_start r = 0x100000"
    "r_size r = page_size" "m_pages (r_page_alloc_si r) = 1" "r_mem_full r" "r_attrib r = 0x43"
    by (rule one_page_free)
  have use: "region_usable r" using r by (simp add: region_usable_def)
  have "hint_ok (r_page_alloc_si r) 0 0" by (simp add: hint_ok_def)
  with pages_free_ok [where r = r and order = 0 and phaddr = "0x100000" and offset = 0] r
  have "\<exists>r'. pages_free r 0x100000 0 = Inr r' \<and> free_pages_of (r_page_alloc_si r') = {0}"
    by auto
  moreover have "sys_inv \<lparr>regions = [r], next_region = Some 0, outOfMem = False\<rparr>"
    using use r by (simp add: sys_inv_def region_ok_def spans_apart_def)
  ultimately show ?thesis using that use r by blast
qed

lemma find_only_region:
  "r_start r = 0x100000 \<Longrightarrow> r_size r = page_size \<Longrightarrow> findRegion [r] 0x100000 (Some 0) = Some 0"
  by (simp add: findRegion_def find_region_from.simps wrap_simps)

theorem free_after_exhaustion_witness:
  "\<exists>s s1. sys_inv s \<and> alloc_page s = Inr (s1, 0) \<and> free_page s1 0x100000 = Inl NullDeref"
proof -
  obtain r r' where r: "sys_inv \<lparr>regions = [r], next_region = Some 0, outOfMem = False\<rparr>"
    "r_mem_full r" "r_start r = 0x100000" "r_size r = page_size"
    "pages_free r 0x100000 0 = Inr r'"
    using full_system by metis
  let ?s = "\<lparr>regions = [r], next_region = Some 0, outOfMem = False\<rparr>"
  have "\<forall>l. 0 \<le> l \<and> l < length (regions ?s) \<longrightarrow> \<not> serving (regions ?s ! l)"
    using r(2) by (simp add: serving_def)
  with free_after_exhaustion_faults [OF r(1), where i = 0 and k = 0 and page = "0x100000" and r = r'] r find_only_region
  show ?thesis by auto
qed

text \<open>What \<open>pages_free\<close> never changes in a region, whatever it is given.\<close>

lemma free_steps_keep [simp]:
  "r_start (free_merge r order offset) = r_start r"
  "r_size (free_merge r order offset) = r_size r"
  "r_attrib (free_merge r order offset) = r_attrib r"
  "r_start (free_give r order offset) = r_start r"
  "r_size (free_give r order offset) = r_size r"
  "r_attrib (free_give r order offset) = r_attrib r"
  by (simp_all add: free_merge_def Let_def free_give_eq upd_si_def)

lemma pages_free_keeps:
  assumes "pages_free r phaddr order = Inr r'"
  shows "r_start r' = r_start r" and "r_size r' = r_size r" and "region_usable r' = region_usable r"
    and "r_mem_full r \<Longrightarrow> r_mem_full r'"
  using assms
  by (auto simp: pages_free_def region_usable_def Let_def free_merge_full free_give_full
      split: if_splits sum.splits)

fun free_all :: "pages_state \<Rightarrow> (nat \<times> nat) list \<Rightarrow> pages_state res" where
  "free_all s [] = Inr s"
| "free_all s ((order, page) # fs) =
     (case free_pages s order page of Inl e \<Rightarrow> Inl e | Inr s1 \<Rightarrow> free_all s1 fs)"

definition all_full :: "pages_state \<Rightarrow> bool" where
  "all_full s \<longleftrightarrow> (\<forall>i < length (regions s). region_usable (regions s ! i) \<longrightarrow> r_mem_full (regions s ! i)) \<and>
     (\<forall>i. next_region s = Some i \<longrightarrow> i < length (regions s) \<and> region_usable (regions s ! i))"

lemma find_region_from_put:
  assumes "i < length rs" and "r_start r = r_start (rs ! i)" and "r_size r = r_size (rs ! i)"
  shows "find_region_from (rs[i := r]) p k = find_region_from rs p k"
proof (rule is_first_unique)
  let ?P = "\<lambda>l. r_start (rs ! l) \<le> p \<and> p < add64 (r_start (rs ! l)) (r_size (rs ! l))"
  have "(\<lambda>l. r_start (rs[i := r] ! l) \<le> p \<and> p < add64 (r_start (rs[i := r] ! l)) (r_size (rs[i := r] ! l)))
      = ?P"
    using assms by (auto simp: fun_eq_iff nth_list_update)
  with find_region_from_first [of "rs[i := r]" p k]
  show "is_first ?P k (length rs) (find_region_from (rs[i := r]) p k)" by simp
  show "is_first ?P k (length rs) (find_region_from rs p k)" by (rule find_region_from_first)
qed

lemma free_pages_all_full:
  assumes full: "all_full s" and eq: "free_pages s order page = Inr s1"
    and use: "\<And>k. findRegion (regions s) page (Some 0) = Some k \<Longrightarrow> region_usable (regions s ! k)"
  shows "all_full s1 \<and> length (regions s1) = length (regions s) \<and>
    (\<forall>k < length (regions s). region_usable (regions s1 ! k) = region_usable (regions s ! k)) \<and>
    (\<forall>p. findRegion (regions s1) p (Some 0) = findRegion (regions s) p (Some 0))"
proof (cases "findRegion (regions s) page (head_ptr (regions s))")
  case None
  with eq full show ?thesis by (auto simp: free_pages_def)
next
  case (Some k)
  then have k: "findRegion (regions s) page (Some 0) = Some k" and "regions s \<noteq> []"
    by (auto simp: head_ptr_def findRegion_def split: if_splits)
  then have len: "k < length (regions s)"
    using find_region_from_first [of "regions s" page 0]
    by (simp add: findRegion_def is_first_def)
  from eq Some obtain r where r: "pages_free (regions s ! k) page order = Inr r"
    by (auto simp: free_pages_def split: sum.splits)
  note keep = pages_free_keeps [OF r]
  define t where "t = region_put s k r"
  have t: "all_full t"
    using full len keep(3,4) by (auto simp: all_full_def t_def region_put_def nth_list_update)
  have "s1 = t \<or> s1 = t\<lparr>outOfMem := False\<rparr> \<or> s1 = t\<lparr>next_region := Some k\<rparr> \<or>
      s1 = t\<lparr>next_region := Some k, outOfMem := False\<rparr>"
    using eq Some r by (auto simp: free_pages_def Let_def t_def split: option.splits if_splits)
  moreover have "region_usable (regions t ! k)"
    using use [OF k] keep(3) len by (simp add: t_def region_put_def)
  ultimately have "all_full s1" and "regions s1 = regions t"
    using t len by (auto simp: all_full_def t_def region_put_def)
  then show ?thesis
    using len keep find_region_from_put [OF len keep(1,2)]
    by (auto simp: t_def region_put_def findRegion_def nth_list_update)
qed

lemma free_all_full:
  assumes "all_full s" and "free_all s fs = Inr s1"
    and "\<And>order page k. (order, page) \<in> set fs \<Longrightarrow>
      findRegion (regions s) page (Some 0) = Some k \<Longrightarrow> region_usable (regions s ! k)"
  shows "all_full s1"
  using assms
proof (induction fs arbitrary: s)
  case Nil
  then show ?case by simp
next
  case (Cons f fs)
  obtain order page where f: "f = (order, page)" by (cases f)
  from Cons.prems(2) obtain t where t: "free_pages s order page = Inr t" "free_all t fs = Inr s1"
    by (auto simp: f split: sum.splits)
  note one = free_pages_all_full [OF Cons.prems(1) t(1) Cons.prems(3) [of order page]]
  have in_range: "k < length (regions s)" if "findRegion (regions s) p (Some 0) = Some k" for p k
    using find_region_from_first [of "regions s" p 0] that by (simp add: findRegion_def is_first_def)
  show ?case
  proof (rule Cons.IH [OF _ t(2)])
    show "all_full t" using one by (simp add: f)
    fix o' p k
    assume "(o', p) \<in> set fs" and "findRegion (regions t) p (Some 0) = Some k"
    with Cons.prems(3) [of o' p k] one in_range show "region_usable (regions t ! k)"
      by (auto simp: f)
  qed
qed

text \<open>
  C36. The memory of a system that was full once is lost: when every usable region is marked full, no
  sequence of calls of \<open>free_page\<close> and \<open>free_pages\<close> on addresses of usable regions lets a later
  \<open>alloc_page\<close> return a page, although the bitmaps show the freed pages as free.
\<close>

theorem full_system_never_serves_again:
  assumes "all_full s" and "free_all s fs = Inr s1"
    and "\<And>order page k. (order, page) \<in> set fs \<Longrightarrow>
      findRegion (regions s) page (Some 0) = Some k \<Longrightarrow> region_usable (regions s ! k)"
    and "alloc_page s1 = Inr (s2, a)"
  shows "a = 0"
proof (cases "outOfMem s1 \<or> next_region s1 = None")
  case True
  with assms(4) show ?thesis by (subst (asm) alloc_page.simps) (auto split: if_splits)
next
  case False
  then obtain i where i: "next_region s1 = Some i" and oom: "\<not> outOfMem s1" by auto
  have full: "all_full s1" by (rule free_all_full [OF assms(1,2)]) (rule assms(3))
  then have ir: "i < length (regions s1)" "r_mem_full (regions s1 ! i)"
    and no: "\<not> serving (regions s1 ! l)" if "l < length (regions s1)" for l
    using i that by (auto simp: all_full_def serving_def)
  have "i < length (regions s1)" using full i by (auto simp: all_full_def)
  note ir = ir [OF this]
  have "alloc_page s1 = (case findFreeRegion s1 (next_ptr (regions s1) i) of
      (t, p) \<Rightarrow> alloc_page (t\<lparr>next_region := p\<rparr>))"
    using oom i ir by (subst alloc_page.simps) simp
  also have "\<dots> = alloc_page (s1\<lparr>outOfMem := True, next_region := None\<rparr>)"
    by (cases rule: findFreeRegion_cases [of s1 i]) (use no in auto)
  finally show ?thesis using assms(4) by (simp add: alloc_page.simps)
qed

theorem full_system_witness:
  "\<exists>s s1. sys_inv s \<and> free_all s [(0, 0x100000)] = Inr s1 \<and> outOfMem s1 = False \<and>
     free_pages_of (r_page_alloc_si (regions s1 ! 0)) = {0} \<and>
     (\<forall>s2 a. alloc_page s1 = Inr (s2, a) \<longrightarrow> a = 0)"
proof -
  obtain r r' where r: "sys_inv \<lparr>regions = [r], next_region = Some 0, outOfMem = False\<rparr>"
    "r_mem_full r" "region_usable r" "r_start r = 0x100000" "r_size r = page_size"
    "pages_free r 0x100000 0 = Inr r'" "free_pages_of (r_page_alloc_si r') = {0}"
    using full_system by metis
  let ?s = "\<lparr>regions = [r], next_region = Some 0, outOfMem = False\<rparr>"
  let ?s1 = "\<lparr>regions = [r'], next_region = Some 0, outOfMem = False\<rparr>"
  have full: "all_full ?s" using r(2,3) by (simp add: all_full_def)
  have run: "free_all ?s [(0, 0x100000)] = Inr ?s1"
    using r find_only_region by (simp add: free_pages_def head_ptr_def region_put_def Let_def)
  have "region_usable (regions ?s ! k)"
    if "(order, page) \<in> set [(0, 0x100000)]" "findRegion (regions ?s) page (Some 0) = Some k"
    for order page k
    using that r(3) find_only_region [OF r(4,5)] by auto
  then have "a = 0" if "alloc_page ?s1 = Inr (s2, a)" for s2 a
    using full_system_never_serves_again [OF full run _ that] by blast
  moreover have "outOfMem ?s1 = False" "free_pages_of (r_page_alloc_si (regions ?s1 ! 0)) = {0}"
    using r(7) by simp_all
  ultimately show ?thesis using run r(1) by blast
qed

end
