(* ===== verification/Log_Order.thy ===== *)
theory Log_Order
  imports Block_Bits
begin

text \<open>
  \<open>log_order\<close> of kernel/page.c: the order of the smallest block of at least the given number of
  pages. The loop goes down over the bits of the argument; \<open>MAX_ORDER + 1\<close> in \<open>order\<close> stands for
  "no bit seen yet", which is also an order the loop can compute.
\<close>

fun log_order_loop :: "nat \<Rightarrow> nat \<Rightarrow> nat \<Rightarrow> nat" where
  "log_order_loop i order pages =
     (if bit pages i \<and> order \<noteq> MAX_ORDER + 1 then order + 1
      else
        let order = (if bit pages i then i else order)
        in case i of 0 \<Rightarrow> order | Suc i' \<Rightarrow> log_order_loop i' order pages)"

declare log_order_loop.simps [simp del]

definition log_order :: "nat \<Rightarrow> nat" where
  "log_order pages =
     (let order = log_order_loop 63 (MAX_ORDER + 1) pages
      in if order = MAX_ORDER + 1 then 0 else order)"

lemma bit_low_mod: "bit (n :: nat) i \<Longrightarrow> n mod 2 ^ Suc i \<noteq> 0"
  by (metis bit_take_bit_iff bit_0_eq bot_apply lessI take_bit_eq_mod bot_bool_def)

lemma mod_step: "\<not> bit (n :: nat) i \<Longrightarrow> n mod 2 ^ Suc i = n mod 2 ^ i"
  by (metis take_bit_Suc_from_most take_bit_eq_mod mult_zero_right of_bool_eq(1) add.left_neutral)

text \<open>Once the highest bit is found, the loop looks for any other.\<close>

lemma log_order_loop_found:
  "order \<noteq> 11 \<Longrightarrow> log_order_loop i order n = (if n mod 2 ^ Suc i = 0 then order else order + 1)"
proof (induction i)
  case 0
  then show ?case
    using bit_low_mod [of n 0] mod_step [of n 0] by (subst log_order_loop.simps) auto
next
  case (Suc i)
  show ?case
  proof (cases "bit n (Suc i)")
    case True
    with Suc.prems bit_low_mod [OF True] show ?thesis by (subst log_order_loop.simps) simp
  next
    case False
    with Suc mod_step [OF False] show ?thesis by (subst log_order_loop.simps) simp
  qed
qed

lemma bit_above: "(n :: nat) < 2 ^ h \<Longrightarrow> h \<le> i \<Longrightarrow> \<not> bit n i"
proof -
  assume "n < 2 ^ h" "h \<le> i"
  then have "n < 2 ^ i" using power_increasing [of h i "2 :: nat"] by (simp only: less_le_trans)
  then show ?thesis by (simp add: bit_iff_odd)
qed

lemma log_order_loop_skip:
  "h \<le> i \<Longrightarrow> n < 2 ^ Suc h \<Longrightarrow> log_order_loop i 11 n = log_order_loop h 11 n"
proof (induction i)
  case (Suc i)
  then show ?case
  proof (cases "h = Suc i")
    case False
    with Suc.prems bit_above [of n "Suc h" "Suc i"] have "\<not> bit n (Suc i)" by simp
    with Suc False show ?thesis by (subst log_order_loop.simps) simp
  qed simp
qed simp

lemma log_order_loop_top:
  assumes "2 ^ h \<le> n" and "n < 2 ^ Suc h" and "h \<noteq> 11"
  shows "log_order_loop h 11 n = (if n = 2 ^ h then h else h + 1)"
proof -
  have "n div 2 ^ h = 1" using assms(1,2) by (simp add: div_nat_eqI)
  then have b: "bit n h" by (simp add: bit_iff_odd)
  have m: "n mod 2 ^ h = 0 \<longleftrightarrow> n = 2 ^ h"
    using \<open>n div 2 ^ h = 1\<close> by (metis div_mult_mod_eq mod_self mult_1 add.right_neutral)
  show ?thesis
  proof (cases h)
    case 0
    with b assms show ?thesis by (subst log_order_loop.simps) auto
  next
    case (Suc g)
    with b m assms(3) log_order_loop_found [of h g n] show ?thesis
      by (subst log_order_loop.simps) simp
  qed
qed

lemma log_order_high:
  assumes "2 ^ h \<le> n" and "n < 2 ^ Suc h" and "h \<le> 63" and "h \<noteq> 11"
  shows "log_order n = (let v = (if n = 2 ^ h then h else h + 1) in if v = 11 then 0 else v)"
  using log_order_loop_skip [OF assms(3,2)] log_order_loop_top [OF assms(1,2,4)]
  by (simp add: log_order_def Let_def)

lemma highest_bit:
  assumes "0 < (n :: nat)"
  obtains h where "2 ^ h \<le> n" "n < 2 ^ Suc h"
  using assms ex_power_ivl1 [of 2 n] by auto

lemma log_order_loop_small: "i \<le> 10 \<Longrightarrow> log_order_loop i 11 n \<le> 11"
proof (induction i)
  case 0
  then show ?case by (subst log_order_loop.simps) simp
next
  case (Suc i)
  then show ?case
    using log_order_loop_found [of "Suc i" i n] by (subst log_order_loop.simps) simp
qed



text \<open>
  Between them the value of \<open>order\<close> collides with the one that stands for "no bit seen", and the
  block is always too small.
\<close>

theorem log_order_too_small:
  assumes "1024 < n" and "n < 4096"
  shows "2 ^ log_order n < n"
proof -
  obtain h where h: "2 ^ h \<le> n" "n < 2 ^ Suc h" using highest_bit [of n] assms(1) by auto
  have "(2 :: nat) ^ h < 2 ^ 12" using h(1) assms(2) by simp
  then have "h < 12" by (simp only: power_strict_increasing_iff)
  moreover have "(2 :: nat) ^ 10 < 2 ^ Suc h" using h(2) assms(1) by simp
  then have "10 < Suc h" by (simp only: power_strict_increasing_iff)
  ultimately consider "h = 10" | "h = 11" by linarith
  then show ?thesis
  proof cases
    case 1
    with log_order_high [OF h] assms(1) show ?thesis by (auto simp: Let_def)
  next
    case 2
    then have n: "n < 2 ^ Suc 11" and b: "n div 2 ^ 11 = 1"
      using h by (simp_all add: div_nat_eqI)
    have "bit n 11" using b by (simp add: bit_iff_odd)
    then have "log_order_loop 11 11 n = log_order_loop 10 11 n"
      by (subst log_order_loop.simps) (simp add: eval_nat_numeral)
    then have le: "log_order_loop 63 11 n \<le> 11"
      using log_order_loop_skip [OF _ n, of 63] log_order_loop_small [of 10 n] by simp
    have "log_order n \<le> 10" using le by (simp add: log_order_def Let_def)
    then have "2 ^ log_order n \<le> (2 :: nat) ^ 10" by (rule power_increasing) simp
    with assms(1) show ?thesis by simp
  qed
qed

theorem log_order_too_small_witness: "2 ^ log_order 1025 < (1025 :: nat) \<and> 2 ^ log_order 3000 < (3000 :: nat)"
  using log_order_too_small [of 1025] log_order_too_small [of 3000] by simp

end
