(* ===== verification/C_Strings.thy ===== *)
theory C_Strings
  imports Prelude
begin

text \<open>
  The string functions of mutils/string: \<open>strlen\<close>, \<open>strcmp\<close>, \<open>reverse\<close>, \<open>toLower\<close> and \<open>tostring\<close>.
  A \<open>char *\<close> is the list of the bytes of the object it points to; a read or write past its end is
  \<open>OutOfBounds\<close>. \<open>char\<close> is signed, as on this target. The loops of \<open>strlen\<close> and \<open>strcmp\<close> have no
  bound in the code; here they end at the end of the object at the latest.
\<close>

type_synonym cbuf = "u8 list"

text \<open>What a buffer holds as a string, and the bytes of a string with its terminator.\<close>

definition cstr :: "cbuf \<Rightarrow> u8 list" where
  "cstr s = takeWhile (\<lambda>c. c \<noteq> 0) s"

definition terminated :: "cbuf \<Rightarrow> bool" where
  "terminated s \<longleftrightarrow> 0 \<in> set s"

section \<open>strlen\<close>

function strlen_from :: "cbuf \<Rightarrow> nat \<Rightarrow> nat res" where
  "strlen_from s i =
     (if i < length s then if s ! i \<noteq> 0 then strlen_from s (Suc i) else Inr i else Inl OutOfBounds)"
  by pat_completeness auto
termination by (relation "measure (\<lambda>(s, i). length s - i)") auto

declare strlen_from.simps [simp del]

definition strlen :: "cbuf \<Rightarrow> nat res" where
  "strlen s = strlen_from s 0"

lemma strlen_from_drop:
  "i \<le> length s \<Longrightarrow> strlen_from s i =
     (if terminated (drop i s) then Inr (i + length (cstr (drop i s))) else Inl OutOfBounds)"
proof (induction s i rule: strlen_from.induct)
  case (1 s i)
  show ?case
  proof (cases "i < length s")
    case True
    then have "drop i s = s ! i # drop (Suc i) s" by (simp add: Cons_nth_drop_Suc)
    with 1 True show ?thesis
      by (subst strlen_from.simps) (simp add: terminated_def cstr_def)
  next
    case False
    with 1 show ?thesis by (subst strlen_from.simps) (simp add: terminated_def)
  qed
qed

lemma strlen_eq: "strlen s = (if terminated s then Inr (length (cstr s)) else Inl OutOfBounds)"
  using strlen_from_drop [of 0 s] by (simp add: strlen_def)

lemma cstr_append: "0 \<notin> set xs \<Longrightarrow> cstr (xs @ 0 # t) = xs"
  unfolding cstr_def by (subst takeWhile_append2) auto

lemma cstr_split:
  assumes "terminated s"
  obtains t where "s = cstr s @ 0 # t"
proof -
  obtain xs t where "s = xs @ 0 # t" "0 \<notin> set xs"
    using assms split_list_first [of 0 s] by (auto simp: terminated_def)
  with cstr_append that show ?thesis by metis
qed

lemma cstr_no_zero: "0 \<notin> set (cstr s)"
  by (auto simp: cstr_def dest: set_takeWhileD)

section \<open>strcmp\<close>

function strcmp_from :: "cbuf \<Rightarrow> cbuf \<Rightarrow> nat \<Rightarrow> int res" where
  "strcmp_from s1 s2 i =
     (if i < length s1 \<and> i < length s2 then
        if s1 ! i = 0 \<and> s2 ! i = 0 then Inr 0
        else if sint (s1 ! i) > sint (s2 ! i) then Inr 1
        else if sint (s1 ! i) < sint (s2 ! i) then Inr (- 1)
        else strcmp_from s1 s2 (Suc i)
      else Inl OutOfBounds)"
  by pat_completeness auto
termination by (relation "measure (\<lambda>(s1, _, i). length s1 - i)") auto

declare strcmp_from.simps [simp del]

definition strcmp :: "cbuf \<Rightarrow> cbuf \<Rightarrow> int res" where
  "strcmp s1 s2 = strcmp_from s1 s2 0"

text \<open>The order \<open>strcmp\<close> decides: lexicographic, on signed bytes, a proper prefix comparing by its
  terminator with the next byte.\<close>

fun signed_cmp :: "u8 list \<Rightarrow> u8 list \<Rightarrow> int" where
  "signed_cmp [] [] = 0"
| "signed_cmp [] (b # _) = (if sint b < 0 then 1 else - 1)"
| "signed_cmp (a # _) [] = (if sint a < 0 then - 1 else 1)"
| "signed_cmp (a # xs) (b # ys) =
     (if sint a > sint b then 1 else if sint a < sint b then - 1 else signed_cmp xs ys)"

lemma drop_Cons: "drop i s = c # r \<Longrightarrow> i < length s \<and> s ! i = c \<and> drop (Suc i) s = r"
  by (metis Cons_nth_drop_Suc drop_all leI list.distinct(1) list.inject)

lemma sint_eq: "sint (a :: u8) = sint b \<longleftrightarrow> a = b"
  using signed_word_eqI by blast

lemma sint_nonzero: "(a :: u8) \<noteq> 0 \<Longrightarrow> sint a \<noteq> 0"
  using sint_eq [of a 0] by simp

lemma strcmp_from_strings:
  assumes "drop i s1 = xs @ 0 # t1" and "drop i s2 = ys @ 0 # t2" and "0 \<notin> set xs" and "0 \<notin> set ys"
  shows "strcmp_from s1 s2 i = Inr (signed_cmp xs ys)"
  using assms
proof (induction xs ys arbitrary: i rule: signed_cmp.induct)
  case 1
  with drop_Cons [of i s1 0 t1] drop_Cons [of i s2 0 t2] show ?case
    by (subst strcmp_from.simps) simp
next
  case (2 b ys)
  then have "b \<noteq> 0" by auto
  then have "sint b \<noteq> 0" by (rule sint_nonzero)
  with 2 drop_Cons [of i s1 0 t1] drop_Cons [of i s2 b "ys @ 0 # t2"] show ?case
    by (subst strcmp_from.simps) auto
next
  case (3 a xs)
  then have "a \<noteq> 0" by auto
  then have "sint a \<noteq> 0" by (rule sint_nonzero)
  with 3 drop_Cons [of i s1 a "xs @ 0 # t1"] drop_Cons [of i s2 0 t2] show ?case
    by (subst strcmp_from.simps) auto
next
  case (4 a xs b ys)
  then have "a \<noteq> 0" by auto
  with 4 drop_Cons [of i s1 a "xs @ 0 # t1"] drop_Cons [of i s2 b "ys @ 0 # t2"] show ?case
    by (subst strcmp_from.simps) auto
qed

lemma strcmp_eq:
  assumes "terminated s1" and "terminated s2"
  shows "strcmp s1 s2 = Inr (signed_cmp (cstr s1) (cstr s2))"
proof -
  obtain t1 t2 where "s1 = cstr s1 @ 0 # t1" "s2 = cstr s2 @ 0 # t2"
    using cstr_split assms by metis
  then show ?thesis
    unfolding strcmp_def by (intro strcmp_from_strings [of 0]) (simp_all add: cstr_no_zero)
qed

lemma signed_cmp_0: "signed_cmp xs ys = 0 \<longleftrightarrow> xs = ys"
  by (induction xs ys rule: signed_cmp.induct) (auto simp: not_less dest: order.antisym sint_eq [THEN iffD1])

lemma signed_cmp_swap: "0 \<notin> set xs \<Longrightarrow> 0 \<notin> set ys \<Longrightarrow> signed_cmp ys xs = - signed_cmp xs ys"
  by (induction xs ys rule: signed_cmp.induct) auto

section \<open>reverse\<close>

text \<open>The three assignments of one turn of the loop.\<close>

definition xor_swap :: "cbuf \<Rightarrow> nat \<Rightarrow> nat \<Rightarrow> cbuf" where
  "xor_swap s i j =
     (let s = s[i := s ! i XOR s ! j];
          s = s[j := s ! i XOR s ! j]
      in s[i := s ! i XOR s ! j])"

lemma xor_swap_swaps:
  assumes "i < length s" and "j < length s" and "i \<noteq> j"
  shows "xor_swap s i j = s[i := s ! j, j := s ! i]"
proof -
  have x: "(a XOR b) XOR b = a" "(a XOR b) XOR a = b" for a b :: u8
    by (rule bit_eqI; simp add: bit_xor_iff; blast)+
  show ?thesis
    using assms by (simp add: xor_swap_def Let_def x list_update_swap)
qed

function reverse_loop :: "cbuf \<Rightarrow> nat \<Rightarrow> nat \<Rightarrow> cbuf" where
  "reverse_loop s len i =
     (if i < len div 2 then reverse_loop (xor_swap s i (len - 1 - i)) len (Suc i) else s)"
  by pat_completeness auto
termination by (relation "measure (\<lambda>(_, len, i). len - i)") auto

declare reverse_loop.simps [simp del]

definition reverse :: "cbuf \<Rightarrow> cbuf res" where
  "reverse s =
     (case strlen s of Inl e \<Rightarrow> Inl e
      | Inr len \<Rightarrow> if len < 2 then Inr s else Inr (reverse_loop s len 0))"

lemma reverse_loop_length [simp]: "length (reverse_loop s len i) = length s"
  by (induction s len i rule: reverse_loop.induct)
    (subst reverse_loop.simps, simp add: xor_swap_def Let_def)

lemma reverse_loop_nth:
  "len \<le> length s \<Longrightarrow> k < length s \<Longrightarrow>
     reverse_loop s len i ! k = (if i \<le> k \<and> k < len - i then s ! (len - 1 - k) else s ! k)"
proof (induction s len i rule: reverse_loop.induct)
  case (1 s len i)
  show ?case
  proof (cases "i < len div 2")
    case False
    then have "i \<le> k \<and> k < len - i \<longrightarrow> len - 1 - k = k" by linarith
    with False show ?thesis by (subst reverse_loop.simps) auto
  next
    case True
    then have ij: "i < length s" "len - 1 - i < length s" "i \<noteq> len - 1 - i" "i < len - 1 - i"
      using "1.prems" by linarith+
    define t where "t = s[i := s ! (len - 1 - i), len - 1 - i := s ! i]"
    have "reverse_loop s len i = reverse_loop t len (Suc i)"
      using True xor_swap_swaps [OF ij(1-3)] by (subst reverse_loop.simps) (simp add: t_def)
    also have "\<dots> ! k = (if Suc i \<le> k \<and> k < len - Suc i then t ! (len - 1 - k) else t ! k)"
      using "1.IH" [OF True] "1.prems" xor_swap_swaps [OF ij(1-3)] by (simp add: t_def)
    finally show ?thesis
      using ij "1.prems" by (auto simp: t_def nth_list_update)
  qed
qed

lemma reverse_loop_rev: "reverse_loop (xs @ t) (length xs) 0 = rev xs @ t"
proof (rule nth_equalityI)
  fix k
  assume "k < length (reverse_loop (xs @ t) (length xs) 0)"
  then show "reverse_loop (xs @ t) (length xs) 0 ! k = (rev xs @ t) ! k"
    using reverse_loop_nth [of "length xs" "xs @ t" k 0]
    by (cases "k < length xs") (auto simp: nth_append rev_nth)
qed simp

lemma reverse_eq:
  assumes "terminated s"
  shows "reverse s = Inr (rev (cstr s) @ drop (length (cstr s)) s)"
proof -
  obtain t where t: "s = cstr s @ 0 # t" using cstr_split [OF assms] .
  then have tl: "drop (length (cstr s)) s = 0 # t"
    by (metis append_eq_conv_conj)
  show ?thesis
  proof (cases "length (cstr s) < 2")
    case True
    then have "rev (cstr s) = cstr s" by (cases "cstr s") auto
    with True assms t tl show ?thesis by (simp add: reverse_def strlen_eq)
  next
    case False
    with assms reverse_loop_rev [of "cstr s" "0 # t"] t tl show ?thesis
      by (simp add: reverse_def strlen_eq)
  qed
qed

lemma reverse_string:
  assumes "0 \<notin> set xs"
  shows "reverse (xs @ 0 # t) = Inr (rev xs @ 0 # t)"
  using reverse_eq [of "xs @ 0 # t"] cstr_append [OF assms] by (simp add: terminated_def)

section \<open>toLower\<close>

definition lower :: "u8 \<Rightarrow> u8" where
  "lower c = (if sint c \<ge> 65 \<and> sint c \<le> 90 then c + 32 else c)"

fun tolower_loop :: "cbuf \<Rightarrow> nat \<Rightarrow> nat \<Rightarrow> cbuf" where
  "tolower_loop s i 0 = s"
| "tolower_loop s i (Suc n) = tolower_loop (s[i := lower (s ! i)]) (Suc i) n"

definition toLower :: "cbuf \<Rightarrow> cbuf res" where
  "toLower s = (case strlen s of Inl e \<Rightarrow> Inl e | Inr len \<Rightarrow> Inr (tolower_loop s 0 len))"

lemma tolower_loop_map:
  "tolower_loop (xs @ ys @ t) (length xs) (length ys) = xs @ map lower ys @ t"
proof (induction ys arbitrary: xs)
  case Nil
  then show ?case by simp
next
  case (Cons y ys)
  from Cons [of "xs @ [lower y]"] show ?case by simp
qed

lemma toLower_eq:
  assumes "terminated s"
  shows "toLower s = Inr (map lower (cstr s) @ drop (length (cstr s)) s)"
proof -
  obtain t where t: "s = cstr s @ 0 # t" using cstr_split [OF assms] .
  then have "drop (length (cstr s)) s = 0 # t"
    by (metis append_eq_conv_conj)
  with assms t tolower_loop_map [of "[]" "cstr s" "0 # t"] show ?thesis
    by (simp add: toLower_def strlen_eq)
qed

section \<open>Digits\<close>

text \<open>The digits of a number, the last one first, as the loops of the code produce them.\<close>

function digits :: "nat \<Rightarrow> nat \<Rightarrow> nat list" where
  "digits b n = (if n = 0 \<or> b < 2 then [] else n mod b # digits b (n div b))"
  by pat_completeness auto
termination by (relation "measure snd") auto

declare digits.simps [simp del]

definition digits_value :: "nat \<Rightarrow> nat list \<Rightarrow> nat" where
  "digits_value b ds = foldr (\<lambda>d v. d + b * v) ds 0"

lemma digits_value_digits: "2 \<le> b \<Longrightarrow> digits_value b (digits b n) = n"
proof (induction b n rule: digits.induct)
  case (1 b n)
  then show ?case
    by (subst digits.simps) (simp add: digits_value_def mult.commute)
qed

lemma digits_bound: "d \<in> set (digits b n) \<Longrightarrow> d < b"
proof (induction b n rule: digits.induct)
  case (1 b n)
  show ?case
  proof (cases "n = 0 \<or> b < 2")
    case True
    with "1.prems" show ?thesis by (subst (asm) digits.simps) simp
  next
    case False
    with 1 show ?thesis by (subst (asm) (2) digits.simps) auto
  qed
qed

lemma length_digits: "2 \<le> b \<Longrightarrow> n < b ^ k \<Longrightarrow> length (digits b n) \<le> k"
proof (induction k arbitrary: n)
  case 0
  then show ?case by (subst digits.simps) simp
next
  case (Suc k)
  then have "n div b < b ^ k" by (simp add: div_less_iff_less_mult mult.commute)
  with Suc show ?case by (subst digits.simps) simp
qed

lemma digits_empty: "2 \<le> b \<Longrightarrow> digits b n = [] \<longleftrightarrow> n = 0"
  by (subst digits.simps) simp

text \<open>No leading zero: the digit of the highest place comes last.\<close>

lemma last_digits: "2 \<le> b \<Longrightarrow> n \<noteq> 0 \<Longrightarrow> last (digits b n) \<noteq> 0"
proof (induction b n rule: digits.induct)
  case (1 b n)
  show ?case
  proof (cases "n div b = 0")
    case True
    with "1.prems" have "n < b" by (simp add: div_eq_0_iff)
    moreover have "digits b n = [n mod b]"
      using True "1.prems" by (subst digits.simps) (simp add: digits_empty)
    ultimately have "digits b n = [n]" by simp
    with "1.prems" show ?thesis by simp
  next
    case False
    with 1 show ?thesis by (subst digits.simps) (simp add: digits_empty)
  qed
qed

section \<open>tostring\<close>

definition digit_char :: "nat \<Rightarrow> u8" where
  "digit_char d = of_nat d + 48"

fun clear_bytes :: "cbuf \<Rightarrow> nat \<Rightarrow> nat \<Rightarrow> cbuf" where
  "clear_bytes s i 0 = s"
| "clear_bytes s i (Suc n) = clear_bytes (s[i := 0]) (Suc i) n"

lemma div10_step: "(n - n mod 10) div 10 = n div (10 :: nat)"
  by (metis minus_mod_eq_mult_div nonzero_mult_div_cancel_left zero_neq_numeral)

function tostring_loop :: "nat \<Rightarrow> cbuf \<Rightarrow> nat \<Rightarrow> cbuf res" where
  "tostring_loop n out i =
     (if n > 0 then
        if i < length out then tostring_loop ((n - n mod 10) div 10) (out[i := digit_char (n mod 10)]) (Suc i)
        else Inl OutOfBounds
      else Inr out)"
  by pat_completeness auto
termination by (relation "measure (\<lambda>(n, _, _). n)") (auto simp: div10_step)

declare tostring_loop.simps [simp del]

definition tostring :: "nat \<Rightarrow> cbuf \<Rightarrow> (cbuf \<times> int) res" where
  "tostring n out =
     (case strlen out of Inl e \<Rightarrow> Inl e
      | Inr len \<Rightarrow>
          let out = clear_bytes out 0 len in
          if n = 0 then Inr (out[0 := 48], 1)
          else case tostring_loop n out 0 of Inl e \<Rightarrow> Inl e
          | Inr out \<Rightarrow> (case reverse out of Inl e \<Rightarrow> Inl e | Inr out \<Rightarrow> Inr (out, 1)))"

lemma clear_bytes_zero: "clear_bytes (xs @ ys @ t) (length xs) (length ys) = xs @ replicate (length ys) 0 @ t"
proof (induction ys arbitrary: xs)
  case Nil
  then show ?case by simp
next
  case (Cons y ys)
  from Cons [of "xs @ [0]"] show ?case by simp
qed

lemma tostring_loop_digits:
  "length (digits 10 n) \<le> length t \<Longrightarrow>
     tostring_loop n (xs @ t) (length xs) =
       Inr (xs @ map digit_char (digits 10 n) @ drop (length (digits 10 n)) t)"
proof (induction n arbitrary: xs t rule: less_induct)
  case (less n)
  show ?case
  proof (cases "n = 0")
    case True
    then show ?thesis by (simp add: tostring_loop.simps digits.simps)
  next
    case False
    have d: "digits 10 n = n mod 10 # digits 10 (n div 10)"
      using False by (subst digits.simps) simp
    with less.prems obtain c u where t: "t = c # u" by (cases t) auto
    from less.IH [of "n div 10" u "xs @ [digit_char (n mod 10)]"] False less.prems
    show ?thesis
      unfolding d t by (subst tostring_loop.simps) (simp add: d t div10_step)
  qed
qed

lemma digit_char_nonzero: "d < 10 \<Longrightarrow> digit_char d \<noteq> 0"
proof -
  assume "d < 10"
  then have "d \<in> {0, 1, 2, 3, 4, 5, 6, 7, 8, 9}" by auto
  then show ?thesis unfolding digit_char_def by auto
qed

text \<open>What a string of decimal digits stands for.\<close>

definition dec_value :: "u8 list \<Rightarrow> nat" where
  "dec_value cs = digits_value 10 (map (\<lambda>c. unat (c - 48)) (rev cs))"

lemma unat_digit_char: "d < 10 \<Longrightarrow> unat (digit_char d - 48) = d"
  by (simp add: digit_char_def unat_of_nat)

lemma dec_value_digits: "dec_value (rev (map digit_char (digits 10 n))) = n"
proof -
  have "map (\<lambda>c. unat (c - 48)) (map digit_char (digits 10 n)) = digits 10 n"
    using digits_bound [of _ 10 n] unat_digit_char by (simp add: map_idI)
  then show ?thesis by (simp add: dec_value_def digits_value_digits)
qed

text \<open>
  \<open>tostring\<close> writes the decimal digits of its argument, most significant first: for a buffer
  with room for them and a zero byte after the place of the last digit, the string in it afterwards
  has the value of the argument and no leading zero.
\<close>

theorem tostring_correct:
  assumes "terminated out" and "0 < n" and "length (digits 10 n) < length out"
    and "length (digits 10 n) < length (cstr out) \<or> out ! length (digits 10 n) = 0"
  shows "\<exists>out'. tostring n out = Inr (out', 1) \<and> dec_value (cstr out') = n \<and>
    hd (cstr out') \<noteq> 48 \<and> length out' = length out"
proof -
  obtain t where t: "out = cstr out @ 0 # t" using cstr_split [OF assms(1)] .
  define len where "len = length (cstr out)"
  define k where "k = length (digits 10 n)"
  define cleared where "cleared = replicate len 0 @ 0 # t"
  have cl: "clear_bytes out 0 len = cleared"
    using clear_bytes_zero [of "[]" "cstr out" "0 # t"] t by (simp add: cleared_def len_def)
  have lc: "length cleared = length out"
    using t by (metis append_eq_append_conv cleared_def len_def length_append length_replicate)
  have "cleared ! k = 0"
  proof (cases "k < len")
    case True
    then show ?thesis by (simp add: cleared_def nth_append)
  next
    case False
    then have "out ! k = 0" using assms(4) by (simp add: k_def len_def)
    with False t show ?thesis by (metis cleared_def len_def length_replicate nth_append)
  qed
  then have d: "drop k cleared = 0 # drop (Suc k) cleared"
    using assms(3) lc by (simp add: Cons_nth_drop_Suc [symmetric] k_def)
  define ds where "ds = map digit_char (digits 10 n)"
  have nz: "0 \<notin> set ds"
    using digit_char_nonzero digits_bound [of _ 10 n] by (force simp: ds_def)
  have "tostring_loop n cleared 0 = Inr (ds @ 0 # drop (Suc k) cleared)"
    using tostring_loop_digits [of n cleared "[]"] d assms(3) lc by (simp add: ds_def k_def)
  moreover have "reverse (ds @ 0 # drop (Suc k) cleared) = Inr (rev ds @ 0 # drop (Suc k) cleared)"
    using nz by (rule reverse_string)
  ultimately have "tostring n out = Inr (rev ds @ 0 # drop (Suc k) cleared, 1)"
    using assms(1,2) cl by (simp add: tostring_def strlen_eq Let_def len_def)
  moreover have "cstr (rev ds @ 0 # drop (Suc k) cleared) = rev ds"
    using nz by (intro cstr_append) simp
  moreover have "hd (rev ds) \<noteq> 48"
  proof -
    have ne: "digits 10 n \<noteq> []" using assms(2) by (simp add: digits_empty)
    then have "hd (rev ds) = digit_char (last (digits 10 n))"
      by (simp add: ds_def hd_rev last_map)
    moreover have "last (digits 10 n) < 10" using ne digits_bound by (meson last_in_set)
    then have "unat (digit_char (last (digits 10 n)) - 48) \<noteq> 0"
      using unat_digit_char last_digits [of 10 n] assms(2) by simp
    ultimately show ?thesis by auto
  qed
  moreover have "length (rev ds @ 0 # drop (Suc k) cleared) = length out"
    using assms(3) lc by (simp add: ds_def k_def)
  ultimately show ?thesis
    using dec_value_digits by (auto simp: ds_def)
qed

theorem tostring_correct_witness:
  "\<exists>out'. tostring 207 [65, 0, 0, 0, 9] = Inr (out', 1) \<and> dec_value (cstr out') = 207"
proof -
  have "length (digits 10 207) = 3" by (simp add: digits.simps)
  with tostring_correct [of "[65, 0, 0, 0, 9]" 207] show ?thesis
    by (auto simp: terminated_def)
qed

text \<open>
  \<open>tostring\<close> writes no terminator of its own: what follows the digits in the buffer becomes part
  of the number. For 42, a buffer that holds the empty string and then a stale digit 7 reads 742.
\<close>

theorem tostring_keeps_stale_bytes:
  "tostring 42 [0, 9, 55, 0] = Inr ([55, 52, 50, 0], 1) \<and> dec_value [55, 52, 50] = 742"
  by (simp add: tostring_def strlen_def strlen_from.simps tostring_loop.simps reverse_def
      reverse_loop.simps xor_swap_def digit_char_def dec_value_def digits_value_def Let_def)

text \<open>
  \<open>strcmp\<close> on two terminated strings returns, whatever follows their terminators; it is 0
  exactly when the strings are equal, and swapping the arguments negates it.
\<close>

theorem strcmp_correct:
  assumes "terminated s1" and "terminated s2"
  shows "\<exists>c. strcmp s1 s2 = Inr c \<and> (c = 0 \<longleftrightarrow> cstr s1 = cstr s2) \<and> strcmp s2 s1 = Inr (- c) \<and>
    c \<in> {- 1, 0, 1}"
proof -
  have "signed_cmp xs ys \<in> {- 1, 0, 1}" for xs ys
    by (induction xs ys rule: signed_cmp.induct) auto
  then show ?thesis
    using strcmp_eq [OF assms] strcmp_eq [OF assms(2,1)] signed_cmp_0
      signed_cmp_swap [OF cstr_no_zero cstr_no_zero, of s1 s2] by auto
qed

theorem strcmp_correct_witness:
  "\<exists>c. strcmp [97, 98, 0, 7] [97, 99, 0] = Inr c \<and> c \<noteq> 0"
proof -
  have "terminated [97, 98, 0, 7]" "terminated [97, 99, 0]" by (simp_all add: terminated_def)
  moreover have "cstr [97, 98, 0, 7] \<noteq> cstr [97, 99, 0]" by (simp add: cstr_def)
  ultimately show ?thesis using strcmp_correct by metis
qed

end
