(* ===== verification/String_Buf.thy ===== *)
theory String_Buf
  imports C_Strings
begin

text \<open>
  The growing string of mutils/impl/string.c and the two printers that use it, \<open>c_str\<close> and
  \<open>hex_str\<close>. \<open>kmalloc\<close> appears as an argument, \<open>alloc\<close>: the contents of the block it returns for a
  size, of that length and with whatever bytes the heap held, or \<open>None\<close> for \<open>NULL\<close>. Blocks given
  back to \<open>kfree\<close> are not read again, so nothing is kept of them.
\<close>

type_synonym allocator = "nat \<Rightarrow> cbuf option"

definition proper_alloc :: "allocator \<Rightarrow> bool" where
  "proper_alloc alloc \<longleftrightarrow> (\<forall>n s. alloc n = Some s \<longrightarrow> length s = n)"

definition STRING_ALLOC_LENGTH :: nat where [simp]: "STRING_ALLOC_LENGTH = 64"

record string_t =
  s_str :: cbuf
  s_length :: nat
  s_alloc_length :: nat

text \<open>\<open>memcpy (dst + at, src, n)\<close> inside one object.\<close>

definition copy_into :: "cbuf \<Rightarrow> nat \<Rightarrow> u8 list \<Rightarrow> cbuf res" where
  "copy_into dst at src =
     (if at + length src \<le> length dst
      then Inr (take at dst @ src @ drop (at + length src) dst) else Inl OutOfBounds)"

definition string_grow :: "allocator \<Rightarrow> string_t \<Rightarrow> string_t res" where
  "string_grow alloc s =
     (let n = s_alloc_length s + STRING_ALLOC_LENGTH in
      case alloc n of None \<Rightarrow> Inl NullDeref
      | Some newstr \<Rightarrow>
          (case copy_into newstr 0 (take (s_length s) (s_str s)) of Inl e \<Rightarrow> Inl e
           | Inr newstr \<Rightarrow> Inr (s\<lparr>s_alloc_length := n, s_str := newstr\<rparr>)))"

definition string_append :: "allocator \<Rightarrow> string_t \<Rightarrow> u8 list \<Rightarrow> string_t res" where
  "string_append alloc s str =
     (case (if s_alloc_length s - s_length s < length str + 1 then string_grow alloc s else Inr s) of
        Inl e \<Rightarrow> Inl e
      | Inr s \<Rightarrow>
          (case copy_into (s_str s) (s_length s) str of Inl e \<Rightarrow> Inl e
           | Inr buf \<Rightarrow>
               let n = s_length s + length str in
               if n < length buf then Inr (s\<lparr>s_str := buf[n := 0], s_length := n\<rparr>)
               else Inl OutOfBounds))"

definition newString :: "allocator \<Rightarrow> string_t res" where
  "newString alloc =
     (case alloc STRING_ALLOC_LENGTH of None \<Rightarrow> Inl NullDeref
      | Some buf \<Rightarrow>
          Inr \<lparr>s_str = buf, s_length = 0, s_alloc_length = STRING_ALLOC_LENGTH\<rparr>)"

text \<open>The object as its users see it: the bytes appended so far.\<close>

definition string_ok :: "string_t \<Rightarrow> u8 list \<Rightarrow> bool" where
  "string_ok s xs \<longleftrightarrow> s_alloc_length s = length (s_str s) \<and> s_length s = length xs \<and>
     take (length xs) (s_str s) = xs \<and> length xs < length (s_str s) \<and>
     (xs \<noteq> [] \<longrightarrow> s_str s ! length xs = 0)"

lemma newString_ok:
  assumes "proper_alloc alloc" and "alloc 64 = Some buf"
  shows "\<exists>s. newString alloc = Inr s \<and> string_ok s [] \<and> s_str s = buf"
proof -
  have "length buf = 64" using assms unfolding proper_alloc_def by blast
  with assms(2) show ?thesis by (auto simp: newString_def string_ok_def)
qed

lemma string_grow_ok:
  assumes "proper_alloc alloc" and "string_ok s xs" and "alloc (s_alloc_length s + 64) = Some buf"
  shows "\<exists>s'. string_grow alloc s = Inr s' \<and> s_length s' = length xs \<and>
    s_alloc_length s' = length (s_str s) + 64 \<and> length (s_str s') = length (s_str s) + 64 \<and>
    take (length xs) (s_str s') = xs"
proof -
  have "length buf = s_alloc_length s + 64" using assms unfolding proper_alloc_def by blast
  with assms show ?thesis
    by (auto simp: string_grow_def string_ok_def copy_into_def Let_def)
qed

lemma append_in_place:
  assumes "s_length s = length xs" and "take (length xs) (s_str s) = xs"
    and "length xs + length str < length (s_str s)"
  shows "\<exists>buf. copy_into (s_str s) (s_length s) str = Inr buf \<and> length buf = length (s_str s) \<and>
    take (length xs + length str) buf = xs @ str"
  using assms by (auto simp: copy_into_def)

lemma string_append_ok:
  assumes alloc: "proper_alloc alloc" "\<And>n. alloc n \<noteq> None" and ok: "string_ok s xs"
    and len: "length str \<le> 64"
  shows "\<exists>s'. string_append alloc s str = Inr s' \<and> string_ok s' (xs @ str) \<and>
    s_str s' ! (length xs + length str) = 0"
proof -
  let ?cond = "s_alloc_length s - s_length s < length str + 1"
  obtain t where t: "(if ?cond then string_grow alloc s else Inr s) = Inr t"
    "s_length t = length xs" "s_alloc_length t = length (s_str t)" "take (length xs) (s_str t) = xs"
    "length xs + length str < length (s_str t)"
  proof (cases ?cond)
    case True
    obtain buf where "alloc (s_alloc_length s + 64) = Some buf" using alloc(2) by blast
    with string_grow_ok [OF alloc(1) ok] obtain t where "string_grow alloc s = Inr t"
      "s_length t = length xs" "s_alloc_length t = length (s_str s) + 64"
      "length (s_str t) = length (s_str s) + 64" "take (length xs) (s_str t) = xs"
      by blast
    with True ok len show ?thesis by (intro that [of t]) (auto simp: string_ok_def)
  next
    case False
    with ok show ?thesis by (intro that [of s]) (auto simp: string_ok_def)
  qed
  from append_in_place [OF t(2,4,5)] obtain buf where
    buf: "copy_into (s_str t) (s_length t) str = Inr buf" "length buf = length (s_str t)"
    "take (length xs + length str) buf = xs @ str" by blast
  define n where "n = length xs + length str"
  have "take n (buf[n := 0]) = xs @ str" using buf(3) by (simp add: n_def take_update_cancel)
  moreover have "n < length buf" using t(5) buf(2) by (simp add: n_def)
  ultimately show ?thesis
    using t buf by (simp add: string_append_def string_ok_def Let_def n_def)
qed

text \<open>
  Appending at most 64 bytes works in every state of a string, whether or not the buffer has to
  grow: the new bytes follow the old ones, a terminator follows them, and nothing is written
  outside the buffer.
\<close>

theorem string_append_correct:
  assumes "proper_alloc alloc" and "\<And>n. alloc n \<noteq> None" and "string_ok s xs" and "length str \<le> 64"
    and "0 \<notin> set (xs @ str)"
  shows "\<exists>s'. string_append alloc s str = Inr s' \<and> string_ok s' (xs @ str) \<and> cstr (s_str s') = xs @ str"
proof -
  obtain s' where s': "string_append alloc s str = Inr s'" "string_ok s' (xs @ str)"
    "s_str s' ! (length xs + length str) = 0"
    using string_append_ok [OF assms(1-4)] by blast
  define n where "n = length (xs @ str)"
  have "take n (s_str s') = xs @ str" "n < length (s_str s')" "s_str s' ! n = 0"
    using s'(2,3) by (simp_all add: string_ok_def n_def)
  then have "s_str s' = (xs @ str) @ 0 # drop (Suc n) (s_str s')"
    by (metis id_take_nth_drop)
  with assms(5) have "cstr (s_str s') = xs @ str" by (metis cstr_append)
  with s' show ?thesis by blast
qed

definition junk_alloc :: allocator where
  "junk_alloc n = Some (replicate n 7)"

lemma junk_alloc_proper: "proper_alloc junk_alloc" "junk_alloc n \<noteq> None"
  by (auto simp: proper_alloc_def junk_alloc_def)

theorem string_append_correct_witness:
  "\<exists>s s'. newString junk_alloc = Inr s \<and> string_append junk_alloc s [72, 105] = Inr s' \<and>
     cstr (s_str s') = [72, 105]"
proof -
  obtain s where s: "newString junk_alloc = Inr s" "string_ok s []"
    using newString_ok [OF junk_alloc_proper(1)] by (auto simp: junk_alloc_def)
  from string_append_correct [OF junk_alloc_proper s(2), of "[72, 105]"] s(1)
  show ?thesis by auto
qed

text \<open>
  The buffer grows by 64 bytes whatever is appended, so a longer piece runs past its end: on a new
  string every append of more than 127 bytes writes outside the allocation.
\<close>

theorem string_append_overruns:
  assumes "proper_alloc alloc" and "\<And>n. alloc n \<noteq> None" and "127 < length str"
  shows "\<exists>s. newString alloc = Inr s \<and> string_append alloc s str = Inl OutOfBounds"
proof -
  obtain buf where "alloc 64 = Some buf" using assms(2) by blast
  then obtain s where s: "newString alloc = Inr s" "string_ok s []" "length (s_str s) = 64"
    using newString_ok [OF assms(1)] assms(1) unfolding proper_alloc_def by metis
  obtain nb where "alloc (s_alloc_length s + 64) = Some nb" using assms(2) by blast
  then obtain t where t: "string_grow alloc s = Inr t" "s_length t = 0" "length (s_str t) = 128"
    using string_grow_ok [OF assms(1) s(2)] s(3) by auto
  have "s_alloc_length s - s_length s < length str + 1"
    using s assms(3) by (simp add: string_ok_def)
  then show ?thesis
    using s(1) t assms(3)
    by (auto simp: string_append_def copy_into_def Let_def split: if_splits)
qed

theorem string_append_overruns_witness:
  "\<exists>s. newString junk_alloc = Inr s \<and> string_append junk_alloc s (replicate 200 65) = Inl OutOfBounds"
  using string_append_overruns [OF junk_alloc_proper, of "replicate 200 65"] by simp

section \<open>c_str and hex_str\<close>

function c_str_loop :: "allocator \<Rightarrow> string_t \<Rightarrow> nat \<Rightarrow> string_t res" where
  "c_str_loop alloc out n =
     (if n > 0 then
        (case string_append alloc out [digit_char (n mod 10)] of Inl e \<Rightarrow> Inl e
         | Inr out \<Rightarrow> c_str_loop alloc out ((n - n mod 10) div 10))
      else Inr out)"
  by pat_completeness auto
termination by (relation "measure (\<lambda>(_, _, n). n)") (auto simp: div10_step)

declare c_str_loop.simps [simp del]

definition c_str :: "allocator \<Rightarrow> nat \<Rightarrow> cbuf res" where
  "c_str alloc n =
     (case newString alloc of Inl e \<Rightarrow> Inl e
      | Inr out \<Rightarrow>
          (case c_str_loop alloc out n of Inl e \<Rightarrow> Inl e | Inr out \<Rightarrow> reverse (s_str out)))"

definition hex_char :: "nat \<Rightarrow> u8" where
  "hex_char c = (if c < 10 then of_nat c + 48 else of_nat c - 10 + 65)"

function hex_str_loop :: "allocator \<Rightarrow> string_t \<Rightarrow> nat \<Rightarrow> string_t res" where
  "hex_str_loop alloc out n =
     (if n > 0 then
        (case string_append alloc out [hex_char (n mod 16)] of Inl e \<Rightarrow> Inl e
         | Inr out \<Rightarrow> hex_str_loop alloc out (n div 16))
      else Inr out)"
  by pat_completeness auto
termination by (relation "measure (\<lambda>(_, _, n). n)") auto

declare hex_str_loop.simps [simp del]

definition hex_str :: "allocator \<Rightarrow> nat \<Rightarrow> cbuf res" where
  "hex_str alloc n =
     (case newString alloc of Inl e \<Rightarrow> Inl e
      | Inr out \<Rightarrow>
          (case (if n = 0 then string_append alloc out [48] else hex_str_loop alloc out n) of
             Inl e \<Rightarrow> Inl e | Inr out \<Rightarrow> reverse (s_str out)))"

lemma digits_0 [simp]: "digits b 0 = []"
  by (subst digits.simps) simp

text \<open>Both loops append the digits of the number, the last one first.\<close>

lemma digits_Cons: "n > 0 \<Longrightarrow> 2 \<le> b \<Longrightarrow> digits b n = n mod b # digits b (n div b)"
  by (subst digits.simps) simp

lemma c_str_loop_ok:
  assumes "proper_alloc alloc" and "\<And>n. alloc n \<noteq> None"
  shows "string_ok out xs \<Longrightarrow> \<exists>out'. c_str_loop alloc out n = Inr out' \<and>
    string_ok out' (xs @ map digit_char (digits 10 n))"
proof (induction n arbitrary: out xs rule: less_induct)
  case (less n)
  show ?case
  proof (cases "n > 0")
    case False
    with less.prems show ?thesis by (subst c_str_loop.simps) (simp add: digits_empty)
  next
    case True
    obtain t where t: "string_append alloc out [digit_char (n mod 10)] = Inr t"
      "string_ok t (xs @ [digit_char (n mod 10)])"
      using string_append_ok [OF assms less.prems, of "[digit_char (n mod 10)]"] by auto
    from less.IH [OF _ t(2), of "n div 10"] True t(1) show ?thesis
      by (subst c_str_loop.simps) (simp add: div10_step digits_Cons)
  qed
qed

lemma hex_str_loop_ok:
  assumes "proper_alloc alloc" and "\<And>n. alloc n \<noteq> None"
  shows "string_ok out xs \<Longrightarrow> \<exists>out'. hex_str_loop alloc out n = Inr out' \<and>
    string_ok out' (xs @ map hex_char (digits 16 n))"
proof (induction n arbitrary: out xs rule: less_induct)
  case (less n)
  show ?case
  proof (cases "n > 0")
    case False
    with less.prems show ?thesis by (subst hex_str_loop.simps) (simp add: digits_empty)
  next
    case True
    obtain t where t: "string_append alloc out [hex_char (n mod 16)] = Inr t"
      "string_ok t (xs @ [hex_char (n mod 16)])"
      using string_append_ok [OF assms less.prems, of "[hex_char (n mod 16)]"] by auto
    from less.IH [OF _ t(2), of "n div 16"] True t(1) show ?thesis
      by (subst hex_str_loop.simps) (simp add: digits_Cons)
  qed
qed

lemma hex_char_value:
  assumes "d < 16"
  shows "hex_char d \<noteq> 0" and "unat (if hex_char d < 65 then hex_char d - 48 else hex_char d - 55) = d"
proof -
  have "d = 0 \<or> d = 1 \<or> d = 2 \<or> d = 3 \<or> d = 4 \<or> d = 5 \<or> d = 6 \<or> d = 7 \<or> d = 8 \<or> d = 9 \<or>
      d = 10 \<or> d = 11 \<or> d = 12 \<or> d = 13 \<or> d = 14 \<or> d = 15"
    using assms by presburger
  then show "hex_char d \<noteq> 0"
    and "unat (if hex_char d < 65 then hex_char d - 48 else hex_char d - 55) = d"
    unfolding hex_char_def by auto
qed

definition hex_value :: "u8 list \<Rightarrow> nat" where
  "hex_value cs = digits_value 16 (map (\<lambda>c. unat (if c < 65 then c - 48 else c - 55)) (rev cs))"

lemma hex_value_digits: "hex_value (rev (map hex_char (digits 16 n))) = n"
proof -
  have "map (\<lambda>c. unat (if c < 65 then c - 48 else c - 55)) (map hex_char (digits 16 n)) = digits 16 n"
    using digits_bound [of _ 16 n] hex_char_value(2) by (simp add: map_idI)
  then show ?thesis by (simp add: hex_value_def digits_value_digits)
qed

text \<open>A non-empty string object reversed in place.\<close>

lemma reverse_object:
  assumes "string_ok s xs" and "xs \<noteq> []" and "0 \<notin> set xs"
  shows "\<exists>buf. reverse (s_str s) = Inr buf \<and> cstr buf = rev xs \<and> terminated buf"
proof -
  have "take (length xs) (s_str s) = xs" "length xs < length (s_str s)" "s_str s ! length xs = 0"
    using assms(1,2) by (simp_all add: string_ok_def)
  then have "s_str s = xs @ 0 # drop (Suc (length xs)) (s_str s)"
    by (metis id_take_nth_drop)
  then have "reverse (s_str s) = Inr (rev xs @ 0 # drop (Suc (length xs)) (s_str s))"
    using reverse_string [OF assms(3)] by metis
  moreover have "cstr (rev xs @ 0 # drop (Suc (length xs)) (s_str s)) = rev xs"
    using assms(3) by (intro cstr_append) simp
  moreover have "terminated (rev xs @ 0 # drop (Suc (length xs)) (s_str s))" by (simp add: terminated_def)
  ultimately show ?thesis by blast
qed

text \<open>The strings the two printers return.\<close>

definition dec_string :: "nat \<Rightarrow> u8 list" where
  "dec_string n = rev (map digit_char (digits 10 n))"

definition hex_string :: "nat \<Rightarrow> u8 list" where
  "hex_string n = (if n = 0 then [48] else rev (map hex_char (digits 16 n)))"

lemma c_str_ok:
  assumes "proper_alloc alloc" and "\<And>k. alloc k \<noteq> None" and "0 < n"
  shows "\<exists>buf. c_str alloc n = Inr buf \<and> cstr buf = dec_string n \<and> terminated buf"
proof -
  obtain s where s: "newString alloc = Inr s" "string_ok s []"
    using newString_ok [OF assms(1)] assms(2) by blast
  obtain out where out: "c_str_loop alloc s n = Inr out" "string_ok out (map digit_char (digits 10 n))"
    using c_str_loop_ok [OF assms(1,2) s(2), of n] by auto
  have "map digit_char (digits 10 n) \<noteq> []" using assms(3) by (simp add: digits_empty)
  moreover have "0 \<notin> set (map digit_char (digits 10 n))"
    using digit_char_nonzero digits_bound [of _ 10 n] by force
  ultimately obtain buf where "reverse (s_str out) = Inr buf" "terminated buf"
    "cstr buf = rev (map digit_char (digits 10 n))"
    using reverse_object [OF out(2)] by blast
  with s(1) out(1) show ?thesis by (auto simp: c_str_def dec_string_def)
qed

text \<open>
  \<open>c_str\<close> of every positive number returns a terminated string of decimal digits, whatever the
  heap block held before; reading it back gives the number.
\<close>

theorem c_str_roundtrip:
  assumes "proper_alloc alloc" and "\<And>k. alloc k \<noteq> None" and "0 < n"
  shows "\<exists>buf. c_str alloc n = Inr buf \<and> terminated buf \<and> dec_value (cstr buf) = n"
  using c_str_ok [OF assms] dec_value_digits [of n] by (auto simp: dec_string_def)

theorem c_str_roundtrip_witness: "\<exists>buf. c_str junk_alloc 4096 = Inr buf \<and> dec_value (cstr buf) = 4096"
  using c_str_roundtrip [OF junk_alloc_proper, of 4096] by auto

text \<open>
  \<open>c_str\<close> of 0 appends nothing and no terminator either: it reverses and returns the fresh heap
  block as it is, and reads past its end when the block holds no zero byte.
\<close>

theorem c_str_zero_unterminated:
  assumes "proper_alloc alloc" and "alloc 64 = Some buf"
  shows "c_str alloc 0 = (if terminated buf then Inr (rev (cstr buf) @ drop (length (cstr buf)) buf)
    else Inl OutOfBounds)"
proof -
  obtain s where s: "newString alloc = Inr s" "s_str s = buf"
    using newString_ok [OF assms] by blast
  then show ?thesis
    using reverse_eq [of buf] by (simp add: c_str_def c_str_loop.simps reverse_def strlen_eq)
qed

theorem c_str_zero_unterminated_witness: "c_str junk_alloc 0 = Inl OutOfBounds"
proof -
  have "junk_alloc 64 = Some (replicate 64 7)" by (simp add: junk_alloc_def)
  moreover have "\<not> terminated (replicate 64 7)" by (simp add: terminated_def)
  ultimately show ?thesis using c_str_zero_unterminated [OF junk_alloc_proper(1)] by simp
qed

lemma hex_str_ok:
  assumes "proper_alloc alloc" and "\<And>k. alloc k \<noteq> None"
  shows "\<exists>buf. hex_str alloc n = Inr buf \<and> cstr buf = hex_string n \<and> terminated buf"
proof -
  define ds where "ds = (if n = 0 then [48] else map hex_char (digits 16 n))"
  obtain s where s: "newString alloc = Inr s" "string_ok s []"
    using newString_ok [OF assms(1)] assms(2) by blast
  obtain out where out: "(if n = 0 then string_append alloc s [48] else hex_str_loop alloc s n) = Inr out"
    "string_ok out ds"
  proof (cases "n = 0")
    case True
    with string_append_ok [OF assms s(2), of "[48]"] that show ?thesis by (auto simp: ds_def)
  next
    case False
    with hex_str_loop_ok [OF assms s(2), of n] that show ?thesis by (auto simp: ds_def)
  qed
  have "0 \<notin> set ds"
    using hex_char_value(1) [OF digits_bound [of _ 16 n]]
    by (cases "n = 0") (force simp: ds_def image_iff)+
  moreover have "ds \<noteq> []" by (simp add: ds_def digits_empty)
  ultimately obtain buf where "reverse (s_str out) = Inr buf" "cstr buf = rev ds" "terminated buf"
    using reverse_object [OF out(2)] by blast
  moreover have "rev ds = hex_string n" by (simp add: ds_def hex_string_def)
  ultimately show ?thesis using s(1) out(1) by (auto simp: hex_str_def)
qed

lemma hex_value_string: "hex_value (hex_string n) = n"
  using hex_value_digits [of n] by (simp add: hex_string_def hex_value_def digits_value_def)

text \<open>
  \<open>hex_str\<close> of every 64-bit number, 0 included, returns a terminated string of hexadecimal
  digits; reading it back gives the number.
\<close>

theorem hex_str_roundtrip:
  assumes "proper_alloc alloc" and "\<And>k. alloc k \<noteq> None" and "n < 2 ^ 64"
  shows "\<exists>buf. hex_str alloc n = Inr buf \<and> hex_value (cstr buf) = n \<and> length (cstr buf) \<le> 16"
proof -
  obtain buf where "hex_str alloc n = Inr buf" "cstr buf = hex_string n" using hex_str_ok [OF assms(1,2)] by blast
  moreover have "length (hex_string n) \<le> 16"
    using length_digits [of 16 n 16] assms(3) by (simp add: hex_string_def)
  ultimately show ?thesis using hex_value_string by simp
qed

theorem hex_str_roundtrip_witness:
  "\<exists>buf. hex_str junk_alloc 0 = Inr buf \<and> hex_value (cstr buf) = 0"
  using hex_str_roundtrip [OF junk_alloc_proper, of 0] by auto

end
