(* ===== verification/Arrays.thy ===== *)
theory Arrays
  imports Prelude
begin

text \<open>
  The growing array of mutils/impl/array.c. As for the string object, \<open>kmalloc\<close> is the argument
  \<open>alloc\<close>, which gives the contents of the fresh block of cells or \<open>None\<close> for \<open>NULL\<close>; the block
  that \<open>kfree\<close> takes back is not read again. Lengths are \<open>size_t\<close>.
\<close>

type_synonym cells = "u64 list"
type_synonym cell_alloc = "nat \<Rightarrow> cells option"

definition ARRAY_ALLOC_LENGTH :: nat where [simp]: "ARRAY_ALLOC_LENGTH = 8"

record Array_t =
  a_length :: nat
  a_arr :: cells
  a_alloc_length :: nat

definition get_cell :: "Array_t \<Rightarrow> nat \<Rightarrow> u64 res" where
  "get_cell a i = (if i < length (a_arr a) then Inr (a_arr a ! i) else Inl OutOfBounds)"

definition set_cell :: "Array_t \<Rightarrow> nat \<Rightarrow> u64 \<Rightarrow> Array_t res" where
  "set_cell a i v =
     (if i < length (a_arr a) then Inr (a\<lparr>a_arr := (a_arr a)[i := v]\<rparr>) else Inl OutOfBounds)"

definition array_realloc :: "cell_alloc \<Rightarrow> Array_t \<Rightarrow> Array_t res" where
  "array_realloc alloc a =
     (case alloc (a_alloc_length a) of None \<Rightarrow> Inl NullDeref
      | Some narr \<Rightarrow>
          if a_length a \<le> length narr \<and> a_length a \<le> length (a_arr a)
          then Inr (a\<lparr>a_arr := take (a_length a) (a_arr a) @ drop (a_length a) narr\<rparr>)
          else Inl OutOfBounds)"

definition array_resize :: "cell_alloc \<Rightarrow> Array_t \<Rightarrow> Array_t res" where
  "array_resize alloc a =
     (if a_length a \<ge> a_alloc_length a then
        array_realloc alloc (a\<lparr>a_alloc_length := add64 (a_alloc_length a) ARRAY_ALLOC_LENGTH\<rparr>)
      else if a_length a < sub64 (a_alloc_length a) ARRAY_ALLOC_LENGTH then
        array_realloc alloc (a\<lparr>a_alloc_length := sub64 (a_alloc_length a) ARRAY_ALLOC_LENGTH\<rparr>)
      else Inr a)"

definition array_push :: "cell_alloc \<Rightarrow> Array_t \<Rightarrow> u64 \<Rightarrow> Array_t res" where
  "array_push alloc a value =
     (case set_cell a (a_length a) value of Inl e \<Rightarrow> Inl e
      | Inr a \<Rightarrow> array_resize alloc (a\<lparr>a_length := add64 (a_length a) 1\<rparr>))"

text \<open>The loop of \<open>array_insert\<close>, from \<open>i\<close> down to \<open>index\<close>.\<close>

fun shift_up :: "Array_t \<Rightarrow> nat \<Rightarrow> nat \<Rightarrow> Array_t res" where
  "shift_up a index 0 = Inr a"
| "shift_up a index (Suc i) =
     (if Suc i > index then
        (case get_cell a i of Inl e \<Rightarrow> Inl e
         | Inr v \<Rightarrow> (case set_cell a (Suc i) v of Inl e \<Rightarrow> Inl e | Inr a \<Rightarrow> shift_up a index i))
      else Inr a)"

definition array_insert :: "cell_alloc \<Rightarrow> Array_t \<Rightarrow> nat \<Rightarrow> u64 \<Rightarrow> Array_t res" where
  "array_insert alloc a index value =
     (if index \<ge> a_length a then Inr a
      else case shift_up a index (a_length a) of Inl e \<Rightarrow> Inl e
      | Inr a \<Rightarrow>
          (case set_cell a index value of Inl e \<Rightarrow> Inl e
           | Inr a \<Rightarrow> array_resize alloc (a\<lparr>a_length := add64 (a_length a) 1\<rparr>)))"

definition array_pop :: "cell_alloc \<Rightarrow> Array_t \<Rightarrow> (Array_t \<times> u64) res" where
  "array_pop alloc a =
     (case array_resize alloc (a\<lparr>a_length := sub64 (a_length a) 1\<rparr>) of Inl e \<Rightarrow> Inl e
      | Inr a \<Rightarrow> (case get_cell a (a_length a) of Inl e \<Rightarrow> Inl e | Inr v \<Rightarrow> Inr (a, v)))"

function shift_down :: "Array_t \<Rightarrow> nat \<Rightarrow> Array_t res" where
  "shift_down a i =
     (if i < a_length a - 1 then
        (case get_cell a (i + 1) of Inl e \<Rightarrow> Inl e
         | Inr v \<Rightarrow> (case set_cell a i v of Inl e \<Rightarrow> Inl e | Inr a' \<Rightarrow> shift_down a' (i + 1)))
      else Inr a)"
  by pat_completeness auto
termination
  by (relation "measure (\<lambda>(a, i). a_length a - i)") (auto simp: set_cell_def split: if_splits)

declare shift_down.simps [simp del]

definition array_pull :: "cell_alloc \<Rightarrow> Array_t \<Rightarrow> nat \<Rightarrow> (Array_t \<times> u64) res" where
  "array_pull alloc a index =
     (if index \<ge> a_length a then Inr (a, 0)
      else case get_cell a index of Inl e \<Rightarrow> Inl e
      | Inr value \<Rightarrow>
          (case shift_down a index of Inl e \<Rightarrow> Inl e
           | Inr a \<Rightarrow>
               (case array_resize alloc (a\<lparr>a_length := sub64 (a_length a) 1\<rparr>) of Inl e \<Rightarrow> Inl e
                | Inr a \<Rightarrow> Inr (a, value))))"

definition newArray :: "cell_alloc \<Rightarrow> Array_t res" where
  "newArray alloc =
     (case alloc ARRAY_ALLOC_LENGTH of None \<Rightarrow> Inl NullDeref
      | Some arr \<Rightarrow> Inr \<lparr>a_length = 0, a_arr = arr, a_alloc_length = ARRAY_ALLOC_LENGTH\<rparr>)"

section \<open>The array as a list\<close>

definition proper_cells :: "cell_alloc \<Rightarrow> bool" where
  "proper_cells alloc \<longleftrightarrow> (\<forall>n. \<exists>s. alloc n = Some s \<and> length s = n)"

text \<open>The block is the number of cells in use rounded up to the next multiple of 8 above it.\<close>

definition array_ok :: "Array_t \<Rightarrow> u64 list \<Rightarrow> bool" where
  "array_ok a xs \<longleftrightarrow> a_length a = length xs \<and> a_alloc_length a = length (a_arr a) \<and>
     take (length xs) (a_arr a) = xs \<and> length (a_arr a) = 8 * (length xs div 8 + 1) \<and>
     length xs < 2 ^ 60"

text \<open>
  All operations change the contents and the length and then resize; \<open>filled\<close> says what they
  leave before that, the block still having the size for the old length.
\<close>

definition filled :: "Array_t \<Rightarrow> nat \<Rightarrow> u64 list \<Rightarrow> bool" where
  "filled a n xs \<longleftrightarrow> a_length a = length xs \<and> a_alloc_length a = length (a_arr a) \<and>
     take (length xs) (a_arr a) = xs \<and> length xs \<le> length (a_arr a) \<and>
     length (a_arr a) = 8 * (n div 8 + 1) \<and> length xs < 2 ^ 60"

lemma div8_le: "8 * (n div 8) \<le> (n :: nat)" and div8_less: "(n :: nat) < 8 * (n div 8 + 1)"
  by (simp, metis add.commute div_mult_mod_eq mod_less_divisor mult.commute mult_Suc_right
      nat_add_left_cancel_less plus_1_eq_Suc zero_less_numeral)

lemma div8_unique: "8 * q \<le> n \<Longrightarrow> n < 8 * (q + 1) \<Longrightarrow> n div 8 = (q :: nat)"
  by (rule div_nat_eqI) simp_all

lemma array_realloc_ok:
  assumes "proper_cells alloc" and "a_length a = length xs" and "take (length xs) (a_arr a) = xs"
    and "length xs \<le> length (a_arr a)" and "length xs \<le> n"
  shows "\<exists>a' s. array_realloc alloc (a\<lparr>a_alloc_length := n\<rparr>) = Inr a' \<and> a_length a' = length xs \<and>
    a_alloc_length a' = n \<and> length (a_arr a') = n \<and> take (length xs) (a_arr a') = xs \<and>
    alloc n = Some s \<and> drop (length xs) (a_arr a') = drop (length xs) s"
proof -
  obtain s where "alloc n = Some s" "length s = n" using assms(1) unfolding proper_cells_def by blast
  with assms(2-5) show ?thesis by (auto simp: array_realloc_def)
qed

lemma array_resize_ok:
  assumes "proper_cells alloc" and "filled a n xs"
    and "length xs = n + 1 \<or> length xs = n \<or> length xs + 1 = n"
  shows "\<exists>a'. array_resize alloc a = Inr a' \<and> array_ok a' xs"
proof -
  let ?k = "length (a_arr a)"
  have a: "a_length a = length xs" "a_alloc_length a = ?k" "take (length xs) (a_arr a) = xs"
    "length xs \<le> ?k" "?k = 8 * (n div 8 + 1)" "length xs < 2 ^ 60"
    using assms(2) by (simp_all add: filled_def)
  have w: "add64 ?k 8 = ?k + 8" "sub64 ?k 8 = ?k - 8"
    using a(5,6) assms(3) by (auto simp: wrap_simps)
  consider "length xs \<ge> ?k" | "length xs < ?k" "length xs < ?k - 8" | "length xs < ?k" "\<not> length xs < ?k - 8"
    by linarith
  then show ?thesis
  proof cases
    case 1
    then have eq: "?k + 8 = 8 * (length xs div 8 + 1)" using a(4,5) by simp
    have "array_resize alloc a = array_realloc alloc (a\<lparr>a_alloc_length := ?k + 8\<rparr>)"
      using 1 a(1,2) w(1) by (simp add: array_resize_def)
    moreover have "length xs \<le> ?k + 8" using a(4) by simp
    from array_realloc_ok [OF assms(1) a(1,3,4) this]
    obtain a' where "array_realloc alloc (a\<lparr>a_alloc_length := ?k + 8\<rparr>) = Inr a'"
      "a_length a' = length xs" "a_alloc_length a' = ?k + 8" "length (a_arr a') = ?k + 8"
      "take (length xs) (a_arr a') = xs"
      by blast
    moreover from this have "array_ok a' xs" using eq a(6) by (simp only: array_ok_def)
    ultimately show ?thesis by metis
  next
    case 2
    then have "length xs < 8 * (n div 8)" using a(5) by simp
    then have l: "length xs + 1 = 8 * (n div 8)" using assms(3) div8_le [of n] by linarith
    then have "length xs div 8 = n div 8 - 1"
      by (cases "n div 8") (auto intro: div8_unique)
    with l a(5) have eq: "?k - 8 = 8 * (length xs div 8 + 1)" by simp
    have "array_resize alloc a = array_realloc alloc (a\<lparr>a_alloc_length := ?k - 8\<rparr>)"
      using 2 a(1,2) w(2) by (simp add: array_resize_def)
    moreover have "length xs \<le> ?k - 8" using 2(2) by simp
    from array_realloc_ok [OF assms(1) a(1,3,4) this]
    obtain a' where "array_realloc alloc (a\<lparr>a_alloc_length := ?k - 8\<rparr>) = Inr a'"
      "a_length a' = length xs" "a_alloc_length a' = ?k - 8" "length (a_arr a') = ?k - 8"
      "take (length xs) (a_arr a') = xs"
      by blast
    moreover from this have "array_ok a' xs" using eq a(6) by (simp only: array_ok_def)
    ultimately show ?thesis by metis
  next
    case 3
    then have "length xs div 8 = n div 8" using a(5) by (intro div8_unique) simp_all
    with a(5) have "?k = 8 * (length xs div 8 + 1)" by simp
    then have "array_ok a xs" using a by (simp only: array_ok_def)
    moreover have "array_resize alloc a = Inr a"
      using 3 a(1,2) w(2) by (simp add: array_resize_def)
    ultimately show ?thesis by blast
  qed
qed

lemma array_ok_bound: "array_ok a xs \<Longrightarrow> length xs < length (a_arr a)"
  by (simp add: array_ok_def)

lemma newArray_ok:
  "proper_cells alloc \<Longrightarrow> \<exists>a. newArray alloc = Inr a \<and> array_ok a []"
  unfolding proper_cells_def by (auto simp: newArray_def array_ok_def dest: spec [of _ 8])

lemma array_push_ok:
  assumes "proper_cells alloc" and "array_ok a xs" and "length xs + 1 < 2 ^ 60"
  shows "\<exists>a'. array_push alloc a v = Inr a' \<and> array_ok a' (xs @ [v])"
proof -
  have len: "length xs < length (a_arr a)" using assms(2) by (rule array_ok_bound)
  define b where "b = a\<lparr>a_arr := (a_arr a)[length xs := v], a_length := length xs + 1\<rparr>"
  have "take (length xs + 1) ((a_arr a)[length xs := v]) = xs @ [v]"
    using assms(2) len by (simp add: array_ok_def take_Suc_conv_app_nth take_update_cancel)
  then have "filled b (length xs) (xs @ [v])"
    using assms(2,3) len by (simp add: filled_def array_ok_def b_def)
  from array_resize_ok [OF assms(1) this] obtain a' where
    "array_resize alloc b = Inr a'" "array_ok a' (xs @ [v])" by auto
  moreover have "array_push alloc a v = array_resize alloc b"
    using assms(2) len by (simp add: array_push_def set_cell_def array_ok_def b_def wrap_simps)
  ultimately show ?thesis by simp
qed

lemma shift_up_eq:
  assumes "n < length (a_arr a)"
  shows "shift_up a index n = Inr (a\<lparr>a_arr :=
    map (\<lambda>k. if index < k \<and> k \<le> n then a_arr a ! (k - 1) else a_arr a ! k) [0..<length (a_arr a)]\<rparr>)"
  using assms
proof (induction n arbitrary: a)
  case 0
  have "map (\<lambda>k. if index < k \<and> k \<le> 0 then a_arr a ! (k - 1) else a_arr a ! k) [0..<length (a_arr a)] = a_arr a"
    by (auto intro: nth_equalityI)
  then show ?case by simp
next
  case (Suc n)
  show ?case
  proof (cases "index < Suc n")
    case False
    have "map (\<lambda>k. if index < k \<and> k \<le> Suc n then a_arr a ! (k - 1) else a_arr a ! k) [0..<length (a_arr a)] = a_arr a"
      by (rule nth_equalityI) (use False in auto)
    with False show ?thesis by simp
  next
    case True
    let ?b = "a\<lparr>a_arr := (a_arr a)[Suc n := a_arr a ! n]\<rparr>"
    have "shift_up a index (Suc n) = shift_up ?b index n"
      using True Suc.prems by (simp add: get_cell_def set_cell_def)
    also have "\<dots> = Inr (?b\<lparr>a_arr := map (\<lambda>k. if index < k \<and> k \<le> n then a_arr ?b ! (k - 1) else a_arr ?b ! k)
        [0..<length (a_arr ?b)]\<rparr>)"
      by (rule Suc.IH) (use Suc.prems in simp)
    also have "map (\<lambda>k. if index < k \<and> k \<le> n then a_arr ?b ! (k - 1) else a_arr ?b ! k) [0..<length (a_arr ?b)] =
        map (\<lambda>k. if index < k \<and> k \<le> Suc n then a_arr a ! (k - 1) else a_arr a ! k) [0..<length (a_arr a)]"
      using True Suc.prems by (auto simp: nth_list_update)
    finally show ?thesis by simp
  qed
qed

lemma shift_down_eq:
  assumes "a_length a \<le> length (a_arr a)"
  shows "shift_down a i = Inr (a\<lparr>a_arr :=
    map (\<lambda>k. if i \<le> k \<and> k < a_length a - 1 then a_arr a ! (k + 1) else a_arr a ! k) [0..<length (a_arr a)]\<rparr>)"
  using assms
proof (induction a i rule: shift_down.induct)
  case (1 a i)
  show ?case
  proof (cases "i < a_length a - 1")
    case False
    have "map (\<lambda>k. if i \<le> k \<and> k < a_length a - 1 then a_arr a ! (k + 1) else a_arr a ! k) [0..<length (a_arr a)] = a_arr a"
      by (rule nth_equalityI) (use False in auto)
    with False show ?thesis by (subst shift_down.simps) simp
  next
    case True
    define b where "b = a\<lparr>a_arr := (a_arr a)[i := a_arr a ! (i + 1)]\<rparr>"
    have get: "get_cell a (i + 1) = Inr (a_arr a ! (i + 1))" and set: "set_cell a i (a_arr a ! (i + 1)) = Inr b"
      using True "1.prems" by (simp_all add: get_cell_def set_cell_def b_def)
    have "shift_down a i = shift_down b (i + 1)"
      using True get set by (subst shift_down.simps) simp
    also have "\<dots> = Inr (b\<lparr>a_arr := map (\<lambda>k. if i + 1 \<le> k \<and> k < a_length b - 1 then a_arr b ! (k + 1) else a_arr b ! k)
        [0..<length (a_arr b)]\<rparr>)"
      by (rule "1.IH" [OF True get set]) (use "1.prems" in \<open>simp add: b_def\<close>)
    also have "map (\<lambda>k. if i + 1 \<le> k \<and> k < a_length b - 1 then a_arr b ! (k + 1) else a_arr b ! k) [0..<length (a_arr b)] =
        map (\<lambda>k. if i \<le> k \<and> k < a_length a - 1 then a_arr a ! (k + 1) else a_arr a ! k) [0..<length (a_arr a)]"
      using True "1.prems" by (auto simp: nth_list_update b_def)
    finally show ?thesis by (simp add: b_def)
  qed
qed

lemma array_insert_ok:
  assumes "proper_cells alloc" and "array_ok a xs" and "length xs + 1 < 2 ^ 60"
  shows "\<exists>a'. array_insert alloc a i v = Inr a' \<and>
    array_ok a' (if i < length xs then take i xs @ v # drop i xs else xs)"
proof (cases "i < length xs")
  case False
  with assms(2) show ?thesis by (simp add: array_insert_def array_ok_def)
next
  case True
  let ?n = "length xs" and ?arr = "a_arr a"
  have a: "a_length a = ?n" "a_alloc_length a = length ?arr" "take ?n ?arr = xs" "?n < length ?arr"
    "length ?arr = 8 * (?n div 8 + 1)" using assms(2) array_ok_bound [OF assms(2)] by (simp_all add: array_ok_def)
  define s where "s = map (\<lambda>k. if i < k \<and> k \<le> ?n then ?arr ! (k - 1) else ?arr ! k) [0..<length ?arr]"
  have up: "shift_up a i ?n = Inr (a\<lparr>a_arr := s\<rparr>)" using shift_up_eq [OF a(4)] by (simp add: s_def)
  have nth: "k < ?n \<Longrightarrow> ?arr ! k = xs ! k" for k using a(3) by (metis nth_take)
  have new: "take (?n + 1) (s[i := v]) = take i xs @ v # drop i xs"
    using True a(4) by (intro nth_equalityI) (auto simp: s_def nth nth_append nth_list_update nth_Cons')
  define b where "b = a\<lparr>a_arr := s[i := v], a_length := ?n + 1\<rparr>"
  have "filled b ?n (take i xs @ v # drop i xs)"
    using new a assms(3) True by (simp add: filled_def b_def s_def)
  from array_resize_ok [OF assms(1) this] True obtain a' where
    "array_resize alloc b = Inr a'" "array_ok a' (take i xs @ v # drop i xs)" by auto
  moreover have "array_insert alloc a i v = array_resize alloc b"
    using True a up assms(3) by (simp add: array_insert_def set_cell_def s_def b_def wrap_simps)
  ultimately show ?thesis using True by simp
qed

lemma array_pull_ok:
  assumes "proper_cells alloc" and "array_ok a xs"
  shows "\<exists>a'. array_pull alloc a i = Inr (a', if i < length xs then xs ! i else 0) \<and>
    array_ok a' (take i xs @ drop (Suc i) xs)"
proof (cases "i < length xs")
  case False
  with assms(2) show ?thesis by (simp add: array_pull_def array_ok_def)
next
  case True
  let ?n = "length xs" and ?arr = "a_arr a" and ?ys = "take i xs @ drop (Suc i) xs"
  have a: "a_length a = ?n" "a_alloc_length a = length ?arr" "take ?n ?arr = xs" "?n < length ?arr"
    "length ?arr = 8 * (?n div 8 + 1)" "?n < 2 ^ 60" using assms(2) array_ok_bound [OF assms(2)] by (simp_all add: array_ok_def)
  define s where "s = map (\<lambda>k. if i \<le> k \<and> k < ?n - 1 then ?arr ! (k + 1) else ?arr ! k) [0..<length ?arr]"
  have down: "shift_down a i = Inr (a\<lparr>a_arr := s\<rparr>)" using shift_down_eq [of a i] a(1,4) by (simp add: s_def)
  have nth: "k < ?n \<Longrightarrow> ?arr ! k = xs ! k" for k using a(3) by (metis nth_take)
  have len: "length ?ys = ?n - 1" using True by simp
  have new: "take (length ?ys) s = ?ys"
    using True a(4) by (intro nth_equalityI) (auto simp: s_def nth nth_append)
  define b where "b = a\<lparr>a_arr := s, a_length := ?n - 1\<rparr>"
  have small: "?n - 1 \<le> length ?arr" "?n - 1 < 2 ^ 60" using a(4,6) by linarith+
  have "filled b ?n ?ys"
    using new a(1,2,5) True small unfolding filled_def b_def s_def len by simp
  moreover have "length ?ys + 1 = ?n" using True len by linarith
  ultimately obtain a' where "array_resize alloc b = Inr a'" "array_ok a' ?ys"
    using array_resize_ok [OF assms(1), of b ?n ?ys] by metis
  moreover have "get_cell a i = Inr (xs ! i)" using True a(4) nth by (simp add: get_cell_def)
  moreover have "sub64 ?n 1 = ?n - 1" using True a(6) by (intro sub64_exact) simp_all
  ultimately show ?thesis using True a(1) down by (auto simp: array_pull_def b_def)
qed

text \<open>
  C34. The array implements a list: \<open>array_push\<close> appends, \<open>array_insert\<close> inserts before an index in use and
  does nothing at any other, \<open>array_pull\<close> removes the element at an index in use and returns it, and
  returns 0 at any other. Every access is inside the block, and the block again has the size for the
  new length.
\<close>

theorem array_refines_list:
  assumes "proper_cells alloc" and "array_ok a xs" and "length xs + 1 < 2 ^ 60"
  shows "(\<exists>a'. array_push alloc a v = Inr a' \<and> array_ok a' (xs @ [v])) \<and>
    (\<exists>a'. array_insert alloc a i v = Inr a' \<and>
       array_ok a' (if i < length xs then take i xs @ v # drop i xs else xs)) \<and>
    (\<exists>a'. array_pull alloc a i = Inr (a', if i < length xs then xs ! i else 0) \<and>
       array_ok a' (take i xs @ drop (Suc i) xs))"
  using array_push_ok [OF assms] array_insert_ok [OF assms] array_pull_ok [OF assms(1,2)] by blast

definition zero_cells :: cell_alloc where
  "zero_cells n = Some (replicate n 0)"

lemma zero_cells_proper: "proper_cells zero_cells"
  by (simp add: proper_cells_def zero_cells_def)

theorem array_refines_list_witness:
  "\<exists>a a'. newArray zero_cells = Inr a \<and> array_push zero_cells a 5 = Inr a' \<and> array_ok a' [5]"
proof -
  obtain a where a: "newArray zero_cells = Inr a" "array_ok a []"
    using newArray_ok [OF zero_cells_proper] by blast
  from array_refines_list [OF zero_cells_proper a(2), of 5] a(1) show ?thesis by auto
qed

text \<open>
  \<open>array_pop\<close> removes the last element, but returns it only when the block keeps its size. When
  the length is a multiple of 8 the block shrinks first, and what is returned is the contents of
  the fresh heap block.
\<close>

theorem array_pop_result:
  assumes "proper_cells alloc" and "array_ok a (xs @ [x])"
  shows "\<exists>a' v s. array_pop alloc a = Inr (a', v) \<and> array_ok a' xs \<and>
    alloc (8 * (length xs div 8 + 1)) = Some s \<and>
    v = (if (length xs + 1) mod 8 = 0 then s ! length xs else x)"
proof -
  let ?k = "length (a_arr a)" and ?n = "length xs"
  have a: "a_length a = ?n + 1" "a_alloc_length a = ?k" "take (?n + 1) (a_arr a) = xs @ [x]"
    "?k = 8 * ((?n + 1) div 8 + 1)" "?n + 1 < 2 ^ 60"
    using assms(2) by (simp_all add: array_ok_def)
  have len: "?n + 1 < ?k" using array_ok_bound [OF assms(2)] by simp
  have xs: "take ?n (a_arr a) = xs" using a(3) by (metis append_eq_conv_conj le_add1 take_take min.absorb1)
  have x: "a_arr a ! ?n = x" using a(3) len by (metis nth_append_length nth_take less_add_one)
  have w: "sub64 (?n + 1) 1 = ?n" "sub64 ?k 8 = ?k - 8" using a(4,5) by (simp_all add: wrap_simps)
  define b where "b = a\<lparr>a_length := ?n\<rparr>"
  obtain s where s: "alloc (8 * (?n div 8 + 1)) = Some s" "length s = 8 * (?n div 8 + 1)"
    using assms(1) unfolding proper_cells_def by blast
  show ?thesis
  proof (cases "(?n + 1) mod 8 = 0")
    case True
    then have l: "?n + 1 = 8 * ((?n + 1) div 8)" using mult_div_mod_eq [of 8 "?n + 1"] by linarith
    then have "?n div 8 = (?n + 1) div 8 - 1"
      by (cases "(?n + 1) div 8") (auto intro: div8_unique)
    with l a(4) have k: "?k - 8 = 8 * (?n div 8 + 1)" "?n < ?k - 8" by simp_all
    have "a_length b = ?n" "take ?n (a_arr b) = xs" "?n \<le> length (a_arr b)" "?n \<le> ?k - 8"
      using xs len k(2) by (simp_all add: b_def)
    from array_realloc_ok [OF assms(1) this]
    obtain a' s' where r: "array_realloc alloc (b\<lparr>a_alloc_length := ?k - 8\<rparr>) = Inr a'"
      "a_length a' = ?n" "a_alloc_length a' = ?k - 8" "length (a_arr a') = ?k - 8"
      "take ?n (a_arr a') = xs" "alloc (?k - 8) = Some s'" "drop ?n (a_arr a') = drop ?n s'"
      by blast
    have ok: "array_ok a' xs" using r k(1) a(5) by (simp only: array_ok_def) simp
    have "s' = s" using r(6) s(1) unfolding k(1) by simp
    then have "a_arr a' ! ?n = s ! ?n"
      using r(4,7) s(2) k by (metis hd_drop_conv_nth)
    then have "array_pop alloc a = Inr (a', s ! ?n)"
      using a(1,2) w k len r by (simp add: array_pop_def array_resize_def b_def get_cell_def)
    with ok s True show ?thesis by auto
  next
    case False
    then have "?n + 1 \<noteq> 8 * ((?n + 1) div 8)" by presburger
    then have le: "8 * ((?n + 1) div 8) \<le> ?n" using div8_le [of "?n + 1"] by linarith
    then have "?n div 8 = (?n + 1) div 8" using div8_less [of "?n + 1"] by (intro div8_unique) linarith+
    with le a(4) have k: "?k = 8 * (?n div 8 + 1)" "\<not> ?n < ?k - 8" by simp_all
    have "array_pop alloc a = Inr (b, x)"
      using a(1,2) w k(2) len x by (simp add: array_pop_def array_resize_def b_def get_cell_def)
    moreover have "array_ok b xs" using k(1) a(2,5) xs by (simp add: array_ok_def b_def)
    ultimately show ?thesis using s False by auto
  qed
qed

theorem array_pop_result_witness:
  "\<exists>a a' v. array_ok a [1, 2, 3, 4, 5, 6, 7, 9] \<and> array_pop zero_cells a = Inr (a', v) \<and>
     array_ok a' [1, 2, 3, 4, 5, 6, 7] \<and> v = 0"
proof -
  define a where "a = \<lparr>a_length = 8, a_arr = [1, 2, 3, 4, 5, 6, 7, 9, 0, 0, 0, 0, 0, 0, 0, 0],
    a_alloc_length = 16\<rparr>"
  have "array_ok a ([1, 2, 3, 4, 5, 6, 7] @ [9])" by (simp add: array_ok_def a_def)
  from array_pop_result [OF zero_cells_proper this] this show ?thesis
    by (auto simp: zero_cells_def)
qed

end
