(* ===== verification/Block_Source.thy ===== *)
theory Block_Source
  imports Prelude
begin

text \<open>
  The contract of an allocator of blocks, as the components that keep their data in such blocks see it: a request
  that there is room for returns a block of at least the size asked for, apart from all blocks in use, which stay in use.
\<close>

text \<open>An area of memory is an address with a length; it is held when it lies at the start of a block in use.\<close>

definition area :: "nat \<times> nat \<Rightarrow> nat set" where
  "area r = {fst r..<fst r + snd r}"

definition held :: "(nat \<times> nat) set \<Rightarrow> nat \<times> nat \<Rightarrow> bool" where
  "held U r \<longleftrightarrow> (\<exists>f. (fst r, f) \<in> U \<and> fst r + snd r \<le> f)"

lemma held_area: "held U r \<Longrightarrow> \<exists>f. (fst r, f) \<in> U \<and> area r \<subseteq> {fst r..<f}"
  by (auto simp: held_def area_def)

lemma held_mono: "held U r \<Longrightarrow> U \<subseteq> V \<Longrightarrow> held V r"
  by (auto simp: held_def)

lemma area_part: "i < n \<Longrightarrow> {vt + k * i..<vt + k * i + k} \<subseteq> area (vt, k * n)"
proof -
  assume "i < n"
  then have "k * Suc i \<le> k * n" by (intro mult_le_mono2) simp
  then show ?thesis by (auto simp: area_def)
qed

fun block_run :: "('s \<Rightarrow> nat \<Rightarrow> ('s \<times> nat) res) \<Rightarrow> 's \<Rightarrow> nat list \<Rightarrow> ('s \<times> (nat \<times> nat) list) res" where
  "block_run alloc s [] = Inr (s, [])"
| "block_run alloc s (n # ns) =
     and_then (alloc s n) (\<lambda>(s, a). and_then (block_run alloc s ns) (\<lambda>(s, bs). Inr (s, (a, n) # bs)))"

text \<open>There is room for every request of a sequence when its turn comes.\<close>

fun room_for :: "('s \<Rightarrow> nat \<Rightarrow> bool) \<Rightarrow> ('s \<Rightarrow> nat \<Rightarrow> ('s \<times> nat) res) \<Rightarrow> 's \<Rightarrow> nat list \<Rightarrow> bool" where
  "room_for room alloc s [] = True"
| "room_for room alloc s (n # ns) =
     (0 < n \<and> room s n \<and> (case alloc s n of Inl _ \<Rightarrow> False | Inr (s, _) \<Rightarrow> room_for room alloc s ns))"

locale block_source =
  fixes inv :: "'s \<Rightarrow> bool"
    and room :: "'s \<Rightarrow> nat \<Rightarrow> bool"
    and used :: "'s \<Rightarrow> (nat \<times> nat) set"
    and alloc :: "'s \<Rightarrow> nat \<Rightarrow> ('s \<times> nat) res"
  assumes serves: "inv s \<Longrightarrow> 0 < n \<Longrightarrow> room s n \<Longrightarrow>
      \<exists>s' a f. alloc s n = Inr (s', a) \<and> inv s' \<and> a + n \<le> f \<and> used s' = insert (a, f) (used s) \<and>
        (\<forall>(b, g) \<in> used s. {a..<f} \<inter> {b..<g} = {})"
    and in_memory: "inv s \<Longrightarrow> (b, f) \<in> used s \<Longrightarrow> 0 < b \<and> b \<le> f \<and> f < 2 ^ 64"
begin

lemma one_block:
  assumes "inv s" and "0 < n" and "room s n"
  shows "\<exists>s' a. alloc s n = Inr (s', a) \<and> inv s' \<and> used s \<subseteq> used s' \<and> held (used s') (a, n) \<and>
    0 < a \<and> a < 2 ^ 64 \<and> (\<forall>r. held (used s) r \<longrightarrow> area (a, n) \<inter> area r = {})"
proof -
  from serves [OF assms] obtain s' a f where
    s': "alloc s n = Inr (s', a)" "inv s'" "a + n \<le> f" "used s' = insert (a, f) (used s)"
    "\<forall>(b, g) \<in> used s. {a..<f} \<inter> {b..<g} = {}" by blast
  have "area (a, n) \<inter> area r = {}" if r: "held (used s) r" for r
  proof -
    obtain g where "(fst r, g) \<in> used s" "area r \<subseteq> {fst r..<g}" using held_area [OF r] by blast
    moreover have "area (a, n) \<subseteq> {a..<f}" using s'(3) by (auto simp: area_def)
    ultimately show ?thesis using s'(5) by blast
  qed
  moreover have "held (used s') (a, n)" using s'(3,4) by (auto simp: held_def)
  moreover have "0 < a" "a < 2 ^ 64" using in_memory [OF s'(2), of a f] s'(4) by auto
  ultimately show ?thesis using s'(1,2,4) by blast
qed

lemma blocks_apart:
  "inv s \<Longrightarrow> room_for room alloc s ns \<Longrightarrow> \<exists>s' bs. block_run alloc s ns = Inr (s', bs) \<and> inv s' \<and> used s \<subseteq> used s' \<and>
     map snd bs = ns \<and> (\<forall>r \<in> set bs. held (used s') r) \<and> sorted_wrt (\<lambda>r q. area r \<inter> area q = {}) bs \<and>
     (\<forall>r \<in> set bs. \<forall>q. held (used s) q \<longrightarrow> area r \<inter> area q = {})"
proof (induction ns arbitrary: s)
  case Nil
  then show ?case by simp
next
  case (Cons n ns)
  then have "0 < n" "room s n" by simp_all
  from one_block [OF Cons.prems(1) this] obtain s1 a where
    a: "alloc s n = Inr (s1, a)" "inv s1" "used s \<subseteq> used s1" "held (used s1) (a, n)"
    "\<forall>r. held (used s) r \<longrightarrow> area (a, n) \<inter> area r = {}" by blast
  with Cons.prems(2) have "room_for room alloc s1 ns" by simp
  from Cons.IH [OF a(2) this] obtain s2 bs where
    b: "block_run alloc s1 ns = Inr (s2, bs)" "inv s2" "used s1 \<subseteq> used s2" "map snd bs = ns" "\<forall>r \<in> set bs. held (used s2) r"
    "sorted_wrt (\<lambda>r q. area r \<inter> area q = {}) bs" "\<forall>r \<in> set bs. \<forall>q. held (used s1) q \<longrightarrow> area r \<inter> area q = {}" by blast
  have "area (a, n) \<inter> area r = {}" if "r \<in> set bs" for r using b(7) a(4) that by blast
  moreover have "area r \<inter> area q = {}" if "r \<in> set bs" "held (used s) q" for r q
    using b(7) held_mono [OF that(2) a(3)] that(1) by blast
  ultimately show ?case using a b held_mono [OF a(4) b(3)] by (auto simp: order_trans)
qed

end

end
