(* ===== verification/Heap.thy ===== *)
theory Heap
  imports Log_Order Block_Source
begin

text \<open>
  The kernel heap of kernel/mm.c. A heap is the chain of its headers, a header the chain of its
  pointers; both chains are kept as lists in the order of the \<open>next\<close> fields, each entry with its
  address, so that \<open>next\<close> of an entry is the address of the one after it, 0 at the end. The
  payload bytes are not kept; \<open>kfree\<close> wipes a range of them, and when that range covers an
  entry of a chain or leaves the pages of the header the result is \<open>OutOfBounds\<close>. The physical and virtual allocation of a new header
  appears as the argument \<open>newpages\<close>, the address \<open>__get_free_pages\<close> returns for an order, 0 for \<open>NULL\<close>.
\<close>

definition HEADER_SIZE :: nat where [simp]: "HEADER_SIZE = 24"

definition POINTER_SIZE :: nat where [simp]: "POINTER_SIZE = 16"

record mpointer_t =
  p_addr :: nat
  p_size :: nat

record mheader_t =
  h_addr :: nat
  h_size :: nat
  h_size_max :: nat
  h_ptrs :: "mpointer_t list"

type_synonym heap = "mheader_t list"

fun findSize_max_from :: "mpointer_t list \<Rightarrow> nat \<Rightarrow> nat" where
  "findSize_max_from [] m = m"
| "findSize_max_from (p # ps) m = findSize_max_from ps (if p_size p > m then p_size p else m)"

definition findSize_max :: "mheader_t \<Rightarrow> nat" where
  "findSize_max h = findSize_max_from (h_ptrs h) 0"

fun pointers_merge :: "mpointer_t list \<Rightarrow> mpointer_t list" where
  "pointers_merge (p # q # ps) =
     (if p_size p > 0 \<and> p_size q > 0
      then pointers_merge (p\<lparr>p_size := add64 (p_size p) (p_size q)\<rparr> # ps)
      else p # pointers_merge (q # ps))"
| "pointers_merge ps = ps"

text \<open>\<open>mm_init\<close>: the first header, in the page at \<open>heap_start\<close>.\<close>

definition first_header :: "nat \<Rightarrow> mheader_t" where
  "first_header start =
     \<lparr>h_addr = start, h_size = page_size, h_size_max = page_size - HEADER_SIZE - POINTER_SIZE,
      h_ptrs = [\<lparr>p_addr = start + HEADER_SIZE, p_size = page_size - HEADER_SIZE - POINTER_SIZE\<rparr>]\<rparr>"

section \<open>kmalloc\<close>

text \<open>The pointer \<open>p\<close> is used for \<open>bytes\<close> bytes, the rest of its segment becomes a new pointer.\<close>

definition use_pointer :: "mpointer_t \<Rightarrow> nat \<Rightarrow> mpointer_t list" where
  "use_pointer p bytes =
     (let address = p_addr p + POINTER_SIZE;
          rest = (if sub64 (p_size p) bytes > POINTER_SIZE
                  then [\<lparr>p_addr = address + bytes, p_size = sub64 (sub64 (p_size p) bytes) POINTER_SIZE\<rparr>]
                  else [])
      in p\<lparr>p_size := 0\<rparr> # rest)"

fun take_pointer :: "mpointer_t list \<Rightarrow> nat \<Rightarrow> (mpointer_t list \<times> nat) option" where
  "take_pointer [] bytes = None"
| "take_pointer (p # ps) bytes =
     (if p_size p \<ge> bytes then Some (use_pointer p bytes @ ps, p_addr p + POINTER_SIZE)
      else case take_pointer ps bytes of None \<Rightarrow> None | Some (ps', a) \<Rightarrow> Some (p # ps', a))"

definition header_alloc :: "mheader_t \<Rightarrow> nat \<Rightarrow> (mheader_t \<times> nat) res" where
  "header_alloc h bytes =
     (case take_pointer (h_ptrs h) bytes of None \<Rightarrow> Inl NullDeref
      | Some (ps, address) \<Rightarrow>
          let h = h\<lparr>h_ptrs := ps\<rparr> in Inr (h\<lparr>h_size_max := findSize_max h\<rparr>, address))"

text \<open>The header that is added when no header has room.\<close>

definition new_header :: "nat \<Rightarrow> nat \<Rightarrow> mheader_t" where
  "new_header addr pages =
     (let size = pages * page_size in
      \<lparr>h_addr = addr, h_size = size, h_size_max = sub64 (sub64 size HEADER_SIZE) POINTER_SIZE,
       h_ptrs = [\<lparr>p_addr = addr + HEADER_SIZE, p_size = size\<rparr>]\<rparr>)"

definition pages_needed :: "nat \<Rightarrow> nat" where
  "pages_needed bytes = (bytes + HEADER_SIZE + POINTER_SIZE + (page_size - 1)) div page_size"

fun kmalloc_walk :: "(nat \<Rightarrow> nat) \<Rightarrow> heap \<Rightarrow> nat \<Rightarrow> (heap \<times> nat) res" where
  "kmalloc_walk newpages [] bytes =
     (let order = log_order (pages_needed bytes);
          addr = newpages order
      in if addr = 0 then Inr ([], 0)
         else case header_alloc (new_header addr (2 ^ order)) bytes of Inl e \<Rightarrow> Inl e
         | Inr (h, address) \<Rightarrow> Inr ([h], address))"
| "kmalloc_walk newpages (h # hs) bytes =
     (if h_size_max h \<ge> bytes then
        (case header_alloc h bytes of Inl e \<Rightarrow> Inl e | Inr (h, address) \<Rightarrow> Inr (h # hs, address))
      else
        (case kmalloc_walk newpages hs bytes of Inl e \<Rightarrow> Inl e
         | Inr (hs, address) \<Rightarrow> Inr (h # hs, address)))"

definition kmalloc :: "(nat \<Rightarrow> nat) \<Rightarrow> heap \<Rightarrow> nat \<Rightarrow> (heap \<times> nat) res" where
  "kmalloc newpages hs bytes =
     (if bytes = 0 then Inr (hs, 0)
      else if hs = [] then Inl NullDeref
      else kmalloc_walk newpages hs bytes)"

section \<open>kfree\<close>

text \<open>
  \<open>p + sizeof(mpointer_t)\<close> is pointer arithmetic: 16 times 16 bytes past \<open>p\<close>. The size given to the
  pointer and to \<open>memset\<close> is \<open>p->next - address\<close>, with \<open>p->next\<close> 0 for the last pointer.
\<close>

definition next_addr :: "mpointer_t list \<Rightarrow> nat" where
  "next_addr ps = (case ps of [] \<Rightarrow> 0 | q # _ \<Rightarrow> p_addr q)"

fun free_pointer :: "mpointer_t list \<Rightarrow> nat \<Rightarrow> (mpointer_t list \<times> nat) option" where
  "free_pointer [] address = None"
| "free_pointer (p # ps) address =
     (if p_addr p + POINTER_SIZE * POINTER_SIZE = address then
        let size = sub64 (next_addr ps) address in Some (p\<lparr>p_size := size\<rparr> # ps, size)
      else case free_pointer ps address of None \<Rightarrow> None | Some (ps', n) \<Rightarrow> Some (p # ps', n))"

definition overlaps :: "nat \<Rightarrow> nat \<Rightarrow> nat \<Rightarrow> nat \<Rightarrow> bool" where
  "overlaps a n b m \<longleftrightarrow> a < b + m \<and> b < a + n"

definition wipe_hits :: "heap \<Rightarrow> nat \<Rightarrow> nat \<Rightarrow> bool" where
  "wipe_hits hs a n \<longleftrightarrow> list_ex (\<lambda>h. overlaps a n (h_addr h) HEADER_SIZE \<or>
     list_ex (\<lambda>p. overlaps a n (p_addr p) POINTER_SIZE) (h_ptrs h)) hs"

fun kfree_walk :: "heap \<Rightarrow> heap \<Rightarrow> nat \<Rightarrow> heap res" where
  "kfree_walk all [] address = Inr []"
| "kfree_walk all (h # hs) address =
     (if address > h_addr h \<and> address < h_addr h + h_size h then
        (case free_pointer (h_ptrs h) address of None \<Rightarrow> Inr (h # hs)
         | Some (ps, n) \<Rightarrow>
             if wipe_hits all address n \<or> address + n > h_addr h + h_size h then Inl OutOfBounds
             else let h = h\<lparr>h_ptrs := pointers_merge ps\<rparr>
                  in Inr (h\<lparr>h_size_max := findSize_max h\<rparr> # hs))
      else case kfree_walk all hs address of Inl e \<Rightarrow> Inl e | Inr hs \<Rightarrow> Inr (h # hs))"

definition kfree :: "heap \<Rightarrow> nat \<Rightarrow> heap res" where
  "kfree hs address = kfree_walk hs hs address"

section \<open>What the heap keeps\<close>

text \<open>The pointers of a header lie one behind the other and their free segments do not overlap.\<close>

fun chain_ok :: "nat \<Rightarrow> mpointer_t list \<Rightarrow> bool" where
  "chain_ok e [] = True"
| "chain_ok e (p # ps) =
     (p_addr p + POINTER_SIZE + p_size p \<le> (case ps of [] \<Rightarrow> e | q # _ \<Rightarrow> p_addr q) \<and> chain_ok e ps)"

text \<open>The payloads in use: those whose pointer has size 0, each up to the next pointer.\<close>

fun taken :: "nat \<Rightarrow> mpointer_t list \<Rightarrow> (nat \<times> nat) set" where
  "taken e [] = {}"
| "taken e (p # ps) =
     (if p_size p = 0 then {(p_addr p + POINTER_SIZE, case ps of [] \<Rightarrow> e | q # _ \<Rightarrow> p_addr q)} else {})
     \<union> taken e ps"

definition header_ok :: "mheader_t \<Rightarrow> bool" where
  "header_ok h \<longleftrightarrow> h_ptrs h \<noteq> [] \<and> p_addr (hd (h_ptrs h)) = h_addr h + HEADER_SIZE \<and>
     chain_ok (h_addr h + h_size h) (h_ptrs h) \<and> h_size_max h = findSize_max h \<and>
     h_addr h + h_size h < 2 ^ 64"

definition header_taken :: "mheader_t \<Rightarrow> (nat \<times> nat) set" where
  "header_taken h = taken (h_addr h + h_size h) (h_ptrs h)"

lemma findSize_max_le:
  "bytes \<le> findSize_max_from ps m \<longleftrightarrow> bytes \<le> m \<or> (\<exists>p \<in> set ps. bytes \<le> p_size p)"
  by (induction ps arbitrary: m) auto

lemma take_pointer_split:
  "take_pointer ps bytes = Some (ps', a) \<Longrightarrow>
     \<exists>xs p ys. ps = xs @ p # ys \<and> bytes \<le> p_size p \<and>
        ps' = xs @ use_pointer p bytes @ ys \<and> a = p_addr p + POINTER_SIZE"
proof (induction ps arbitrary: ps')
  case Nil
  then show ?case by simp
next
  case (Cons q ps)
  show ?case
  proof (cases "bytes \<le> p_size q")
    case True
    with Cons.prems show ?thesis by (intro exI [of _ "[]"] exI [of _ q] exI [of _ ps]) simp
  next
    case False
    with Cons.prems obtain qs where qs: "take_pointer ps bytes = Some (qs, a)" "ps' = q # qs"
      by (auto split: option.splits)
    from Cons.IH [OF qs(1)] obtain xs p ys where "ps = xs @ p # ys" "bytes \<le> p_size p"
      "qs = xs @ use_pointer p bytes @ ys" "a = p_addr p + POINTER_SIZE" by blast
    with qs(2) show ?thesis by (intro exI [of _ "q # xs"] exI [of _ p] exI [of _ ys]) simp
  qed
qed

lemma take_pointer_None: "take_pointer ps bytes = None \<longleftrightarrow> (\<forall>p \<in> set ps. p_size p < bytes)"
  by (induction ps) (auto split: option.splits)

lemma chain_ok_append:
  "chain_ok e (xs @ p # ys) \<longleftrightarrow> chain_ok (p_addr p) xs \<and> chain_ok e (p # ys)"
proof (induction xs)
  case (Cons x xs)
  then show ?case by (cases xs) auto
qed simp

lemma taken_append:
  "taken e (xs @ p # ys) = taken (p_addr p) xs \<union> taken e (p # ys)"
proof (induction xs)
  case (Cons x xs)
  then show ?case by (cases xs) auto
qed simp

lemma chain_ok_end: "chain_ok e (p # ps) \<Longrightarrow> p_addr p + POINTER_SIZE + p_size p \<le> e"
proof (induction ps arbitrary: p)
  case (Cons q ps)
  from Cons.prems Cons.IH [of q] show ?case by simp
qed simp

lemma taken_range:
  assumes "chain_ok e (p # ps)" and "(b, f) \<in> taken e (p # ps)"
  shows "p_addr p + POINTER_SIZE \<le> b \<and> b \<le> f \<and> f \<le> e"
  using assms
proof (induction ps arbitrary: p)
  case Nil
  then show ?case by (auto split: if_splits)
next
  case (Cons q ps)
  have q: "p_addr p + POINTER_SIZE + p_size p \<le> p_addr q" "chain_ok e (q # ps)"
    using Cons.prems(1) by auto
  show ?case
  proof (cases "(b, f) \<in> taken e (q # ps)")
    case True
    with Cons.IH [OF q(2)] q(1) show ?thesis by auto
  next
    case False
    with Cons.prems(2) have "b = p_addr p + POINTER_SIZE" "f = p_addr q" by (auto split: if_splits)
    with q(1) chain_ok_end [OF q(2)] show ?thesis by simp
  qed
qed

text \<open>Taking a pointer in the middle of a chain.\<close>

lemma use_pointer_ok:
  assumes ok: "chain_ok e (xs @ p # ys)" and bytes: "0 < bytes" "bytes \<le> p_size p" and e: "e < 2 ^ 64"
  shows "\<exists>f. chain_ok e (xs @ use_pointer p bytes @ ys) \<and>
    taken e (xs @ use_pointer p bytes @ ys) = insert (p_addr p + POINTER_SIZE, f) (taken e (xs @ p # ys)) \<and>
    p_addr p + POINTER_SIZE + bytes \<le> f \<and> f \<le> e \<and>
    (\<forall>(b, g) \<in> taken e (xs @ p # ys). g \<le> p_addr p \<or> f \<le> b)"
proof -
  define n where "n = (case ys of [] \<Rightarrow> e | q # _ \<Rightarrow> p_addr q)"
  have xs: "chain_ok (p_addr p) xs" and p: "chain_ok e (p # ys)"
    using ok unfolding chain_ok_append by auto
  have pn: "p_addr p + POINTER_SIZE + p_size p \<le> n" and ys: "chain_ok e ys"
    using p by (simp_all add: n_def)
  have ne: "n \<le> e"
  proof (cases ys)
    case (Cons q qs)
    with ys have "chain_ok e (q # qs)" by (simp only:)
    from chain_ok_end [OF this] Cons show ?thesis by (simp add: n_def)
  qed (simp add: n_def)
  have sub: "sub64 (p_size p) bytes = p_size p - bytes"
    using bytes(2) pn ne e by (intro sub64_exact) auto
  have old: "taken e (xs @ p # ys) = taken (p_addr p) xs \<union> taken e ys"
    unfolding taken_append using bytes by simp
  have left: "g \<le> p_addr p" if "(b, g) \<in> taken (p_addr p) xs" for b g
  proof (cases xs)
    case Nil
    with that show ?thesis by simp
  next
    case (Cons q qs)
    with xs that have "chain_ok (p_addr p) (q # qs)" "(b, g) \<in> taken (p_addr p) (q # qs)"
      by (simp_all only:)
    from taken_range [OF this] show ?thesis by simp
  qed
  have right: "n \<le> b" if "(b, g) \<in> taken e ys" for b g
  proof (cases ys)
    case Nil
    with that show ?thesis by simp
  next
    case (Cons q qs)
    with ys that have "chain_ok e (q # qs)" "(b, g) \<in> taken e (q # qs)" by (simp_all only:)
    from taken_range [OF this] Cons show ?thesis by (simp add: n_def)
  qed
  show ?thesis
  proof (cases "p_size p - bytes > POINTER_SIZE")
    case True
    define q where "q = \<lparr>p_addr = p_addr p + POINTER_SIZE + bytes, p_size = p_size p - bytes - POINTER_SIZE\<rparr>"
    have "sub64 (p_size p - bytes) POINTER_SIZE = p_size p - bytes - POINTER_SIZE"
      using True pn ne e by (intro sub64_exact) auto
    then have u: "use_pointer p bytes = [p\<lparr>p_size := 0\<rparr>, q]"
      using True by (simp add: use_pointer_def sub q_def)
    have "chain_ok e (xs @ p\<lparr>p_size := 0\<rparr> # q # ys)"
      using xs pn ys True unfolding chain_ok_append by (simp add: q_def n_def [symmetric])
    moreover have "taken e (xs @ p\<lparr>p_size := 0\<rparr> # q # ys) =
        insert (p_addr p + POINTER_SIZE, p_addr q) (taken e (xs @ p # ys))"
      unfolding old taken_append using True by (auto simp: q_def)
    ultimately show ?thesis
      using left right True pn ne unfolding u old
      by (intro exI [of _ "p_addr q"]) (fastforce simp: q_def)
  next
    case False
    then have u: "use_pointer p bytes = [p\<lparr>p_size := 0\<rparr>]"
      by (simp add: use_pointer_def sub)
    have "chain_ok e (xs @ p\<lparr>p_size := 0\<rparr> # ys)"
      using xs pn ys unfolding chain_ok_append by (simp add: n_def [symmetric])
    moreover have "taken e (xs @ p\<lparr>p_size := 0\<rparr> # ys) =
        insert (p_addr p + POINTER_SIZE, n) (taken e (xs @ p # ys))"
      unfolding old taken_append by (auto simp: n_def)
    ultimately show ?thesis
      using left right pn ne bytes unfolding u old
      by (intro exI [of _ n]) fastforce
  qed
qed

lemma header_alloc_ok:
  assumes ok: "header_ok h" and bytes: "0 < bytes" "bytes \<le> h_size_max h"
  shows "\<exists>h' a f. header_alloc h bytes = Inr (h', a) \<and> header_ok h' \<and>
    h_addr h' = h_addr h \<and> h_size h' = h_size h \<and>
    header_taken h' = insert (a, f) (header_taken h) \<and> a + bytes \<le> f \<and>
    h_addr h \<le> a \<and> f \<le> h_addr h + h_size h \<and> (\<forall>(b, g) \<in> header_taken h. g \<le> a \<or> f \<le> b)"
proof -
  let ?e = "h_addr h + h_size h"
  have "\<exists>p \<in> set (h_ptrs h). bytes \<le> p_size p"
    using ok bytes findSize_max_le [of bytes "h_ptrs h" 0] by (simp add: header_ok_def findSize_max_def)
  then obtain ps a where tp: "take_pointer (h_ptrs h) bytes = Some (ps, a)"
    using take_pointer_None [of "h_ptrs h" bytes] by (metis not_le option.exhaust surj_pair)
  from take_pointer_split [OF tp] obtain xs p ys where
    p: "h_ptrs h = xs @ p # ys" "bytes \<le> p_size p" "ps = xs @ use_pointer p bytes @ ys"
    "a = p_addr p + POINTER_SIZE" by blast
  have chain: "chain_ok ?e (xs @ p # ys)" and e: "?e < 2 ^ 64"
    using ok p(1) by (simp_all add: header_ok_def)
  from use_pointer_ok [OF chain bytes(1) p(2) e] obtain f where
    f: "chain_ok ?e ps" "taken ?e ps = insert (a, f) (header_taken h)" "a + bytes \<le> f" "f \<le> ?e"
    "\<forall>(b, g) \<in> header_taken h. g \<le> p_addr p \<or> f \<le> b"
    unfolding p(3,4) header_taken_def p(1) by blast
  define h' where "h' = (let h = h\<lparr>h_ptrs := ps\<rparr> in h\<lparr>h_size_max := findSize_max h\<rparr>)"
  have "hd ps = (if xs = [] then p\<lparr>p_size := 0\<rparr> else hd xs)" and "ps \<noteq> []"
    by (auto simp: p(3) use_pointer_def Let_def hd_append)
  moreover have "hd (h_ptrs h) = (if xs = [] then p else hd xs)"
    by (simp add: p(1) hd_append)
  ultimately have "p_addr (hd ps) = h_addr h + HEADER_SIZE"
    using ok by (auto simp: header_ok_def split: if_splits)
  with f(1) e \<open>ps \<noteq> []\<close> have "header_ok h'"
    by (simp add: header_ok_def h'_def Let_def findSize_max_def)
  moreover have "h_addr h \<le> p_addr p"
  proof (cases xs)
    case Nil
    with ok p(1) show ?thesis by (simp add: header_ok_def)
  next
    case (Cons x xs')
    have "chain_ok (p_addr p) (x # xs')" using chain unfolding chain_ok_append Cons by simp
    from chain_ok_end [OF this] ok p(1) Cons show ?thesis by (simp add: header_ok_def)
  qed
  moreover have "header_alloc h bytes = Inr (h', a)"
    using tp by (simp add: header_alloc_def h'_def Let_def)
  moreover have "header_taken h' = taken ?e ps" by (simp add: header_taken_def h'_def Let_def)
  moreover have "h_addr h' = h_addr h" "h_size h' = h_size h"
    by (simp_all add: h'_def Let_def)
  moreover have "g \<le> a \<or> f \<le> b" if "(b, g) \<in> header_taken h" for b g
    using f(5) that p(4) by auto
  moreover have "h_addr h \<le> a" using \<open>h_addr h \<le> p_addr p\<close> p(4) by simp
  ultimately show ?thesis
    using f(2-4) by (intro exI [of _ h'] exI [of _ a] exI [of _ f]) blast
qed

section \<open>The heap\<close>

definition header_range :: "mheader_t \<Rightarrow> nat set" where
  "header_range h = {h_addr h ..< h_addr h + h_size h}"

fun heap_ok :: "heap \<Rightarrow> bool" where
  "heap_ok [] = True"
| "heap_ok (h # hs) =
     (header_ok h \<and> (\<forall>g \<in> set hs. header_range h \<inter> header_range g = {}) \<and> heap_ok hs)"

definition heap_taken :: "heap \<Rightarrow> (nat \<times> nat) set" where
  "heap_taken hs = (\<Union>h \<in> set hs. header_taken h)"

lemma header_taken_range:
  "header_ok h \<Longrightarrow> (b, f) \<in> header_taken h \<Longrightarrow> h_addr h < b \<and> b \<le> f \<and> f \<le> h_addr h + h_size h"
proof -
  assume "header_ok h" and "(b, f) \<in> header_taken h"
  moreover from this obtain p ps where "h_ptrs h = p # ps" by (cases "h_ptrs h") (auto simp: header_ok_def)
  ultimately show ?thesis
    using taken_range [of "h_addr h + h_size h" p ps b f] by (simp add: header_ok_def header_taken_def)
qed

lemma ranges_apart_order:
  assumes "header_range h \<inter> header_range k = {}" and "h_addr h < b" and "b \<le> g"
    and "g \<le> h_addr h + h_size h" and "h_addr k \<le> a" and "a < f" and "f \<le> h_addr k + h_size k"
  shows "g \<le> a \<or> f \<le> b"
proof (rule ccontr)
  assume "\<not> ?thesis"
  then have "a < g" "b < f" by auto
  define x where "x = (if a < b then b - 1 else a)"
  have "x \<in> header_range h" "x \<in> header_range k"
    using assms(2-7) \<open>a < g\<close> \<open>b < f\<close> by (auto simp: x_def header_range_def)
  with assms(1) show False by blast
qed

lemma kmalloc_walk_ok:
  assumes "0 < bytes"
  shows "heap_ok hs \<Longrightarrow> \<exists>h \<in> set hs. bytes \<le> h_size_max h \<Longrightarrow>
    \<exists>hs' a f. kmalloc_walk newpages hs bytes = Inr (hs', a) \<and> heap_ok hs' \<and>
      header_range ` set hs' = header_range ` set hs \<and>
      heap_taken hs' = insert (a, f) (heap_taken hs) \<and> a + bytes \<le> f \<and>
      (\<exists>k \<in> set hs. h_addr k \<le> a \<and> f \<le> h_addr k + h_size k) \<and>
      (\<forall>(b, g) \<in> heap_taken hs. g \<le> a \<or> f \<le> b)"
proof (induction hs)
  case Nil
  then show ?case by simp
next
  case (Cons h hs)
  have h: "header_ok h" and apart: "\<And>k. k \<in> set hs \<Longrightarrow> header_range h \<inter> header_range k = {}"
    and hs: "heap_ok hs"
    using Cons.prems(1) by auto
  have taken: "heap_taken (x # xs) = header_taken x \<union> heap_taken xs" for x xs
    by (simp add: heap_taken_def)
  have ok: "header_ok k" if "k \<in> set hs" for k
    using hs that by (induction hs) auto
  show ?case
  proof (cases "bytes \<le> h_size_max h")
    case True
    from header_alloc_ok [OF h assms True] obtain h' a f where
      a: "header_alloc h bytes = Inr (h', a)" "header_ok h'" "h_addr h' = h_addr h"
      "h_size h' = h_size h" "header_taken h' = insert (a, f) (header_taken h)" "a + bytes \<le> f"
      "h_addr h \<le> a" "f \<le> h_addr h + h_size h" "\<forall>(b, g) \<in> header_taken h. g \<le> a \<or> f \<le> b"
      by blast
    have range: "header_range h' = header_range h" using a(3,4) by (simp add: header_range_def)
    have "g \<le> a \<or> f \<le> b" if "(b, g) \<in> heap_taken hs" for b g
    proof -
      from that obtain k where k: "k \<in> set hs" "(b, g) \<in> header_taken k"
        by (auto simp: heap_taken_def)
      have "header_range k \<inter> header_range h = {}" using apart [OF k(1)] by blast
      moreover have "a < f" using a(6) assms by simp
      ultimately show ?thesis
        using header_taken_range [OF ok [OF k(1)] k(2)] a(7,8) ranges_apart_order by blast
    qed
    then have c6: "\<forall>(b, g) \<in> heap_taken (h # hs). g \<le> a \<or> f \<le> b"
      unfolding taken using a(9) by blast
    have c1: "kmalloc_walk newpages (h # hs) bytes = Inr (h' # hs, a)" using True a(1) by simp
    have c2: "heap_ok (h' # hs)" using a(2) apart hs range by simp
    have c3: "header_range ` set (h' # hs) = header_range ` set (h # hs)" using range by simp
    have c4: "heap_taken (h' # hs) = insert (a, f) (heap_taken (h # hs))" unfolding taken a(5) by simp
    have c5: "\<exists>k \<in> set (h # hs). h_addr k \<le> a \<and> f \<le> h_addr k + h_size k" using a(7,8) by simp
    show ?thesis
      by (rule exI [of _ "h' # hs"], rule exI [of _ a], rule exI [of _ f])
        (intro conjI c1 c2 c3 c4 a(6) c5 c6)
  next
    case False
    with Cons.prems(2) have "\<exists>h \<in> set hs. bytes \<le> h_size_max h" by auto
    from Cons.IH [OF hs this] obtain hs' a f k where
      r: "kmalloc_walk newpages hs bytes = Inr (hs', a)" "heap_ok hs'"
      "header_range ` set hs' = header_range ` set hs" "heap_taken hs' = insert (a, f) (heap_taken hs)"
      "a + bytes \<le> f" "k \<in> set hs" "h_addr k \<le> a" "f \<le> h_addr k + h_size k"
      "\<forall>(b, g) \<in> heap_taken hs. g \<le> a \<or> f \<le> b"
      by - (elim exE conjE bexE, rule that, assumption+)
    have "header_range h \<inter> header_range g = {}" if "g \<in> set hs'" for g
    proof -
      have "header_range g \<in> header_range ` set hs" using that r(3) by blast
      then obtain k' where "k' \<in> set hs" "header_range g = header_range k'" by blast
      with apart show ?thesis by simp
    qed
    with h r(2) have c2: "heap_ok (h # hs')" by simp
    have "g \<le> a \<or> f \<le> b" if "(b, g) \<in> header_taken h" for b g
      using header_taken_range [OF h that] apart [OF r(6)] r(5,7,8) assms
      by (intro ranges_apart_order [of h k]) auto
    then have c6: "\<forall>(b, g) \<in> heap_taken (h # hs). g \<le> a \<or> f \<le> b"
      unfolding taken using r(9) by blast
    have c1: "kmalloc_walk newpages (h # hs) bytes = Inr (h # hs', a)" using False r(1) by simp
    have c3: "header_range ` set (h # hs') = header_range ` set (h # hs)" using r(3) by simp
    have c4: "heap_taken (h # hs') = insert (a, f) (heap_taken (h # hs))" unfolding taken r(4) by blast
    have c5: "\<exists>k \<in> set (h # hs). h_addr k \<le> a \<and> f \<le> h_addr k + h_size k" using r(6-8) by auto
    show ?thesis
      by (rule exI [of _ "h # hs'"], rule exI [of _ a], rule exI [of _ f])
        (intro conjI c1 c2 c3 c4 r(5) c5 c6)
  qed
qed

lemma kmalloc_correct_aux:
  assumes "heap_ok hs" and "0 < bytes" and "\<exists>h \<in> set hs. bytes \<le> h_size_max h"
  shows "\<exists>hs' a f. kmalloc newpages hs bytes = Inr (hs', a) \<and> heap_ok hs' \<and> a + bytes \<le> f \<and>
    (\<exists>h \<in> set hs. {a ..< f} \<subseteq> header_range h) \<and> heap_taken hs' = insert (a, f) (heap_taken hs) \<and>
    (\<forall>(b, g) \<in> heap_taken hs. {a ..< f} \<inter> {b ..< g} = {})"
proof -
  from kmalloc_walk_ok [OF assms(2,1,3), of newpages] obtain hs' a f k where
    r: "kmalloc_walk newpages hs bytes = Inr (hs', a)" "heap_ok hs'"
    "heap_taken hs' = insert (a, f) (heap_taken hs)" "a + bytes \<le> f"
    "k \<in> set hs" "h_addr k \<le> a" "f \<le> h_addr k + h_size k"
    "\<forall>(b, g) \<in> heap_taken hs. g \<le> a \<or> f \<le> b"
    by - (elim exE conjE bexE, rule that, assumption+)
  have "hs \<noteq> []" using r(5) by auto
  then have "kmalloc newpages hs bytes = Inr (hs', a)" using assms(2) r(1) by (simp add: kmalloc_def)
  moreover have "{a ..< f} \<subseteq> header_range k" using r(6,7) by (auto simp: header_range_def)
  moreover have "\<forall>(b, g) \<in> heap_taken hs. {a ..< f} \<inter> {b ..< g} = {}"
  proof (intro ballI, clarify)
    fix b g
    assume "(b, g) \<in> heap_taken hs"
    with r(8) have "g \<le> a \<or> f \<le> b" by blast
    then show "{a ..< f} \<inter> {b ..< g} = {}" by auto
  qed
  ultimately show ?thesis using r(2-5) by blast
qed


lemma heap_taken_bounds:
  assumes "heap_ok h" and "(b, f) \<in> heap_taken h"
  shows "0 < b \<and> b \<le> f \<and> f < 2 ^ 64"
proof -
  obtain k where k: "k \<in> set h" "(b, f) \<in> header_taken k" using assms(2) by (auto simp: heap_taken_def)
  have "header_ok k" using assms(1) k(1) by (induction h) auto
  with header_taken_range [OF this k(2)] show ?thesis by (auto simp: header_ok_def)
qed

text \<open>The heap, as long as a header has room, is a source of blocks.\<close>

definition heap_room :: "heap \<Rightarrow> nat \<Rightarrow> bool" where
  "heap_room hs n \<longleftrightarrow> list_ex (\<lambda>h. n \<le> h_size_max h) hs"

interpretation heap_blocks: block_source heap_ok heap_room heap_taken "kmalloc newpages" for newpages
proof unfold_locales
  fix s :: heap and n
  assume "heap_ok s" and "0 < n" and "heap_room s n"
  moreover from this have "\<exists>h \<in> set s. n \<le> h_size_max h" by (simp add: heap_room_def list_ex_iff)
  ultimately show "\<exists>s' a f. kmalloc newpages s n = Inr (s', a) \<and> heap_ok s' \<and> a + n \<le> f \<and>
      heap_taken s' = insert (a, f) (heap_taken s) \<and> (\<forall>(b, g) \<in> heap_taken s. {a..<f} \<inter> {b..<g} = {})"
    using kmalloc_correct_aux [of s n newpages] by blast
next
  show "heap_ok s \<Longrightarrow> (b, f) \<in> heap_taken s \<Longrightarrow> 0 < b \<and> b \<le> f \<and> f < 2 ^ 64" for s b f
    by (rule heap_taken_bounds)
qed

lemma first_heap_ok: "heap_ok [first_header 0x200000]"
  by (simp add: first_header_def header_ok_def findSize_max_def)


text \<open>Blocks of any sequence of requests that there is room for are apart, as the interface promises.\<close>

theorem kmalloc_blocks_apart:
  assumes "heap_ok hs" and "room_for heap_room (kmalloc newpages) hs ns"
  shows "\<exists>hs' bs. block_run (kmalloc newpages) hs ns = Inr (hs', bs) \<and> heap_ok hs' \<and> map snd bs = ns \<and>
    (\<forall>r \<in> set bs. held (heap_taken hs') r) \<and> sorted_wrt (\<lambda>r q. area r \<inter> area q = {}) bs"
  using heap_blocks.blocks_apart [OF assms] by blast

theorem kmalloc_blocks_apart_witness:
  "\<exists>hs a b. block_run (kmalloc (\<lambda>_. 0)) [first_header 0x200000] [100, 200] = Inr (hs, [(a, 100), (b, 200)]) \<and>
     area (a, 100) \<inter> area (b, 200) = {}"
proof -
  have "room_for heap_room (kmalloc (\<lambda>_. 0)) [first_header 0x200000] [100, 200]"
    by (simp add: heap_room_def kmalloc_def header_alloc_def use_pointer_def findSize_max_def first_header_def sub64_def Let_def)
  from kmalloc_blocks_apart [OF first_heap_ok this] obtain hs bs where
    bs: "block_run (kmalloc (\<lambda>_. 0)) [first_header 0x200000] [100, 200] = Inr (hs, bs)" "map snd bs = [100, 200]"
    "sorted_wrt (\<lambda>r q. area r \<inter> area q = {}) bs" by (elim exE conjE)
  obtain a b where "bs = [(a, 100), (b, 200)]" using bs(2) by (auto simp: map_eq_Cons_conv)
  with bs show ?thesis by auto
qed

section \<open>Where the heap goes wrong\<close>

text \<open>
  C40. A header added later gives its only pointer the size of the whole header instead of what is left
  behind the two structures: after the request it was added for, a request for the rest its
  pointer announces is granted a block that ends 40 bytes past the pages of the header.
\<close>

theorem kmalloc_overruns_new_header:
  assumes "hs \<noteq> []" and "0 < bytes" and "\<forall>h \<in> set hs. h_size_max h < bytes"
    and "order = log_order (pages_needed bytes)" and "newpages order \<noteq> 0"
    and "bytes + HEADER_SIZE + POINTER_SIZE \<le> 2 ^ order * page_size" and "2 ^ order * page_size < 2 ^ 63"
    and "rest = 2 ^ order * page_size - bytes - POINTER_SIZE" and "\<forall>h \<in> set hs. h_size_max h < rest"
  shows "\<exists>hs1 hs2 a1 a2. kmalloc newpages hs bytes = Inr (hs1, a1) \<and>
    kmalloc newpages hs1 rest = Inr (hs2, a2) \<and>
    a2 + rest = newpages order + 2 ^ order * page_size + 40"
proof -
  define S where "S = 2 ^ order * (4096 :: nat)"
  define n where "n = newpages order"
  have S: "bytes + 40 \<le> S" "S < 2 ^ 63" using assms(6,7) by (simp_all add: S_def)
  have sub: "sub64 S bytes = S - bytes" "sub64 (S - bytes) 16 = S - bytes - 16"
    using S by (intro sub64_exact; simp)+
  define h1 where "h1 = \<lparr>h_addr = n, h_size = S, h_size_max = rest,
    h_ptrs = [\<lparr>p_addr = n + 24, p_size = 0\<rparr>, \<lparr>p_addr = n + 40 + bytes, p_size = rest\<rparr>]\<rparr>"
  have new: "header_alloc (new_header n (2 ^ order)) bytes = Inr (h1, n + 40)"
    using S sub assms(8)
    by (simp add: header_alloc_def new_header_def use_pointer_def findSize_max_def h1_def Let_def
        S_def [symmetric])
  have walk: "kmalloc_walk newpages hs bytes = Inr (hs @ [h1], n + 40)"
    using assms(3)
  proof (induction hs)
    case Nil
    with new assms(4,5) show ?case by (simp add: n_def Let_def)
  qed simp
  have "0 < rest" using S assms(8) by (simp add: S_def [symmetric])
  then obtain h2 where h2: "header_alloc h1 rest = Inr (h2, n + 40 + bytes + 16)"
    by (simp add: header_alloc_def h1_def use_pointer_def Let_def)
  have "kmalloc_walk newpages (hs @ [h1]) rest = Inr (hs @ [h2], n + 40 + bytes + 16)"
    using assms(9)
  proof (induction hs)
    case Nil
    with h2 show ?case by (simp add: h1_def)
  qed simp
  with walk \<open>0 < rest\<close> assms(1,2)
  have "kmalloc newpages hs bytes = Inr (hs @ [h1], n + 40)"
    "kmalloc newpages (hs @ [h1]) rest = Inr (hs @ [h2], n + 40 + bytes + 16)"
    by (simp_all add: kmalloc_def)
  moreover have "n + 40 + bytes + 16 + rest = n + S + 40"
    using S assms(8) by (simp add: S_def [symmetric])
  ultimately show ?thesis unfolding S_def n_def page_size_def by blast
qed

theorem kmalloc_overruns_witness:
  "\<exists>hs1 hs2 a1 a2. kmalloc (\<lambda>_. 0x400000) [first_header 0x200000] 4100 = Inr (hs1, a1) \<and>
     kmalloc (\<lambda>_. 0x400000) hs1 4076 = Inr (hs2, a2) \<and> a2 + 4076 = 0x400000 + 2 * page_size + 40"
proof -
  have "log_order (pages_needed 4100) = 1"
    using log_order_high [of 1 2] by (simp add: pages_needed_def)
  with kmalloc_overruns_new_header [of "[first_header 0x200000]" 4100 1 "\<lambda>_. 0x400000" 4076]
  show ?thesis by (simp add: first_header_def)
qed

lemma free_pointer_none: "\<forall>p \<in> set ps. p_addr p + 256 \<noteq> address \<Longrightarrow> free_pointer ps address = None"
  by (induction ps) auto

text \<open>
  \<open>kfree\<close> looks for a pointer 256 bytes below the address, not 16, so a block that \<open>kmalloc\<close>
  returned is not given back: unless some pointer happens to lie exactly there, the heap stays as
  it was.
\<close>

theorem kfree_leaks:
  assumes "\<forall>h \<in> set hs. \<forall>p \<in> set (h_ptrs h). p_addr p + 256 \<noteq> address"
  shows "kfree hs address = Inr hs"
proof -
  have "kfree_walk all hs address = Inr hs" for all
    using assms by (induction hs) (auto simp: free_pointer_none)
  then show ?thesis by (simp add: kfree_def)
qed

theorem kfree_leaks_witness:
  "\<exists>hs a. kmalloc (\<lambda>_. 0) [first_header 0x200000] 100 = Inr (hs, a) \<and> a \<noteq> 0 \<and> kfree hs a = Inr hs"
proof -
  obtain hs where hs: "kmalloc (\<lambda>_. 0) [first_header 0x200000] 100 = Inr (hs, 0x200028)"
    "\<forall>h \<in> set hs. \<forall>p \<in> set (h_ptrs h). p_addr p + 256 \<noteq> 0x200028"
    by (simp add: kmalloc_def first_header_def header_alloc_def use_pointer_def sub64_def Let_def)
  from kfree_leaks [OF hs(2)] hs(1) show ?thesis by auto
qed

text \<open>
  When a pointer does lie there, the wrong block is freed, with a size that has wrapped: after
  requests of 224 and 8 bytes, \<open>kfree\<close> of the second wipes nearly the whole address space,
  starting behind the pointer of the block it was called for.
\<close>

theorem kfree_wipes_wrong_block:
  "\<exists>hs1 hs2 a1 a2. kmalloc newpages [first_header 0x200000] 224 = Inr (hs1, a1) \<and>
     kmalloc newpages hs1 8 = Inr (hs2, a2) \<and> a2 = a1 + 240 \<and>
     free_pointer (h_ptrs (hd hs2)) a2 =
       Some (\<lparr>p_addr = a1 - 16, p_size = 2 ^ 64 - 16\<rparr> # tl (h_ptrs (hd hs2)), 2 ^ 64 - 16) \<and>
     kfree hs2 a2 = Inl OutOfBounds"
  by (simp add: kmalloc_def first_header_def header_alloc_def use_pointer_def findSize_max_def
      kfree_def wipe_hits_def overlaps_def next_addr_def sub64_def Let_def)

section \<open>The allocator before the heap\<close>

text \<open>
  \<open>memstck_malloc\<close>, which serves \<open>kmalloc\<close> until \<open>mm_init\<close> is done: it goes up from the end of the
  kernel image (\<open>_MemEnd\<close>, set by the linker) to 2 MiB and never takes anything back.
\<close>

record memstck =
  MemStack_init :: bool
  MemStack_enable :: bool
  MemStack :: nat

definition memstck_malloc :: "nat \<Rightarrow> memstck \<Rightarrow> nat \<Rightarrow> memstck \<times> nat" where
  "memstck_malloc mem_end s bytes =
     (if \<not> MemStack_enable s then (s, 0)
      else
        let s = (if \<not> MemStack_init s then s\<lparr>MemStack := mem_end + 64, MemStack_init := True\<rparr> else s) in
        if MemStack s \<ge> 0x200000 then (s\<lparr>MemStack_enable := False\<rparr>, 0)
        else if add64 (MemStack s) bytes \<ge> 0x200000 then (s, 0)
        else (s\<lparr>MemStack := add64 (MemStack s) (add64 bytes 1)\<rparr>, MemStack s))"

definition memstck_disable :: "memstck \<Rightarrow> memstck" where
  "memstck_disable s = s\<lparr>MemStack_enable := False\<rparr>"

fun memstck_run :: "nat \<Rightarrow> memstck \<Rightarrow> nat list \<Rightarrow> memstck \<times> (nat \<times> nat) list" where
  "memstck_run mem_end s [] = (s, [])"
| "memstck_run mem_end s (n # ns) =
     (case memstck_malloc mem_end s n of (s1, a) \<Rightarrow>
        case memstck_run mem_end s1 ns of (s2, as) \<Rightarrow> (s2, if a = 0 then as else (a, n) # as))"

definition memstck_ok :: "nat \<Rightarrow> memstck \<Rightarrow> bool" where
  "memstck_ok lo s \<longleftrightarrow> lo \<le> MemStack s \<and> MemStack s \<le> 0x200000 + 1"

text \<open>
  One request below the address space's wrap: refused without a change to the pointer, or served at
  the pointer, which moves past the block and its closing zero.
\<close>

lemma memstck_step:
  assumes "memstck_malloc e s n = (s', a)" and "n < 2 ^ 63" and "e + 64 \<le> 0x200000"
    and "lo = (if MemStack_init s then MemStack s else e + 64)" and "lo \<le> 0x200000"
  shows "(a = 0 \<and> (MemStack_init s' \<longrightarrow> MemStack s' = lo) \<and>
        (\<not> MemStack_init s' \<longrightarrow> \<not> MemStack_init s)) \<or>
    (a = lo \<and> a + n < 0x200000 \<and> MemStack_init s' \<and> MemStack s' = a + n + 1)"
proof -
  have "add64 lo n = lo + n" "add64 n 1 = n + 1" "add64 lo (n + 1) = lo + n + 1"
    using assms(2,5) by (simp_all add: wrap_simps)
  then show ?thesis
    using assms(1,4) by (auto simp: memstck_malloc_def Let_def split: if_splits)
qed

text \<open>
  Before the heap exists, any sequence of requests is served from disjoint areas between the end
  of the kernel image and 2 MiB, each followed by a zero byte of its own.
\<close>

theorem memstck_areas_apart:
  assumes "memstck_run e s ns = (s', as)" and "\<forall>n \<in> set ns. n < 2 ^ 63" and "e + 64 \<le> 0x200000"
    and "lo = (if MemStack_init s then MemStack s else e + 64)" and "lo \<le> 0x200000"
  shows "sorted_wrt (\<lambda>(a, n) (b, m). a + n < b) as \<and> (\<forall>(a, n) \<in> set as. lo \<le> a \<and> a + n < 0x200000)"
  using assms
proof (induction ns arbitrary: s lo as)
  case Nil
  then show ?case by simp
next
  case (Cons n ns)
  obtain s1 a where one: "memstck_malloc e s n = (s1, a)" by (cases "memstck_malloc e s n")
  obtain bs where rest: "memstck_run e s1 ns = (s', bs)" and as: "as = (if a = 0 then bs else (a, n) # bs)"
    using Cons.prems(1) one by (auto split: prod.splits)
  define lo1 where "lo1 = (if MemStack_init s1 then MemStack s1 else e + 64)"
  have n: "n < 2 ^ 63" and ns: "\<forall>n \<in> set ns. n < 2 ^ 63" using Cons.prems(2) by auto
  from memstck_step [OF one n Cons.prems(3-5)]
  consider (no) "a = 0" "lo1 = lo" | (yes) "a = lo" "a + n < 0x200000" "lo1 = a + n + 1"
    using Cons.prems(4) by (auto simp: lo1_def)
  then show ?case
  proof cases
    case no
    with Cons.IH [OF rest ns Cons.prems(3) lo1_def] Cons.prems(5) as show ?thesis by simp
  next
    case yes
    with Cons.IH [OF rest ns Cons.prems(3) lo1_def] as show ?thesis
      by (fastforce split: if_splits)
  qed
qed

theorem memstck_areas_apart_witness:
  "\<exists>s' as. memstck_run 0x180000 \<lparr>MemStack_init = False, MemStack_enable = True, MemStack = 0\<rparr> [16, 100, 8] = (s', as) \<and>
     sorted_wrt (\<lambda>(a, n) (b, m). a + n < b) as"
proof -
  let ?s = "\<lparr>MemStack_init = False, MemStack_enable = True, MemStack = 0\<rparr>"
  obtain s' as where run: "memstck_run 0x180000 ?s [16, 100, 8] = (s', as)"
    by (cases "memstck_run 0x180000 ?s [16, 100, 8]")
  from memstck_areas_apart [OF this _ _ refl] run show ?thesis by simp
qed

end
