(* ===== verification/Bytes.thy ===== *)
theory Bytes
  imports Prelude
begin

text \<open>
  Reading machine integers out of byte objects. The processor is little-endian: the value behind a
  \<open>uint16_t *\<close>, \<open>uint32_t *\<close> or \<open>uintptr_t *\<close> is made of the bytes from that address on, the lowest
  first. A read past the end of the object is \<open>OutOfBounds\<close>.
\<close>

fun le_word :: "u8 list \<Rightarrow> 'a :: len word" where
  "le_word [] = 0"
| "le_word (b # bs) = ucast b OR push_bit 8 (le_word bs)"

definition word_bytes :: "nat \<Rightarrow> 'a :: len word \<Rightarrow> u8 list" where
  "word_bytes k w = map (\<lambda>i. ucast (drop_bit (8 * i) w)) [0..<k]"

definition get_word :: "nat \<Rightarrow> u8 list \<Rightarrow> nat \<Rightarrow> ('a :: len word) res" where
  "get_word k f i = (if i + k \<le> length f then Inr (le_word (take k (drop i f))) else Inl OutOfBounds)"

abbreviation get8 :: "u8 list \<Rightarrow> nat \<Rightarrow> u8 res" where "get8 \<equiv> get_word 1"
abbreviation get16 :: "u8 list \<Rightarrow> nat \<Rightarrow> u16 res" where "get16 \<equiv> get_word 2"
abbreviation get32 :: "u8 list \<Rightarrow> nat \<Rightarrow> u32 res" where "get32 \<equiv> get_word 4"
abbreviation get64 :: "u8 list \<Rightarrow> nat \<Rightarrow> u64 res" where "get64 \<equiv> get_word 8"

lemma bit_le_word:
  "bit (le_word bs :: 'a :: len word) n \<longleftrightarrow>
     n < LENGTH('a) \<and> n div 8 < length bs \<and> bit (bs ! (n div 8)) (n mod 8)"
proof (induction bs arbitrary: n)
  case Nil
  then show ?case by simp
next
  case (Cons b bs)
  show ?case
  proof (cases "n < 8")
    case True
    then show ?thesis by (auto simp: bit_simps dest: bit_imp_le_length)
  next
    case False
    then obtain m where m: "n = m + 8" by (metis add.commute le_Suc_ex not_less)
    have "\<not> bit b n" using False bit_imp_le_length [of b n] by auto
    moreover have "(m + 8) div 8 = Suc (m div 8)" by simp
    ultimately show ?thesis
      using Cons [of m] by (auto simp: m bit_simps)
  qed
qed

lemma length_word_bytes [simp]: "length (word_bytes k w) = k"
  by (simp add: word_bytes_def)

lemma bit_word_bytes: "i < k \<Longrightarrow> bit (word_bytes k w ! i) m \<longleftrightarrow> m < 8 \<and> bit w (8 * i + m)"
  by (simp add: word_bytes_def bit_simps)

lemma le_word_bytes: "LENGTH('a) \<le> 8 * k \<Longrightarrow> le_word (word_bytes k w) = (w :: 'a :: len word)"
proof (rule bit_eqI)
  fix n
  assume k: "LENGTH('a) \<le> 8 * k"
  have "bit (le_word (word_bytes k w) :: 'a word) n \<longleftrightarrow>
      n < LENGTH('a) \<and> n div 8 < k \<and> bit (word_bytes k w ! (n div 8)) (n mod 8)"
    by (simp add: bit_le_word)
  also have "\<dots> \<longleftrightarrow> bit w n"
    using k bit_imp_le_length [of w n] by (auto simp: bit_word_bytes)
  finally show "bit (le_word (word_bytes k w) :: 'a word) n \<longleftrightarrow> bit w n" .
qed

lemma get_word_append:
  assumes "i = length pre" and "LENGTH('a) \<le> 8 * k"
  shows "get_word k (pre @ word_bytes k w @ post) i = Inr (w :: 'a :: len word)"
  using assms by (simp add: get_word_def le_word_bytes)

lemma word_bytes_le_word:
  assumes "length bs = k" and "8 * k \<le> LENGTH('a)"
  shows "word_bytes k (le_word bs :: 'a :: len word) = bs"
proof (rule nth_equalityI)
  show "length (word_bytes k (le_word bs :: 'a word)) = length bs" using assms(1) by simp
  fix i
  assume "i < length (word_bytes k (le_word bs :: 'a word))"
  then have i: "i < k" by simp
  show "word_bytes k (le_word bs :: 'a word) ! i = bs ! i"
  proof (rule bit_eqI)
    fix m
    assume "possible_bit TYPE(8 word) m"
    then have m: "m < 8" by simp
    have "8 * i + m < LENGTH('a)" using i m assms(2) by linarith
    moreover have "(8 * i + m) div 8 = i" "(8 * i + m) mod 8 = m" using m by simp_all
    ultimately show "bit (word_bytes k (le_word bs :: 'a word) ! i) m \<longleftrightarrow> bit (bs ! i) m"
      using i m assms(1) by (simp add: bit_word_bytes bit_le_word)
  qed
qed

lemma le_word_ucast:
  "8 * k \<le> LENGTH('a) \<Longrightarrow> LENGTH('a) \<le> 8 * k \<Longrightarrow> LENGTH('a) \<le> LENGTH('b) \<Longrightarrow>
     (le_word (word_bytes k (w :: 'a :: len word)) :: 'b :: len word) = ucast w"
proof (rule bit_eqI)
  fix n
  assume k: "8 * k \<le> LENGTH('a)" "LENGTH('a) \<le> 8 * k" "LENGTH('a) \<le> LENGTH('b)"
  show "bit (le_word (word_bytes k w) :: 'b word) n \<longleftrightarrow> bit (ucast w :: 'b word) n"
  proof (cases "n < 8 * k")
    case True
    then have "n div 8 < k" by (simp add: less_mult_imp_div_less mult.commute)
    with True k show ?thesis by (simp add: bit_le_word bit_word_bytes bit_simps)
  next
    case False
    then have "\<not> n div 8 < k" by (simp add: div_less_iff_less_mult mult.commute)
    moreover have "\<not> bit w n" using False k bit_imp_le_length [of w n] by auto
    ultimately show ?thesis by (simp add: bit_le_word bit_simps)
  qed
qed

end
