(* ===== verification/Elf.thy ===== *)
theory Elf
  imports Bytes
begin

text \<open>
  The ELF reader of mutils/elf. A file is the list of its bytes; the structures the parsers fill are
  records, their arrays lists. \<open>char *\<close> fields that point into the file are offsets into it. The
  memory of the structures comes from \<open>kmalloc\<close> and is taken to be there. \<open>header_length\<close> of
  \<open>struct ELF_HEADER\<close>, which no function sets, is left out.
\<close>

definition isLittleEndian :: bool where [simp]: "isLittleEndian = True"

definition isBigEndian :: bool where [simp]: "isBigEndian = False"

definition EI_CLASS :: nat where [simp]: "EI_CLASS = 4"

definition EI_DATA :: nat where [simp]: "EI_DATA = 5"

definition FileIsELF :: "u8 list \<Rightarrow> bool res" where
  "FileIsELF file =
     (case get8 file 0 of Inl e \<Rightarrow> Inl e | Inr b0 \<Rightarrow> if b0 \<noteq> 0x7F then Inr False else
      case get8 file 1 of Inl e \<Rightarrow> Inl e | Inr b1 \<Rightarrow> if b1 \<noteq> 0x45 then Inr False else
      case get8 file 2 of Inl e \<Rightarrow> Inl e | Inr b2 \<Rightarrow> if b2 \<noteq> 0x4C then Inr False else
      case get8 file 3 of Inl e \<Rightarrow> Inl e | Inr b3 \<Rightarrow> Inr (b3 = 0x46))"

definition swap_uint16 :: "u16 \<Rightarrow> u16" where
  "swap_uint16 val = push_bit 8 val OR drop_bit 8 val"

definition swap_uint32 :: "u32 \<Rightarrow> u32" where
  "swap_uint32 val =
     (let val = (push_bit 8 val AND 0xFF00FF00) OR (drop_bit 8 val AND 0xFF00FF)
      in push_bit 16 val OR drop_bit 16 val)"

definition swap_uintptr :: "u64 \<Rightarrow> u64" where
  "swap_uintptr val = le_word (rev (word_bytes 8 val))"

text \<open>A bit of a byte and its place in the byte.\<close>

lemma bit_le_word_at:
  "r < 8 \<Longrightarrow> 8 * q + r < LENGTH('a) \<Longrightarrow>
     bit (le_word bs :: 'a :: len word) (8 * q + r) \<longleftrightarrow> q < length bs \<and> bit (bs ! q) r"
  by (simp add: bit_le_word)

lemma byte_place:
  fixes n :: nat
  obtains q r where "n = 8 * q + r" "r < 8"
  using mult_div_mod_eq [of 8 n] by (metis mod_less_divisor zero_less_numeral)

lemma swap_uint16_bytes: "swap_uint16 w = le_word (rev (word_bytes 2 w))"
proof (rule bit_eqI)
  fix n
  assume "possible_bit TYPE(16 word) n"
  then have "n < 16" by simp
  obtain q r where n: "n = 8 * q + r" "r < 8" by (rule byte_place)
  with \<open>n < 16\<close> have "q = 0 \<or> q = 1" by linarith
  moreover have "bit (le_word (rev (word_bytes 2 w)) :: u16) n \<longleftrightarrow> bit w (8 * (1 - q) + r)"
    unfolding n(1) using n(2) calculation by (subst bit_le_word_at) (auto simp: rev_nth bit_word_bytes)
  ultimately show "bit (swap_uint16 w) n \<longleftrightarrow> bit (le_word (rev (word_bytes 2 w)) :: u16) n"
    using n(2) bit_imp_le_length [of w "16 + r"]
    unfolding n(1) by (auto simp: swap_uint16_def bit_simps)
qed

lemma ones_bit: "r < 8 \<Longrightarrow> bit (0xFF :: u8) r"
proof -
  have "(0xFF :: u8) = - 1" by simp
  then show "r < 8 \<Longrightarrow> bit (0xFF :: u8) r" by (simp only: bit_minus_1_iff) simp
qed

lemma mask_bytes:
  assumes "r < 8" and "q < 4"
  shows "bit (0xFF00FF00 :: u32) (8 * q + r) \<longleftrightarrow> q \<in> {1, 3}"
    and "bit (0x00FF00FF :: u32) (8 * q + r) \<longleftrightarrow> q \<in> {0, 2}"
proof -
  have q: "q = 0 \<or> q = 1 \<or> q = 2 \<or> q = 3" using assms(2) by linarith
  have m: "(0xFF00FF00 :: u32) = le_word [0, 0xFF, 0, 0xFF]"
    "(0x00FF00FF :: u32) = le_word [0xFF, 0, 0xFF, 0]"
    by simp_all
  show "bit (0xFF00FF00 :: u32) (8 * q + r) \<longleftrightarrow> q \<in> {1, 3}"
    and "bit (0x00FF00FF :: u32) (8 * q + r) \<longleftrightarrow> q \<in> {0, 2}"
    unfolding m using q assms ones_bit [OF assms(1)] by (auto simp: bit_le_word_at simp del: le_word.simps)
qed

lemma swap_uint32_bytes: "swap_uint32 w = le_word (rev (word_bytes 4 w))"
proof (rule bit_eqI)
  fix n
  assume "possible_bit TYPE(32 word) n"
  then have "n < 32" by simp
  obtain q r where n: "n = 8 * q + r" "r < 8" by (rule byte_place)
  with \<open>n < 32\<close> have q: "q < 4" by linarith
  define v where "v = (push_bit 8 w AND 0xFF00FF00) OR (drop_bit 8 w AND 0xFF00FF)"
  have v: "bit v (8 * p + r) \<longleftrightarrow> bit w (8 * (if odd p then p - 1 else p + 1) + r)" if "p < 4" for p
  proof -
    have "p = 0 \<or> p = 1 \<or> p = 2 \<or> p = 3" using that by linarith
    then show ?thesis
      using n(2) mask_bytes [OF n(2) that] by (auto simp: v_def bit_simps)
  qed
  have s: "swap_uint32 w = push_bit 16 v OR drop_bit 16 v"
    by (simp add: swap_uint32_def v_def)
  have "bit (swap_uint32 w) n \<longleftrightarrow> bit v (8 * (if q < 2 then q + 2 else q - 2) + r)"
  proof (cases "q < 2")
    case True
    then have "n + 16 = 8 * (q + 2) + r" "n < 16" using n by simp_all
    with True show ?thesis by (simp add: s bit_simps ac_simps)
  next
    case False
    then have "n - 16 = 8 * (q - 2) + r" "16 \<le> n" using n by auto
    moreover have "\<not> bit v (16 + n)" using bit_imp_le_length [of v "16 + n"] \<open>16 \<le> n\<close> by auto
    ultimately show ?thesis using False \<open>n < 32\<close> by (simp add: s bit_simps)
  qed
  also have "\<dots> \<longleftrightarrow> bit w (8 * (3 - q) + r)"
  proof -
    have "q = 0 \<or> q = 1 \<or> q = 2 \<or> q = 3" using q by linarith
    then show ?thesis using v [of "if q < 2 then q + 2 else q - 2"] by auto
  qed
  also have "\<dots> \<longleftrightarrow> bit (le_word (rev (word_bytes 4 w)) :: u32) n"
    using n q by (simp add: bit_le_word_at rev_nth bit_word_bytes)
  finally show "bit (swap_uint32 w) n \<longleftrightarrow> bit (le_word (rev (word_bytes 4 w)) :: u32) n" .
qed

section \<open>The file header\<close>

record ELF_HEADER =
  e_ident :: "u8 list"
  e_type :: u16
  e_machine :: u16
  e_version :: u32
  e_entry :: u64
  e_phoff :: u64
  e_shoff :: u64
  e_flags :: u32
  e_ehsize :: u16
  e_phentsize :: u16
  e_phnum :: u16
  e_shentsize :: u16
  e_shnum :: u16
  e_shstrndx :: u16

definition endian_mismatch :: "u8 \<Rightarrow> bool" where
  "endian_mismatch data = ((isLittleEndian \<and> data = 2) \<or> (isBigEndian \<and> data = 1))"

definition read_header :: "u8 list \<Rightarrow> ELF_HEADER res" where
  "read_header h =
     and_then (get16 h 0x10) (\<lambda>ty. and_then (get16 h 0x12) (\<lambda>machine.
     and_then (get32 h 0x14) (\<lambda>version. and_then (get64 h 0x18) (\<lambda>entry.
     and_then (get8 h EI_CLASS) (\<lambda>cls.
       let flags_start = (if cls = 2 then 0x30 else 0x24) in
     and_then (get64 h (if cls = 2 then 0x20 else 0x1C)) (\<lambda>phoff.
     and_then (get64 h (if cls = 2 then 0x28 else 0x20)) (\<lambda>shoff.
     and_then (get32 h flags_start) (\<lambda>flags. and_then (get16 h (flags_start + 4)) (\<lambda>ehsize.
     and_then (get16 h (flags_start + 6)) (\<lambda>phentsize. and_then (get16 h (flags_start + 8)) (\<lambda>phnum.
     and_then (get16 h (flags_start + 10)) (\<lambda>shentsize. and_then (get16 h (flags_start + 12)) (\<lambda>shnum.
     and_then (get16 h (flags_start + 14)) (\<lambda>shstrndx.
     Inr \<lparr>e_ident = h, e_type = ty, e_machine = machine, e_version = version, e_entry = entry,
          e_phoff = phoff, e_shoff = shoff, e_flags = flags, e_ehsize = ehsize,
          e_phentsize = phentsize, e_phnum = phnum, e_shentsize = shentsize, e_shnum = shnum,
          e_shstrndx = shstrndx\<rparr>))))))))))))))"

definition swap_header :: "ELF_HEADER \<Rightarrow> ELF_HEADER" where
  "swap_header hdr =
     (let hdr = hdr\<lparr>e_type := swap_uint16 (e_type hdr)\<rparr>;
          hdr = hdr\<lparr>e_machine := swap_uint16 (e_machine hdr)\<rparr>;
          hdr = hdr\<lparr>e_machine := swap_uint16 (e_machine hdr)\<rparr>;
          hdr = hdr\<lparr>e_version := swap_uint32 (e_version hdr)\<rparr>;
          hdr = hdr\<lparr>e_entry := swap_uintptr (e_entry hdr)\<rparr>;
          hdr = hdr\<lparr>e_phoff := swap_uintptr (e_phoff hdr)\<rparr>;
          hdr = hdr\<lparr>e_shoff := swap_uintptr (e_phoff hdr)\<rparr>;
          hdr = hdr\<lparr>e_flags := swap_uint32 (e_flags hdr)\<rparr>;
          hdr = hdr\<lparr>e_ehsize := swap_uint16 (e_ehsize hdr)\<rparr>;
          hdr = hdr\<lparr>e_phentsize := swap_uint16 (e_phentsize hdr)\<rparr>;
          hdr = hdr\<lparr>e_phnum := swap_uint16 (e_phnum hdr)\<rparr>;
          hdr = hdr\<lparr>e_shentsize := swap_uint16 (e_shentsize hdr)\<rparr>;
          hdr = hdr\<lparr>e_shnum := swap_uint16 (e_shnum hdr)\<rparr>
      in hdr\<lparr>e_shstrndx := swap_uint16 (e_shstrndx hdr)\<rparr>)"

definition ParseELF_HEADER :: "u8 list \<Rightarrow> ELF_HEADER option res" where
  "ParseELF_HEADER header =
     and_then (FileIsELF header) (\<lambda>is_elf.
       if \<not> is_elf then Inr None
       else and_then (read_header header) (\<lambda>hdr.
         and_then (get8 (e_ident hdr) EI_DATA) (\<lambda>data.
           Inr (Some (if endian_mismatch data then swap_header hdr else hdr)))))"

section \<open>Program and section headers\<close>

record ELF_PROGRAM_HEADER =
  ph_header :: nat
  ph_header_length :: nat
  p_type :: u32
  p_flags :: u32
  p_offset :: u64
  p_vaddr :: u64
  p_paddr :: u64
  p_filesz :: u64
  p_memsz :: u64
  p_align :: u64

definition read_prg :: "u8 list \<Rightarrow> bool \<Rightarrow> nat \<Rightarrow> ELF_PROGRAM_HEADER res" where
  "read_prg f is64 ent =
     and_then (get32 f ent) (\<lambda>ty.
     and_then (get64 f (ent + (if is64 then 0x08 else 0x04))) (\<lambda>off.
     and_then (get64 f (ent + (if is64 then 0x10 else 0x08))) (\<lambda>vaddr.
     and_then (get64 f (ent + (if is64 then 0x18 else 0x0C))) (\<lambda>paddr.
     and_then (get64 f (ent + (if is64 then 0x20 else 0x10))) (\<lambda>filesz.
     and_then (get64 f (ent + (if is64 then 0x28 else 0x14))) (\<lambda>memsz.
     and_then (get64 f (ent + (if is64 then 0x30 else 0x1C))) (\<lambda>align.
     and_then (get32 f (ent + (if is64 then 0x04 else 0x18))) (\<lambda>flags.
     Inr \<lparr>ph_header = ent, ph_header_length = (if is64 then 0x38 else 0x20), p_type = ty,
          p_flags = flags, p_offset = off, p_vaddr = vaddr, p_paddr = paddr, p_filesz = filesz,
          p_memsz = memsz, p_align = align\<rparr>))))))))"

definition swap_prg :: "ELF_PROGRAM_HEADER \<Rightarrow> ELF_PROGRAM_HEADER" where
  "swap_prg p =
     p\<lparr>p_type := swap_uint32 (p_type p), p_flags := swap_uint32 (p_flags p),
       p_offset := swap_uintptr (p_offset p), p_vaddr := swap_uintptr (p_vaddr p),
       p_paddr := swap_uintptr (p_paddr p), p_filesz := swap_uintptr (p_filesz p),
       p_memsz := swap_uintptr (p_memsz p), p_align := swap_uintptr (p_align p)\<rparr>"

record ELF_SECTION_HEADER =
  sh_name :: u32
  sh_type :: u32
  sh_flags :: u64
  sh_addr :: u64
  sh_offset :: u64
  sh_size :: u64
  sh_link :: u32
  sh_info :: u32
  sh_addralign :: u64
  sh_entsize :: u64

definition read_sct :: "u8 list \<Rightarrow> nat \<Rightarrow> ELF_SECTION_HEADER res" where
  "read_sct f ent =
     and_then (get32 f ent) (\<lambda>name. and_then (get32 f (ent + 0x04)) (\<lambda>ty.
     and_then (get64 f (ent + 0x08)) (\<lambda>flags. and_then (get64 f (ent + 0x10)) (\<lambda>addr.
     and_then (get64 f (ent + 0x18)) (\<lambda>off. and_then (get64 f (ent + 0x20)) (\<lambda>size.
     and_then (get32 f (ent + 0x28)) (\<lambda>link. and_then (get32 f (ent + 0x2C)) (\<lambda>info.
     and_then (get64 f (ent + 0x30)) (\<lambda>addralign. and_then (get64 f (ent + 0x38)) (\<lambda>entsize.
     Inr \<lparr>sh_name = name, sh_type = ty, sh_flags = flags, sh_addr = addr, sh_offset = off,
          sh_size = size, sh_link = link, sh_info = info, sh_addralign = addralign,
          sh_entsize = entsize\<rparr>))))))))))"

definition swap_sct :: "ELF_SECTION_HEADER \<Rightarrow> ELF_SECTION_HEADER" where
  "swap_sct s =
     (let s = s\<lparr>sh_name := swap_uint32 (sh_name s), sh_type := swap_uint32 (sh_type s)\<rparr>;
          s = s\<lparr>sh_flags := swap_uintptr (sh_flags s)\<rparr>;
          s = s\<lparr>sh_addr := swap_uintptr (sh_addr s)\<rparr>;
          s = s\<lparr>sh_offset := swap_uintptr (sh_flags s)\<rparr>;
          s = s\<lparr>sh_size := swap_uintptr (sh_size s)\<rparr>
      in s\<lparr>sh_link := swap_uint32 (sh_link s), sh_info := swap_uint32 (sh_info s),
          sh_addralign := swap_uintptr (sh_addralign s), sh_entsize := swap_uintptr (sh_entsize s)\<rparr>)"

text \<open>The loops over the entries: \<open>i\<close> counts up to \<open>n\<close>.\<close>

fun parse_prgs :: "u8 list \<Rightarrow> bool \<Rightarrow> bool \<Rightarrow> nat \<Rightarrow> nat \<Rightarrow> nat \<Rightarrow> ELF_PROGRAM_HEADER list res" where
  "parse_prgs f is64 swap start i 0 = Inr []"
| "parse_prgs f is64 swap start i (Suc n) =
     and_then (read_prg f is64 (start + (if is64 then 0x38 else 0x20) * i)) (\<lambda>p.
     and_then (parse_prgs f is64 swap start (Suc i) n) (\<lambda>ps.
     Inr ((if swap then swap_prg p else p) # ps)))"

definition ParseELF_PRG_HEADER :: "ELF_HEADER \<Rightarrow> u8 list \<Rightarrow> nat \<Rightarrow> ELF_PROGRAM_HEADER list res" where
  "ParseELF_PRG_HEADER hdr f prg_hdr_start =
     and_then (get8 (e_ident hdr) EI_CLASS) (\<lambda>cls. and_then (get8 (e_ident hdr) EI_DATA) (\<lambda>data.
     parse_prgs f (cls = 2) (endian_mismatch data) prg_hdr_start 0 (unat (e_phnum hdr))))"

fun parse_scts :: "u8 list \<Rightarrow> nat \<Rightarrow> bool \<Rightarrow> nat \<Rightarrow> nat \<Rightarrow> nat \<Rightarrow> ELF_SECTION_HEADER list res" where
  "parse_scts f esize swap start i 0 = Inr []"
| "parse_scts f esize swap start i (Suc n) =
     and_then (read_sct f (start + esize * i)) (\<lambda>s.
     and_then (parse_scts f esize swap start (Suc i) n) (\<lambda>ss.
     Inr ((if swap then swap_sct s else s) # ss)))"

definition ParseELF_SCT_HEADER :: "ELF_HEADER \<Rightarrow> u8 list \<Rightarrow> nat \<Rightarrow> ELF_SECTION_HEADER list res" where
  "ParseELF_SCT_HEADER hdr f sct_hdr_start =
     and_then (get8 (e_ident hdr) EI_CLASS) (\<lambda>cls. and_then (get8 (e_ident hdr) EI_DATA) (\<lambda>data.
     parse_scts f (if cls = 2 then 0x40 else 0x28) (endian_mismatch data) sct_hdr_start 0
       (unat (e_shnum hdr))))"

section \<open>The file\<close>

record ELF_OBJ =
  obj_FILE :: "u8 list"
  obj_FILE_LENGTH :: nat
  obj_header :: ELF_HEADER
  obj_program_headers :: "ELF_PROGRAM_HEADER list"
  obj_section_headers :: "ELF_SECTION_HEADER list"

definition ParseELF :: "u8 list \<Rightarrow> nat \<Rightarrow> ELF_OBJ option res" where
  "ParseELF file len =
     and_then (FileIsELF file) (\<lambda>is_elf.
       if \<not> is_elf then Inr None
       else if len > length file then Inl OutOfBounds
       else
         let f = take len file in
         and_then (ParseELF_HEADER f) (\<lambda>h.
           case h of None \<Rightarrow> Inl NullDeref
           | Some hdr \<Rightarrow>
               and_then (ParseELF_PRG_HEADER hdr f (unat (e_phoff hdr))) (\<lambda>prgs.
               and_then (ParseELF_SCT_HEADER hdr f (unat (e_shoff hdr))) (\<lambda>scts.
               Inr (Some \<lparr>obj_FILE = f, obj_FILE_LENGTH = len, obj_header = hdr,
                 obj_program_headers = prgs, obj_section_headers = scts\<rparr>)))))"

section \<open>Round trips\<close>

text \<open>The 64-bit file header as the ELF specification lays it out, in either byte order.\<close>

definition enc :: "u8 \<Rightarrow> nat \<Rightarrow> 'a :: len word \<Rightarrow> u8 list" where
  "enc data k w = (if data = 2 then rev (word_bytes k w) else word_bytes k w)"

definition magic64 :: "u8 \<Rightarrow> u8 list" where
  "magic64 data = [0x7F, 0x45, 0x4C, 0x46, 2, data]"

definition encode64 :: "u8 \<Rightarrow> u8 list \<Rightarrow> ELF_HEADER \<Rightarrow> u8 list" where
  "encode64 data pad h =
     magic64 data @ pad @ enc data 2 (e_type h) @ enc data 2 (e_machine h) @
     enc data 4 (e_version h) @ enc data 8 (e_entry h) @ enc data 8 (e_phoff h) @
     enc data 8 (e_shoff h) @ enc data 4 (e_flags h) @ enc data 2 (e_ehsize h) @
     enc data 2 (e_phentsize h) @ enc data 2 (e_phnum h) @ enc data 2 (e_shentsize h) @
     enc data 2 (e_shnum h) @ enc data 2 (e_shstrndx h)"

lemma length_magic64 [simp]: "length (magic64 data) = 6"
  by (simp add: magic64_def)

lemma length_enc [simp]: "length (enc data k w) = k"
  by (simp add: enc_def)

lemma get_word_skip: "length xs \<le> i \<Longrightarrow> get_word k (xs @ ys) i = get_word k ys (i - length xs)"
  by (auto simp: get_word_def dest!: le_Suc_ex)

lemma get_word_here: "length xs = k \<Longrightarrow> get_word k (xs @ ys) 0 = Inr (le_word xs)"
  by (simp add: get_word_def)

lemma read_encode64:
  assumes "length pad = 10" and "f = encode64 data pad h @ rest"
  shows "FileIsELF f = Inr True" and "get8 f EI_CLASS = Inr 2" and "get8 f EI_DATA = Inr data"
    and "read_header f = Inr \<lparr>e_ident = f, e_type = le_word (enc data 2 (e_type h)),
      e_machine = le_word (enc data 2 (e_machine h)), e_version = le_word (enc data 4 (e_version h)),
      e_entry = le_word (enc data 8 (e_entry h)), e_phoff = le_word (enc data 8 (e_phoff h)),
      e_shoff = le_word (enc data 8 (e_shoff h)), e_flags = le_word (enc data 4 (e_flags h)),
      e_ehsize = le_word (enc data 2 (e_ehsize h)), e_phentsize = le_word (enc data 2 (e_phentsize h)),
      e_phnum = le_word (enc data 2 (e_phnum h)), e_shentsize = le_word (enc data 2 (e_shentsize h)),
      e_shnum = le_word (enc data 2 (e_shnum h)), e_shstrndx = le_word (enc data 2 (e_shstrndx h))\<rparr>"
proof -
  show c: "get8 f EI_CLASS = Inr 2" and "get8 f EI_DATA = Inr data" and "FileIsELF f = Inr True"
    by (simp_all add: assms(2) encode64_def magic64_def FileIsELF_def get_word_def)
  have f: "f = magic64 data @ pad @ enc data 2 (e_type h) @ enc data 2 (e_machine h) @
     enc data 4 (e_version h) @ enc data 8 (e_entry h) @ enc data 8 (e_phoff h) @
     enc data 8 (e_shoff h) @ enc data 4 (e_flags h) @ enc data 2 (e_ehsize h) @
     enc data 2 (e_phentsize h) @ enc data 2 (e_phnum h) @ enc data 2 (e_shentsize h) @
     enc data 2 (e_shnum h) @ enc data 2 (e_shstrndx h) @ rest"
    by (simp add: assms(2) encode64_def)
  have "get16 f 0x10 = Inr (le_word (enc data 2 (e_type h)))"
    "get16 f 0x12 = Inr (le_word (enc data 2 (e_machine h)))"
    "get32 f 0x14 = Inr (le_word (enc data 4 (e_version h)))"
    "get64 f 0x18 = Inr (le_word (enc data 8 (e_entry h)))"
    "get64 f 0x20 = Inr (le_word (enc data 8 (e_phoff h)))"
    "get64 f 0x28 = Inr (le_word (enc data 8 (e_shoff h)))"
    "get32 f 0x30 = Inr (le_word (enc data 4 (e_flags h)))"
    "get16 f 0x34 = Inr (le_word (enc data 2 (e_ehsize h)))"
    "get16 f 0x36 = Inr (le_word (enc data 2 (e_phentsize h)))"
    "get16 f 0x38 = Inr (le_word (enc data 2 (e_phnum h)))"
    "get16 f 0x3A = Inr (le_word (enc data 2 (e_shentsize h)))"
    "get16 f 0x3C = Inr (le_word (enc data 2 (e_shnum h)))"
    "get16 f 0x3E = Inr (le_word (enc data 2 (e_shstrndx h)))"
    unfolding f by (simp_all add: assms(1) get_word_skip get_word_here)
  then show "read_header f = Inr \<lparr>e_ident = f, e_type = le_word (enc data 2 (e_type h)),
      e_machine = le_word (enc data 2 (e_machine h)), e_version = le_word (enc data 4 (e_version h)),
      e_entry = le_word (enc data 8 (e_entry h)), e_phoff = le_word (enc data 8 (e_phoff h)),
      e_shoff = le_word (enc data 8 (e_shoff h)), e_flags = le_word (enc data 4 (e_flags h)),
      e_ehsize = le_word (enc data 2 (e_ehsize h)), e_phentsize = le_word (enc data 2 (e_phentsize h)),
      e_phnum = le_word (enc data 2 (e_phnum h)), e_shentsize = le_word (enc data 2 (e_shentsize h)),
      e_shnum = le_word (enc data 2 (e_shnum h)), e_shstrndx = le_word (enc data 2 (e_shstrndx h))\<rparr>"
    using c by (simp add: read_header_def Let_def)
qed

lemma le_word_enc:
  "data \<noteq> 2 \<Longrightarrow> LENGTH('a) \<le> 8 * k \<Longrightarrow> le_word (enc data k w) = (w :: 'a :: len word)"
  by (simp add: enc_def le_word_bytes)

lemma swap_enc:
  "swap_uint16 (le_word (enc 2 2 w16)) = w16"
  "swap_uint32 (le_word (enc 2 4 w32)) = w32"
  "swap_uintptr (le_word (enc 2 8 w64)) = w64"
  by (simp_all add: swap_uint16_bytes swap_uint32_bytes swap_uintptr_def enc_def word_bytes_le_word
      le_word_bytes)

text \<open>
  C33. A 64-bit little-endian file header is read back exactly as the ELF specification lays it out,
  whatever follows it in the file.
\<close>

theorem elf64_header_roundtrip:
  assumes "length pad = 10" and "data \<noteq> 2"
  shows "ParseELF_HEADER (encode64 data pad h @ rest) =
    Inr (Some (h\<lparr>e_ident := encode64 data pad h @ rest\<rparr>))"
  using assms(2) read_encode64 [OF assms(1) refl, of data h rest]
  by (simp add: ParseELF_HEADER_def endian_mismatch_def le_word_enc)

definition demo_header :: ELF_HEADER where
  "demo_header = \<lparr>e_ident = [], e_type = 2, e_machine = 0x3E, e_version = 1, e_entry = 0x400000,
     e_phoff = 64, e_shoff = 128, e_flags = 0, e_ehsize = 64, e_phentsize = 56, e_phnum = 1,
     e_shentsize = 64, e_shnum = 0, e_shstrndx = 0\<rparr>"

theorem elf64_header_roundtrip_witness:
  "ParseELF_HEADER (encode64 1 (replicate 10 0) demo_header) =
    Inr (Some (demo_header\<lparr>e_ident := encode64 1 (replicate 10 0) demo_header\<rparr>))"
  using elf64_header_roundtrip [of "replicate 10 0" 1 demo_header "[]"] by simp

text \<open>
  A 64-bit big-endian file header is read back with two wrong fields: \<open>e_machine\<close> is swapped twice
  and stays in the file's byte order, and \<open>e_shoff\<close> becomes the swapped \<open>e_phoff\<close>. All the others
  are right.
\<close>

theorem elf64_header_big_endian:
  assumes "length pad = 10"
  shows "ParseELF_HEADER (encode64 2 pad h @ rest) =
    Inr (Some (h\<lparr>e_ident := encode64 2 pad h @ rest, e_machine := swap_uint16 (e_machine h),
      e_shoff := swap_uintptr (e_phoff h)\<rparr>))"
proof -
  have twice: "swap_uint16 (swap_uint16 (le_word (enc 2 2 (e_machine h)))) = swap_uint16 (e_machine h)"
    by (simp add: swap_enc)
  show ?thesis
    using read_encode64 [OF assms refl, of 2 h rest]
    by (cases h) (simp add: ParseELF_HEADER_def endian_mismatch_def swap_header_def swap_enc Let_def)
qed

theorem elf64_header_big_endian_witness:
  "\<exists>hdr. ParseELF_HEADER (encode64 2 (replicate 10 0) demo_header) = Inr (Some hdr) \<and>
     e_entry hdr = 0x400000 \<and> e_machine hdr = 0x3E00 \<and> e_shoff hdr = 0x4000000000000000"
  using elf64_header_big_endian [of "replicate 10 0" demo_header "[]"]
  by (simp add: demo_header_def swap_uint16_def swap_uintptr_def word_bytes_def upt_rec)

text \<open>
  The parsers never look at the length of the file: any 64-bit little-endian file whose header
  announces a program header beyond its end makes \<open>ParseELF\<close> read outside the copy it made.
\<close>

theorem ParseELF_reads_outside:
  assumes "length pad = 10" and "data \<noteq> 2" and "e_phnum h \<noteq> 0"
    and "f = encode64 data pad h @ rest" and "length f < unat (e_phoff h) + 4"
  shows "ParseELF f (length f) = Inl OutOfBounds"
proof -
  note r = read_encode64 [OF assms(1) assms(4)]
  have hdr: "ParseELF_HEADER f = Inr (Some (h\<lparr>e_ident := f\<rparr>))"
    using assms(2) r by (simp add: ParseELF_HEADER_def endian_mismatch_def le_word_enc)
  obtain n where n: "unat (e_phnum h) = Suc n"
    using assms(3) by (cases "unat (e_phnum h)") (auto simp: unat_eq_0)
  have "get32 f (unat (e_phoff h)) = Inl OutOfBounds"
    using assms(5) by (simp add: get_word_def)
  then have "ParseELF_PRG_HEADER (h\<lparr>e_ident := f\<rparr>) f (unat (e_phoff h)) = Inl OutOfBounds"
    using r n by (simp add: ParseELF_PRG_HEADER_def read_prg_def)
  then show ?thesis using r hdr by (simp add: ParseELF_def Let_def)
qed

theorem ParseELF_reads_outside_witness:
  "ParseELF (encode64 1 (replicate 10 0) demo_header) 64 = Inl OutOfBounds"
proof -
  have len: "length (encode64 1 (replicate 10 0) demo_header) = 64" by (simp add: encode64_def)
  then show ?thesis
    using ParseELF_reads_outside [of "replicate 10 0" 1 demo_header _ "[]"]
    by (simp add: demo_header_def)
qed

lemma le_word_append:
  "le_word (xs @ ys) = (le_word xs OR push_bit (8 * length xs) (le_word ys) :: 'a :: len word)"
  by (induction xs) (simp_all add: push_bit_or or.assoc push_bit_push_bit add.commute)

lemma read_header_fields:
  "read_header f = Inr h \<Longrightarrow> e_ident h = f \<and> get64 f 0x18 = Inr (e_entry h)"
  by (auto simp: read_header_def Let_def and_then_def split: sum.splits)

lemma read_header_total: "64 \<le> length f \<Longrightarrow> \<exists>h. read_header f = Inr h"
  by (simp add: read_header_def get_word_def Let_def)

text \<open>The start of a 32-bit little-endian file as the ELF specification lays it out.\<close>

definition encode32 :: "u8 list \<Rightarrow> u16 \<Rightarrow> u16 \<Rightarrow> u32 \<Rightarrow> u32 \<Rightarrow> u32 \<Rightarrow> u8 list" where
  "encode32 pad ty machine version entry phoff =
     [0x7F, 0x45, 0x4C, 0x46, 1, 1] @ pad @ word_bytes 2 ty @ word_bytes 2 machine @
     word_bytes 4 version @ word_bytes 4 entry @ word_bytes 4 phoff"

text \<open>
  The fields of a 32-bit file are 4 bytes long but read as 8: every 32-bit little-endian file
  of at least 64 bytes is accepted, and its entry point comes with the program header offset in its
  upper half.
\<close>

theorem elf32_entry_is_two_fields:
  assumes "length pad = 10" and "f = encode32 pad ty machine version entry phoff @ rest"
    and "64 \<le> length f"
  shows "\<exists>hdr. ParseELF_HEADER f = Inr (Some hdr) \<and> e_entry hdr = ucast entry OR push_bit 32 (ucast phoff)"
proof -
  have data: "get8 f EI_DATA = Inr 1" and elf: "FileIsELF f = Inr True"
    using assms(2) by (simp_all add: encode32_def FileIsELF_def get_word_def)
  obtain h where h: "read_header f = Inr h" using read_header_total [OF assms(3)] by blast
  note h' = read_header_fields [OF h]
  have "f = ([0x7F, 0x45, 0x4C, 0x46, 1, 1] @ pad @ word_bytes 2 ty @ word_bytes 2 machine @
      word_bytes 4 version) @ (word_bytes 4 entry @ word_bytes 4 phoff) @ rest"
    using assms(2) by (simp add: encode32_def)
  moreover have "length ([0x7F, 0x45, 0x4C, 0x46, 1, 1] @ pad @ word_bytes 2 ty @ word_bytes 2 machine @
      word_bytes 4 version) = 0x18"
    using assms(1) by simp
  ultimately have "get64 f 0x18 = get64 ((word_bytes 4 entry @ word_bytes 4 phoff) @ rest) 0"
    using get_word_skip by (metis diff_self_eq_0 order_refl)
  also have "\<dots> = Inr (le_word (word_bytes 4 entry @ word_bytes 4 phoff))"
    by (rule get_word_here) simp
  finally have "e_entry h = le_word (word_bytes 4 entry @ word_bytes 4 phoff)" using h' by simp
  also have "\<dots> = ucast entry OR push_bit 32 (ucast phoff)"
    by (simp add: le_word_append le_word_ucast)
  finally show ?thesis
    using h h' data elf by (simp add: ParseELF_HEADER_def endian_mismatch_def)
qed

theorem elf32_entry_witness:
  "\<exists>hdr. ParseELF_HEADER (encode32 (replicate 10 0) 2 3 1 0x8048000 52 @ replicate 32 0) = Inr (Some hdr) \<and>
     e_entry hdr = 0x3408048000"
  using elf32_entry_is_two_fields [where pad = "replicate 10 0" and ty = 2 and machine = 3 and version = 1
      and entry = "0x8048000" and phoff = 52 and rest = "replicate 32 0"]
  by (simp add: encode32_def)

end
