(* ===== verification/Mmu.thy ===== *)
theory Mmu
  imports Prelude
begin

text \<open>
  What a pointer dereference means under the page tables of arch/X86_64/memory.c. The processor walks
  four levels of tables of 512 entries of 8 bytes, level 4 first, each entry holding a present bit and
  the physical address of the next table, the last one that of the page. Physical memory is a function
  from the address of an 8-byte entry to its value. Pages of 4 KiB only: neither the boot code nor the
  kernel sets bit 7 of an entry, and the walk does not look at it. \<open>TLB_flush\<close> follows every change of
  a table before the new entry is needed, so every access walks the tables as they are.
\<close>

type_synonym phys = "u64 \<Rightarrow> u64"

definition table_index :: "u64 \<Rightarrow> nat \<Rightarrow> u64" where
  "table_index va l = drop_bit (12 + 9 * (l - 1)) va AND 511"

definition entry_addr :: "u64 \<Rightarrow> u64 \<Rightarrow> nat \<Rightarrow> u64" where
  "entry_addr t va l = t OR push_bit 3 (table_index va l)"

text \<open>Bits 12 to 51 of an entry are the address of the next table or of the page.\<close>

definition frame :: "u64 \<Rightarrow> u64" where
  "frame e = e AND NOT (push_bit 52 0xFFF OR 0xFFF)"

text \<open>\<open>n\<close> steps of the walk from table \<open>t\<close> of level \<open>l\<close>, and the addresses it reads.\<close>

fun descend :: "phys \<Rightarrow> nat \<Rightarrow> nat \<Rightarrow> u64 \<Rightarrow> u64 \<Rightarrow> u64 option" where
  "descend m 0 l t va = Some t"
| "descend m (Suc n) l t va =
     (let e = m (entry_addr t va l)
      in if bit e 0 then descend m n (l - 1) (frame e) va else None)"

fun reads :: "phys \<Rightarrow> nat \<Rightarrow> nat \<Rightarrow> u64 \<Rightarrow> u64 \<Rightarrow> u64 list" where
  "reads m 0 l t va = []"
| "reads m (Suc n) l t va =
     (let e = m (entry_addr t va l)
      in entry_addr t va l # (if bit e 0 then reads m n (l - 1) (frame e) va else []))"

definition canonical :: "u64 \<Rightarrow> bool" where
  "canonical va = (drop_bit 48 va = (if bit va 47 then 0xFFFF else 0))"

definition translate :: "phys \<Rightarrow> u64 \<Rightarrow> u64 \<Rightarrow> u64 option" where
  "translate m root va =
     (if canonical va
      then case descend m 4 4 root va of None \<Rightarrow> None | Some p \<Rightarrow> Some (p OR (va AND 0xFFF))
      else None)"

section \<open>Lemmas\<close>

lemma bit_beyond: "64 \<le> n \<Longrightarrow> \<not> bit (w :: u64) n"
  using bit_imp_le_length [of w n] by auto

lemma low_ones:
  "(7 :: u64) = mask 3" "(511 :: u64) = mask 9" "(0xFFF :: u64) = mask 12" "(0xFFFF :: u64) = mask 16"
  by (simp_all add: mask_eq_exp_minus_1)

lemma bit_low_ones:
  "bit (7 :: u64) n \<longleftrightarrow> n < 3" "bit (511 :: u64) n \<longleftrightarrow> n < 9"
  "bit (0xFFF :: u64) n \<longleftrightarrow> n < 12" "bit (0xFFFF :: u64) n \<longleftrightarrow> n < 16"
  unfolding low_ones by (auto simp: bit_mask_iff)

lemma and_1_bit: "w AND 1 \<noteq> 0 \<longleftrightarrow> bit (w :: u64) 0"
  by (simp add: and_one_eq bit_0 even_iff_mod_2_eq_zero)

lemma bit_table_index: "bit (table_index va l) n \<longleftrightarrow> n < 9 \<and> bit va (n + (12 + 9 * (l - 1)))"
  unfolding table_index_def low_ones by (auto simp: bit_and_iff bit_drop_bit_eq bit_mask_iff add.commute)

lemma bit_frame: "bit (frame e) n \<longleftrightarrow> 12 \<le> n \<and> n < 52 \<and> bit e n"
  unfolding frame_def low_ones using bit_beyond [of n e]
  by (auto simp: bit_and_iff bit_not_iff bit_or_iff bit_push_bit_iff bit_mask_iff)

lemma canonical_bits: "canonical va \<longleftrightarrow> (\<forall>n. 48 \<le> n \<and> n < 64 \<longrightarrow> bit va n = bit va 47)"
proof -
  have "canonical va \<longleftrightarrow> (\<forall>n. bit (drop_bit 48 va) n = (n < 16 \<and> bit va 47))"
  proof -
    have "w = v \<longleftrightarrow> (\<forall>n. bit w n = bit v n)" for w v :: u64 by (auto intro: bit_eqI)
    moreover have "n < 64 \<and> n < 16 \<longleftrightarrow> n < 16" for n :: nat by auto
    ultimately show ?thesis unfolding canonical_def low_ones by (simp add: bit_mask_iff)
  qed
  also have "\<dots> \<longleftrightarrow> (\<forall>n. bit va (48 + n) = (n < 16 \<and> bit va 47))"
    by (simp add: bit_drop_bit_eq)
  also have "\<dots> \<longleftrightarrow> (\<forall>n. 48 \<le> n \<and> n < 64 \<longrightarrow> bit va n = bit va 47)" (is "?a \<longleftrightarrow> ?b")
  proof
    assume a: ?a
    show ?b
    proof (intro allI impI)
      fix n :: nat
      assume "48 \<le> n \<and> n < 64"
      then have "n = 48 + (n - 48)" "n - 48 < 16" by linarith+
      then show "bit va n = bit va 47" using a by metis
    qed
  next
    assume b: ?b
    show ?a
    proof
      fix n :: nat
      show "bit va (48 + n) = (n < 16 \<and> bit va 47)"
        using b [rule_format, of "48 + n"] bit_beyond [of "48 + n" va] by linarith
    qed
  qed
  finally show ?thesis .
qed

lemma descend_shift:
  "(\<And>k. k < n \<Longrightarrow> table_index va (a - k) = table_index vb (b - k)) \<Longrightarrow>
     descend m n a t va = descend m n b t vb"
proof (induction n arbitrary: a b t)
  case 0
  then show ?case by simp
next
  case (Suc n)
  have "entry_addr t va a = entry_addr t vb b" using Suc.prems [of 0] by (simp add: entry_addr_def)
  moreover have "descend m n (a - 1) u va = descend m n (b - 1) u vb" for u
    by (rule Suc.IH) (use Suc.prems in \<open>metis Suc_less_eq diff_diff_left plus_1_eq_Suc\<close>)
  ultimately show ?case by (simp add: Let_def)
qed

lemma descend_reads:
  "(\<And>a. a \<in> set (reads m n l t va) \<Longrightarrow> m' a = m a) \<Longrightarrow> descend m' n l t va = descend m n l t va"
  by (induction m n l t va rule: reads.induct) (auto simp: Let_def)

lemma reads_cong:
  "(\<And>a. a \<in> set (reads m n l t va) \<Longrightarrow> m' a = m a) \<Longrightarrow> reads m' n l t va = reads m n l t va"
  by (induction m n l t va rule: reads.induct) (auto simp: Let_def)

lemma descend_Suc:
  "descend m (Suc n) l t va =
     (case descend m n l t va of None \<Rightarrow> None
      | Some u \<Rightarrow> if bit (m (entry_addr u va (l - n))) 0 then Some (frame (m (entry_addr u va (l - n)))) else None)"
proof (induction n arbitrary: l t)
  case 0
  then show ?case by (simp add: Let_def)
next
  case (Suc n)
  have step: "descend m (Suc k) l t va =
      (if bit (m (entry_addr t va l)) 0 then descend m k (l - 1) (frame (m (entry_addr t va l))) va else None)" for k
    by (simp add: Let_def)
  let ?e = "m (entry_addr t va l)"
  have "descend m (Suc (Suc n)) l t va = (if bit ?e 0 then descend m (Suc n) (l - 1) (frame ?e) va else None)"
    by (rule step)
  also have "\<dots> = (case if bit ?e 0 then descend m n (l - 1) (frame ?e) va else None of None \<Rightarrow> None
      | Some u \<Rightarrow> if bit (m (entry_addr u va (l - Suc n))) 0
          then Some (frame (m (entry_addr u va (l - Suc n)))) else None)"
    unfolding Suc.IH diff_diff_left plus_1_eq_Suc by simp
  finally show ?case by (simp only: step [of n])
qed

lemma translate_last:
  "translate m root va = (if canonical va
     then case descend m 3 4 root va of None \<Rightarrow> None
       | Some u \<Rightarrow> let e = m (entry_addr u va 1)
           in if bit e 0 then Some (frame e OR (va AND 0xFFF)) else None
     else None)"
proof -
  have four: "(4::nat) = Suc 3" by simp
  show ?thesis
    using descend_Suc [of m 3 4 root va, folded four]
    by (simp add: translate_def Let_def split: option.split)
qed

lemma translate_reads:
  "(\<And>a. a \<in> set (reads m 4 4 root va) \<Longrightarrow> m' a = m a) \<Longrightarrow> translate m' root va = translate m root va"
  using descend_reads [of m 4 4 root va m'] by (simp add: translate_def)

lemma frame_bits_0: "\<not> bit (frame e) 0"
  by (simp add: bit_frame)

lemma reads_Suc:
  "reads m (Suc n) l t va = reads m n l t va @
     (case descend m n l t va of None \<Rightarrow> [] | Some u \<Rightarrow> [entry_addr u va (l - n)])"
proof (induction n arbitrary: l t)
  case 0
  then show ?case by (simp add: Let_def)
next
  case (Suc n)
  let ?e = "m (entry_addr t va l)"
  have "reads m (Suc (Suc n)) l t va =
      entry_addr t va l # (if bit ?e 0 then reads m (Suc n) (l - 1) (frame ?e) va else [])"
    by (simp only: reads.simps Let_def)
  also have "\<dots> = entry_addr t va l # (if bit ?e 0 then reads m n (l - 1) (frame ?e) va else []) @
      (case if bit ?e 0 then descend m n (l - 1) (frame ?e) va else None of None \<Rightarrow> []
       | Some u \<Rightarrow> [entry_addr u va (l - Suc n)])"
    unfolding Suc.IH diff_diff_left plus_1_eq_Suc by simp
  finally show ?case by (simp add: Let_def)
qed

text \<open>Two addresses of the same 2 MiB share the walk down to level 2; the entries of a table are apart.\<close>

lemma same_upper_bit: "drop_bit 21 va = drop_bit 21 vb \<Longrightarrow> bit (va :: u64) (21 + k) = bit vb (21 + k)"
  by (metis bit_drop_bit_eq comp_apply)

lemma table_index_upper: "drop_bit 21 va = drop_bit 21 vb \<Longrightarrow> 2 \<le> l \<Longrightarrow> table_index va l = table_index vb l"
proof (rule bit_eqI)
  fix n
  assume same: "drop_bit 21 va = drop_bit 21 vb" and l: "2 \<le> l"
  note same_upper_bit [OF same]
  moreover have "n + (12 + 9 * (l - 1)) = 21 + (n + 9 * (l - 2))" using l by arith
  ultimately show "bit (table_index va l) n \<longleftrightarrow> bit (table_index vb l) n"
    unfolding bit_table_index by metis
qed

lemma same_page:
  assumes "drop_bit 21 va = drop_bit 21 vb" and "table_index va 1 = table_index vb 1"
  shows "drop_bit 12 va = drop_bit 12 vb"
proof (rule bit_eqI)
  fix n
  have index_bit: "bit (table_index w 1) n \<longleftrightarrow> n < 9 \<and> bit w (n + 12)" for w
    by (simp add: bit_table_index)
  have "bit va (21 + (n - 9)) = bit vb (21 + (n - 9))"
    by (rule same_upper_bit [OF assms(1)])
  moreover have "n < 9 \<Longrightarrow> bit va (n + 12) = bit vb (n + 12)"
    using index_bit assms(2) by metis
  moreover have "9 \<le> n \<Longrightarrow> 21 + (n - 9) = n + 12" by arith
  ultimately have "bit va (n + 12) = bit vb (n + 12)" by (metis not_le)
  then show "bit (drop_bit 12 va) n \<longleftrightarrow> bit (drop_bit 12 vb) n"
    by (simp add: bit_drop_bit_eq add.commute)
qed

lemma page_bit: "drop_bit 12 va = drop_bit 12 vb \<Longrightarrow> 12 \<le> n \<Longrightarrow> bit (va :: u64) n = bit vb n"
proof -
  assume eq: "drop_bit 12 va = drop_bit 12 vb" and n: "12 \<le> n"
  have "bit (drop_bit 12 va) (n - 12) = bit (drop_bit 12 vb) (n - 12)" unfolding eq ..
  then have "bit va (12 + (n - 12)) = bit vb (12 + (n - 12))" by (simp only: bit_drop_bit_eq comp_apply)
  moreover have "12 + (n - 12) = n" using n by simp
  ultimately show "bit va n = bit vb n" by (simp only:)
qed

lemma page_index:
  assumes "drop_bit 12 va = drop_bit 12 vb"
  shows "table_index va l = table_index vb l"
proof (rule bit_eqI)
  fix n
  have "12 \<le> n + (12 + 9 * (l - 1))" by simp
  from page_bit [OF assms this] show "bit (table_index va l) n \<longleftrightarrow> bit (table_index vb l) n"
    unfolding bit_table_index by simp
qed

lemma page_canonical: "drop_bit 12 va = drop_bit 12 vb \<Longrightarrow> canonical va = canonical vb"
proof -
  assume eq: "drop_bit 12 va = drop_bit 12 vb"
  have "bit va n = bit vb n" if "47 \<le> n" for n by (rule page_bit [OF eq]) (use that in simp)
  moreover have "(47::nat) \<le> 47" "48 \<le> n \<Longrightarrow> 47 \<le> n" for n :: nat by simp_all
  ultimately show "canonical va = canonical vb" unfolding canonical_bits by metis
qed

lemma aligned_bit: "frame t = t \<Longrightarrow> bit t n \<Longrightarrow> 12 \<le> n \<and> n < 52"
  by (metis bit_frame)

lemma bit_entry_addr:
  assumes "frame t = t"
  shows "bit (entry_addr t va l) n \<longleftrightarrow> (if n < 12 then 3 \<le> n \<and> bit (table_index va l) (n - 3) else bit t n)"
proof -
  have "bit (entry_addr t va l) n \<longleftrightarrow> bit t n \<or> (3 \<le> n \<and> n < 64 \<and> bit (table_index va l) (n - 3))"
    unfolding entry_addr_def bit_or_iff bit_push_bit_iff by auto
  moreover have "bit (table_index va l) (n - 3) \<Longrightarrow> n < 12"
    unfolding bit_table_index by arith
  moreover note aligned_bit [OF assms, of n]
  ultimately show ?thesis by auto
qed

lemma frame_entry_addr:
  assumes "frame t = t"
  shows "frame (entry_addr t va l) = t"
proof (rule bit_eqI)
  fix n
  show "bit (frame (entry_addr t va l)) n \<longleftrightarrow> bit t n"
    unfolding bit_frame bit_entry_addr [OF assms] using aligned_bit [OF assms, of n] by auto
qed

lemma entry_addr_inj: "frame t = t \<Longrightarrow> entry_addr t va l = entry_addr t vb l \<Longrightarrow> table_index va l = table_index vb l"
proof (rule bit_eqI)
  fix n
  assume t: "frame t = t" and eq: "entry_addr t va l = entry_addr t vb l"
  show "bit (table_index va l) n \<longleftrightarrow> bit (table_index vb l) n"
  proof (cases "n < 9")
    case True
    then show ?thesis
      using bit_entry_addr [OF t, of va l "n + 3"] bit_entry_addr [OF t, of vb l "n + 3"] eq by simp
  next
    case False
    then show ?thesis by (simp add: bit_table_index)
  qed
qed

text \<open>Evaluation of closed walks.\<close>

lemma walk_numeral:
  "descend m (numeral n) l t va =
     (let e = m (entry_addr t va l)
      in if bit e 0 then descend m (pred_numeral n) (l - 1) (frame e) va else None)"
  "reads m (numeral n) l t va =
     (let e = m (entry_addr t va l)
      in entry_addr t va l # (if bit e 0 then reads m (pred_numeral n) (l - 1) (frame e) va else []))"
  by (simp_all add: numeral_eq_Suc)

end
