(* ===== verification/Table_Address.thy ===== *)
theory Table_Address
  imports Mmu
begin

text \<open>
  \<open>get_table_address\<close> of arch/X86_64/memory.c: the virtual address at which the entry of a page
  table appears once the last entry of the level-4 table points to that table itself.
\<close>

definition get_table_address :: "u64 \<Rightarrow> nat \<Rightarrow> u64" where
  "get_table_address address level =
     (let table_address = drop_bit (9 * level) address;
          table_address = table_address AND NOT 7;
          table_address = fold (\<lambda>i t. t OR push_bit (39 - 9 * i) 511) [0..<level] table_address
      in if drop_bit 47 table_address AND 1 \<noteq> 0
         then table_address OR push_bit 48 0xFFFF
         else table_address AND NOT (push_bit 48 0xFFFF))"

text \<open>The last entry of the level-4 table points back to it.\<close>

definition self_map :: "phys \<Rightarrow> u64 \<Rightarrow> bool" where
  "self_map m root \<longleftrightarrow> bit (m (root OR push_bit 3 511)) 0 \<and> frame (m (root OR push_bit 3 511)) = root"

lemma fold_ones:
  "l \<le> 4 \<Longrightarrow> bit (fold (\<lambda>i t. t OR push_bit (39 - 9 * i) (mask 9)) [0..<l] x) n \<longleftrightarrow>
     bit (x :: u64) n \<or> (48 - 9 * l \<le> n \<and> n < 48)"
proof (induction l)
  case 0
  show ?case by auto
next
  case (Suc l)
  have "bit (push_bit (39 - 9 * l) (mask 9) :: u64) n \<longleftrightarrow> 39 - 9 * l \<le> n \<and> n < 48 - 9 * l"
    using Suc.prems by (auto simp: bit_push_bit_iff bit_mask_iff)
  with Suc show ?case by (simp add: bit_or_iff) arith
qed

lemma bit_get_table_address:
  assumes "1 \<le> l" and "l \<le> 4"
  shows "bit (get_table_address va l) n \<longleftrightarrow>
    n < 64 \<and> 3 \<le> n \<and> (n < 48 - 9 * l \<longrightarrow> bit va (n + 9 * l))"
proof -
  define t where "t = fold (\<lambda>i t. t OR push_bit (39 - 9 * i) (mask 9)) [0..<l] (drop_bit (9 * l) va AND NOT (mask 3))"
  have t: "bit t n \<longleftrightarrow> (n < 64 \<and> 3 \<le> n \<and> bit va (n + 9 * l)) \<or> (48 - 9 * l \<le> n \<and> n < 48)" for n
    unfolding t_def fold_ones [OF assms(2)] using bit_beyond [of n "drop_bit (9 * l) va"]
    by (auto simp: bit_and_iff bit_not_iff bit_mask_iff bit_drop_bit_eq add.commute)
  have "48 - 9 * l \<le> 47" using assms(1) by arith
  then have "bit (drop_bit 47 t) 0" using t [of 47] by (simp add: bit_drop_bit_eq)
  then have "drop_bit 47 t AND 1 \<noteq> 0"
    by (simp only: and_1_bit)
  then have "get_table_address va l = t OR push_bit 48 (mask 16)"
    unfolding get_table_address_def Let_def low_ones t_def [symmetric] by simp
  moreover have "bit (push_bit 48 (mask 16) :: u64) n \<longleftrightarrow> 48 \<le> n \<and> n < 64"
    by (auto simp: bit_push_bit_iff bit_mask_iff)
  ultimately show ?thesis using t [of n] assms by (simp add: bit_or_iff) arith
qed

text \<open>Its indices: the last entry at the first \<open>l\<close> levels, then those of \<open>va\<close>; the offset is that of the entry.\<close>

lemma canonical_get_table_address: "1 \<le> l \<Longrightarrow> l \<le> 4 \<Longrightarrow> canonical (get_table_address va l)"
  by (auto simp: canonical_bits bit_get_table_address)

lemma index_self:
  assumes "1 \<le> l" and "l \<le> 4" and "k < l"
  shows "table_index (get_table_address va l) (4 - k) = 511"
proof (rule bit_eqI)
  fix n
  have "12 + 9 * (4 - k - 1) = 39 - 9 * k" using assms by arith
  then show "bit (table_index (get_table_address va l) (4 - k)) n \<longleftrightarrow> bit (511 :: u64) n"
    unfolding bit_table_index bit_get_table_address [OF assms(1,2)] low_ones bit_mask_iff
    using assms by auto
qed

lemma index_other:
  assumes "1 \<le> l" and "l + k < 4"
  shows "table_index (get_table_address va l) (4 - l - k) = table_index va (4 - k)"
proof (rule bit_eqI)
  fix n
  have p: "12 + 9 * (4 - l - k - 1) = 39 - 9 * l - 9 * k" "12 + 9 * (4 - k - 1) = 39 - 9 * k"
    using assms by arith+
  show "bit (table_index (get_table_address va l) (4 - l - k)) n \<longleftrightarrow> bit (table_index va (4 - k)) n"
    unfolding bit_table_index p using assms by (auto simp: bit_get_table_address algebra_simps)
qed

lemma offset_get_table_address:
  assumes "1 \<le> l" and "l \<le> 4"
  shows "get_table_address va l AND 0xFFF = push_bit 3 (table_index va l)"
proof (rule bit_eqI)
  fix n
  have p: "12 + 9 * (l - 1) = 3 + 9 * l" using assms by arith
  show "bit (get_table_address va l AND 0xFFF) n \<longleftrightarrow> bit (push_bit 3 (table_index va l)) n"
    unfolding low_ones bit_and_iff bit_mask_iff bit_get_table_address [OF assms] bit_push_bit_iff bit_table_index p
    using assms by auto
qed

section \<open>The walk to a table address\<close>

lemma descend_self:
  assumes "self_map m root" and "\<And>k. k < n \<Longrightarrow> table_index va (4 - k) = 511"
  shows "descend m n 4 root va = Some root"
  using assms(2)
proof (induction n)
  case 0
  show ?case by simp
next
  case (Suc n)
  then have "entry_addr root va (4 - n) = root OR push_bit 3 511" by (simp add: entry_addr_def)
  with Suc assms(1) show ?case unfolding descend_Suc by (simp add: self_map_def)
qed

lemma descend_add:
  "descend m (a + b) l t va =
     (case descend m a l t va of None \<Rightarrow> None | Some u \<Rightarrow> descend m b (l - a) u va)"
proof (induction a arbitrary: l t)
  case 0
  show ?case by simp
next
  case (Suc a)
  have "l - 1 - a = l - Suc a" by simp
  with Suc show ?case by (simp only: add_Suc descend.simps Let_def) (simp split: option.split)
qed

text \<open>
  The physical address of the entry of \<open>va\<close> at level \<open>l\<close>, when the tables above it are present:
  this is what the table address is translated to.
\<close>

definition entry_at :: "phys \<Rightarrow> u64 \<Rightarrow> u64 \<Rightarrow> nat \<Rightarrow> u64 option" where
  "entry_at m root va l =
     (case descend m (4 - l) 4 root va of None \<Rightarrow> None | Some t \<Rightarrow> Some (entry_addr t va l))"

lemma translate_table_address:
  assumes "self_map m root" and "1 \<le> l" and "l \<le> 4"
  shows "translate m root (get_table_address va l) = entry_at m root va l"
proof -
  let ?va = "get_table_address va l"
  have "descend m (l + (4 - l)) 4 root ?va =
      (case descend m l 4 root ?va of None \<Rightarrow> None | Some u \<Rightarrow> descend m (4 - l) (4 - l) u ?va)"
    by (rule descend_add)
  also have "\<dots> = descend m (4 - l) (4 - l) root ?va"
    using descend_self [OF assms(1), of l ?va] index_self [OF assms(2,3)] by simp
  also have "\<dots> = descend m (4 - l) 4 root va"
    by (rule descend_shift) (use index_other [OF assms(2)] in simp)
  finally have "descend m 4 4 root ?va = descend m (4 - l) 4 root va" using assms(3) by simp
  then show ?thesis
    using canonical_get_table_address [OF assms(2,3)] offset_get_table_address [OF assms(2,3), of va]
    by (simp add: translate_def entry_at_def entry_addr_def split: option.split)
qed

end
