(* ===== verification/Paging.thy ===== *)
theory Paging
  imports Table_Address Page_Allocator
begin

text \<open>
  The page tables of arch/X86_64/memory.c. The last entry of the level-4 table points to that table
  itself, and \<open>get_table_address\<close> builds the virtual address at which a table entry then appears.
  The state is the page allocator (for new tables), the physical address of the level-4 table, which
  the register cr3 and the variable \<open>PML4\<close> hold, and physical memory.
\<close>

section \<open>The operations\<close>

record vm =
  vm_pages :: pages_state
  vm_root :: u64
  vm_mem :: phys

definition read64 :: "vm \<Rightarrow> u64 \<Rightarrow> u64 res" where
  "read64 s va = (case translate (vm_mem s) (vm_root s) va of
     None \<Rightarrow> Inl Fault | Some a \<Rightarrow> Inr (vm_mem s a))"

definition write64 :: "vm \<Rightarrow> u64 \<Rightarrow> u64 \<Rightarrow> vm res" where
  "write64 s va v = (case translate (vm_mem s) (vm_root s) va of
     None \<Rightarrow> Inl Fault | Some a \<Rightarrow> Inr (s\<lparr>vm_mem := (vm_mem s)(a := v)\<rparr>))"

definition virt_page_size :: nat where "virt_page_size = 4096"

definition VPAGE_NOT_PRESENT :: u32 where "VPAGE_NOT_PRESENT = 1"
definition VPAGE_NOT_WRITABLE :: u32 where "VPAGE_NOT_WRITABLE = 2"
definition VPAGE_USER_ACCESS :: u32 where "VPAGE_USER_ACCESS = 4"
definition VPAGE_NO_CACHE :: u32 where "VPAGE_NO_CACHE = 8"
definition VPAGE_NO_EXECUTE :: u32 where "VPAGE_NO_EXECUTE = 16"

definition pga_init :: "vm \<Rightarrow> vm res" where
  "pga_init s = write64 s (vm_root s + 8 * 511) (vm_root s OR 3)"

function page_ispresent :: "vm \<Rightarrow> u64 \<Rightarrow> nat \<Rightarrow> bool res" where
  "page_ispresent s vaddress level =
     (if level = 0 \<or> level > 4 then Inr False
      else and_then (if level < 4 then page_ispresent s vaddress (level + 1) else Inr True) (\<lambda>upper.
        if \<not> upper then Inr False
        else and_then (read64 s (get_table_address vaddress level)) (\<lambda>e. Inr (e AND 1 \<noteq> 0))))"
  by pat_completeness auto
termination by (relation "measure (\<lambda>(s, va, level). 5 - level)") auto

declare page_ispresent.simps [simp del]

definition page_info :: "vm \<Rightarrow> u64 \<Rightarrow> u64 res" where
  "page_info s vaddress =
     and_then (page_ispresent s vaddress 1) (\<lambda>p.
       if \<not> p then Inr 0
       else let pt_address = drop_bit 9 vaddress;
                pt_address = pt_address AND NOT 3;
                pt_address = pt_address OR push_bit 39 511
            in read64 s pt_address)"

definition pga_getPhysAddr :: "vm \<Rightarrow> u64 \<Rightarrow> u64 res" where
  "pga_getPhysAddr s vaddress =
     and_then (page_info s vaddress) (\<lambda>pinfo.
       let pinfo = pinfo AND NOT 0xFFF in Inr (pinfo AND NOT (push_bit 52 0xFFF)))"

definition pga_ispresent :: "vm \<Rightarrow> u64 \<Rightarrow> bool res" where
  "pga_ispresent s vaddress = page_ispresent s vaddress 1"

function page_table_alloc :: "vm \<Rightarrow> nat \<Rightarrow> u64 \<Rightarrow> (vm \<times> bool) res" where
  "page_table_alloc s level offset =
     (if level = 0 \<or> level > 4 then Inr (s, False)
      else and_then
        (if level < 4
         then and_then (page_ispresent s offset (level + 1)) (\<lambda>p.
                if p then Inr s
                else and_then (page_table_alloc s (level + 1) offset) (\<lambda>r. Inr (fst r)))
         else Inr s)
        (\<lambda>s. and_then (alloc_page (vm_pages s)) (\<lambda>r.
          let s = s\<lparr>vm_pages := fst r\<rparr>; entry = word_of_nat (snd r) OR 3
          in and_then (write64 s (get_table_address offset level) entry) (\<lambda>s. Inr (s, True)))))"
  by pat_completeness auto
termination by (relation "measure (\<lambda>(s, level, offset). 5 - level)") auto

declare page_table_alloc.simps [simp del]

definition entry_flags :: "u32 \<Rightarrow> u64" where
  "entry_flags flags =
     (let entry = 0;
          entry = (if flags AND VPAGE_NOT_PRESENT = 0 then entry OR 1 else entry);
          entry = (if flags AND VPAGE_NOT_WRITABLE = 0 then entry OR 2 else entry);
          entry = (if flags AND VPAGE_USER_ACCESS \<noteq> 0 then entry OR 4 else entry);
          entry = (if flags AND VPAGE_NO_CACHE \<noteq> 0 then entry OR 8 else entry)
      in if flags AND VPAGE_NO_EXECUTE \<noteq> 0 then entry OR push_bit 63 1 else entry)"

definition make_entry :: "u64 \<Rightarrow> u64 \<Rightarrow> u64" where
  "make_entry pa entry =
     (pa AND NOT (push_bit 52 0xFFF OR 0xFFF)) + (entry AND (push_bit 52 0xFFF OR 0xFFF))"

text \<open>The loop of \<open>pga_map\<close> from \<open>i\<close> on, with \<open>n\<close> rounds to go; \<open>entry\<close> is carried along.\<close>

fun pga_map_loop :: "vm \<Rightarrow> u64 \<Rightarrow> u64 \<Rightarrow> u64 \<Rightarrow> nat \<Rightarrow> nat \<Rightarrow> vm res" where
  "pga_map_loop s vaddress paddress entry i 0 = Inr s"
| "pga_map_loop s vaddress paddress entry i (Suc n) =
     (let va = vaddress + word_of_nat (virt_page_size * i) in
      and_then (page_ispresent s va 2) (\<lambda>p.
      and_then (if p then Inr s else and_then (page_table_alloc s 2 va) (\<lambda>r. Inr (fst r))) (\<lambda>s.
        let entry = make_entry (paddress + word_of_nat (page_size * i)) entry
        in and_then (write64 s (get_table_address va 1) entry) (\<lambda>s.
          pga_map_loop s vaddress paddress entry (Suc i) n))))"

definition pga_map :: "vm \<Rightarrow> u64 \<Rightarrow> u64 \<Rightarrow> nat \<Rightarrow> u32 \<Rightarrow> vm res" where
  "pga_map s vaddress paddress order flags =
     pga_map_loop s vaddress paddress (entry_flags flags) 0 (2 ^ order)"

fun pga_unmap_loop :: "vm \<Rightarrow> u64 \<Rightarrow> nat \<Rightarrow> nat \<Rightarrow> vm res" where
  "pga_unmap_loop s vaddress i 0 = Inr s"
| "pga_unmap_loop s vaddress i (Suc n) =
     (let va = vaddress + word_of_nat (virt_page_size * i) in
      and_then (page_ispresent s va 1) (\<lambda>p.
      and_then (if p then write64 s (get_table_address va 1) 0 else Inr s) (\<lambda>s.
        pga_unmap_loop s vaddress (Suc i) n)))"

definition pga_unmap :: "vm \<Rightarrow> u64 \<Rightarrow> nat \<Rightarrow> vm res" where
  "pga_unmap s vaddress order = pga_unmap_loop s vaddress 0 (2 ^ order)"

section \<open>What is present\<close>

definition self_mapped :: "vm \<Rightarrow> bool" where
  "self_mapped s \<longleftrightarrow> self_map (vm_mem s) (vm_root s)"

lemma read_table_address:
  "self_mapped s \<Longrightarrow> 1 \<le> l \<Longrightarrow> l \<le> 4 \<Longrightarrow> read64 s (get_table_address va l) =
     (case entry_at (vm_mem s) (vm_root s) va l of None \<Rightarrow> Inl Fault | Some a \<Rightarrow> Inr (vm_mem s a))"
  by (simp add: read64_def translate_table_address self_mapped_def)

lemma write_table_address:
  "self_mapped s \<Longrightarrow> 1 \<le> l \<Longrightarrow> l \<le> 4 \<Longrightarrow> write64 s (get_table_address va l) v =
     (case entry_at (vm_mem s) (vm_root s) va l of None \<Rightarrow> Inl Fault
      | Some a \<Rightarrow> Inr (s\<lparr>vm_mem := (vm_mem s)(a := v)\<rparr>))"
  by (simp add: write64_def translate_table_address self_mapped_def)

lemma page_ispresent_depth:
  assumes "self_mapped s" and "d \<le> 3"
  shows "page_ispresent s va (4 - d) = Inr (descend (vm_mem s) (Suc d) 4 (vm_root s) va \<noteq> None)"
  using assms(2)
proof (induction d)
  case 0
  show ?case
    using read_table_address [OF assms(1), of 4 va]
    by (subst page_ispresent.simps) (simp add: entry_at_def and_1_bit Let_def)
next
  case (Suc d)
  define l where "l = 4 - Suc d"
  have up: "l + 1 = 4 - d" and l: "1 \<le> l" "l < 4" "l \<noteq> 0" and depth: "4 - l = Suc d"
    using Suc.prems unfolding l_def by arith+
  have "page_ispresent s va l = and_then (page_ispresent s va (l + 1)) (\<lambda>upper.
      if \<not> upper then Inr False
      else and_then (read64 s (get_table_address va l)) (\<lambda>e. Inr (e AND 1 \<noteq> 0)))"
    using l by (subst page_ispresent.simps) simp
  also have "\<dots> = Inr (descend (vm_mem s) (Suc (Suc d)) 4 (vm_root s) va \<noteq> None)"
    unfolding up Suc.IH [OF Suc_leD [OF Suc.prems]] and_1_bit descend_Suc [of _ "Suc d"] l_def [symmetric]
    using read_table_address [OF assms(1) l(1), of va] l(2) depth
    by (simp add: entry_at_def and_1_bit del: descend.simps split: option.split)
  finally show ?case unfolding l_def .
qed

text \<open>
  C10. Through the self-mapped tables \<open>page_ispresent\<close> never faults and answers exactly whether the
  processor's walk for the address gets past level \<open>level\<close>.
\<close>

theorem page_ispresent_correct:
  assumes "self_mapped s" and "1 \<le> level" and "level \<le> 4"
  shows "page_ispresent s va level = Inr (descend (vm_mem s) (5 - level) 4 (vm_root s) va \<noteq> None)"
proof -
  have "4 - (4 - level) = level" "4 - level \<le> 3" "Suc (4 - level) = 5 - level" using assms by arith+
  then show ?thesis using page_ispresent_depth [OF assms(1), of "4 - level" va] by simp
qed

section \<open>Mapping one page\<close>

lemma make_entry_or:
  "make_entry pa e = frame pa OR (e AND (push_bit 52 0xFFF OR 0xFFF))"
  unfolding make_entry_def frame_def
  by (rule disjunctive_add) (simp only: bit_and_iff bit_not_iff, blast)

lemma frame_make_entry [simp]: "frame (make_entry pa e) = frame pa"
proof (rule bit_eqI)
  fix n
  show "bit (frame (make_entry pa e)) n \<longleftrightarrow> bit (frame pa) n"
    unfolding bit_frame make_entry_or bit_or_iff bit_and_iff low_ones bit_push_bit_iff bit_mask_iff
    by auto
qed

lemma present_make_entry: "bit (make_entry pa e) 0 \<longleftrightarrow> bit e 0"
  unfolding make_entry_or bit_or_iff bit_and_iff low_ones bit_push_bit_iff bit_mask_iff bit_frame
  by simp

lemma present_entry_flags: "bit (entry_flags flags) 0 \<longleftrightarrow> flags AND VPAGE_NOT_PRESENT = 0"
  by (simp add: entry_flags_def Let_def bit_simps)

text \<open>The entry of \<open>va\<close> at level 1 is \<open>a\<close>, and no other step of its walk or of the self-mapping reads \<open>a\<close>.\<close>

definition own_entry :: "vm \<Rightarrow> u64 \<Rightarrow> u64 \<Rightarrow> bool" where
  "own_entry s va a \<longleftrightarrow> entry_at (vm_mem s) (vm_root s) va 1 = Some a \<and>
     a \<notin> set (reads (vm_mem s) 3 4 (vm_root s) va) \<and> a \<noteq> vm_root s OR push_bit 3 511"

lemma own_entry_write:
  assumes "self_mapped s" and "own_entry s va a" and "canonical va" and "s' = s\<lparr>vm_mem := (vm_mem s)(a := e)\<rparr>"
  shows "page_ispresent s va 2 = Inr True" and "page_ispresent s va 1 = Inr (bit (vm_mem s a) 0)"
    and "write64 s (get_table_address va 1) e = Inr s'" and "self_mapped s'" and "own_entry s' va a"
    and "drop_bit 12 vc = drop_bit 12 va \<Longrightarrow>
      translate (vm_mem s') (vm_root s) vc = (if bit e 0 then Some (frame e OR (vc AND 0xFFF)) else None)"
    and "a \<notin> set (reads (vm_mem s) 4 4 (vm_root s) vb) \<Longrightarrow>
      translate (vm_mem s') (vm_root s) vb = translate (vm_mem s) (vm_root s) vb"
proof -
  let ?m = "vm_mem s" and ?r = "vm_root s"
  obtain t where t: "descend ?m 3 4 ?r va = Some t" "a = entry_addr t va 1"
    using assms(2) by (auto simp: own_entry_def entry_at_def split: option.splits)
  have a: "a \<notin> set (reads ?m 3 4 ?r va)" "a \<noteq> ?r OR push_bit 3 511"
    using assms(2) by (simp_all add: own_entry_def)
  have t': "descend (vm_mem s') 3 4 ?r va = Some t"
    using descend_reads [of ?m 3 4 ?r va "vm_mem s'"] a(1) t(1) assms(4) by fastforce
  have four: "(4::nat) = Suc 3" by simp
  note last = descend_Suc [of _ 3 4, folded four]
  show "page_ispresent s va 2 = Inr True"
    using page_ispresent_correct [OF assms(1), of 2 va] t(1) by simp
  show "page_ispresent s va 1 = Inr (bit (?m a) 0)"
    using page_ispresent_correct [OF assms(1), of 1 va] t by (simp add: last)
  show "write64 s (get_table_address va 1) e = Inr s'"
    using write_table_address [OF assms(1), of 1 va e] t assms(4) by (simp add: entry_at_def)
  show "self_mapped s'" using assms(1,4) a(2) by (simp add: self_mapped_def self_map_def)
  have "reads (vm_mem s') 3 4 ?r va = reads ?m 3 4 ?r va"
    using reads_cong [of ?m 3 4 ?r va "vm_mem s'"] a(1) assms(4) by fastforce
  then show "own_entry s' va a"
    using t t' a assms(4) by (simp add: own_entry_def entry_at_def)
  show "translate (vm_mem s') ?r vc = (if bit e 0 then Some (frame e OR (vc AND 0xFFF)) else None)"
    if page: "drop_bit 12 vc = drop_bit 12 va"
  proof -
    have "descend (vm_mem s') 3 4 ?r vc = descend (vm_mem s') 3 4 ?r va"
      by (rule descend_shift) (rule page_index [OF page])
    moreover have "canonical vc" using page_canonical [OF page] assms(3) by simp
    moreover have "a = entry_addr t vc 1" using t(2) page_index [OF page] by (simp add: entry_addr_def)
    ultimately show ?thesis using t' assms(4) by (simp add: translate_last Let_def)
  qed
  show "a \<notin> set (reads ?m 4 4 ?r vb) \<Longrightarrow> translate (vm_mem s') ?r vb = translate ?m ?r vb"
    using translate_reads [of ?m ?r vb "vm_mem s'"] assms(4) by fastforce
qed

text \<open>
  C11. \<open>pga_map\<close> of one page whose table exists maps every address of the virtual page to the same place
  of the physical page asked for
  (or to nothing, with \<open>VPAGE_NOT_PRESENT\<close>), keeps the self-mapping, allocates nothing, and changes the
  translation of no address whose walk does not read the entry it writes.
\<close>

theorem pga_map_correct:
  assumes "self_mapped s" and "own_entry s va a" and "canonical va"
  shows "\<exists>s'. pga_map s va pa 0 flags = Inr s' \<and> self_mapped s' \<and> own_entry s' va a \<and>
    vm_pages s' = vm_pages s \<and> vm_root s' = vm_root s \<and>
    (\<forall>vc. drop_bit 12 vc = drop_bit 12 va \<longrightarrow> translate (vm_mem s') (vm_root s) vc =
      (if flags AND VPAGE_NOT_PRESENT = 0 then Some (frame pa OR (vc AND 0xFFF)) else None)) \<and>
    (\<forall>vb. a \<notin> set (reads (vm_mem s) 4 4 (vm_root s) vb) \<longrightarrow>
       translate (vm_mem s') (vm_root s) vb = translate (vm_mem s) (vm_root s) vb)"
proof -
  let ?e = "make_entry pa (entry_flags flags)"
  define s' where "s' = s\<lparr>vm_mem := (vm_mem s)(a := ?e)\<rparr>"
  note w = own_entry_write [OF assms s'_def]
  have "pga_map s va pa 0 flags = Inr s'"
    using w(1,3) by (simp add: pga_map_def Let_def)
  with w(4-7) show ?thesis
    by (intro exI [of _ s']) (simp add: present_make_entry present_entry_flags s'_def)
qed

text \<open>
  C12. \<open>pga_unmap\<close> of one page makes its address untranslatable and leaves the translation of every
  address alone whose walk does not read the entry; on a page that is not mapped it does nothing.
\<close>

theorem pga_unmap_correct:
  assumes "self_mapped s" and "own_entry s va a" and "canonical va"
  shows "\<exists>s'. pga_unmap s va 0 = Inr s' \<and> self_mapped s' \<and> own_entry s' va a \<and>
    (translate (vm_mem s) (vm_root s) va = None \<longrightarrow> s' = s) \<and>
    (\<forall>vc. drop_bit 12 vc = drop_bit 12 va \<longrightarrow> translate (vm_mem s') (vm_root s) vc = None) \<and>
    (\<forall>vb. a \<notin> set (reads (vm_mem s) 4 4 (vm_root s) vb) \<longrightarrow>
       translate (vm_mem s') (vm_root s) vb = translate (vm_mem s) (vm_root s) vb)"
proof -
  define s' where "s' = s\<lparr>vm_mem := (vm_mem s)(a := 0)\<rparr>"
  note w = own_entry_write [OF assms s'_def]
  have same: "translate (vm_mem s) (vm_root s) va \<noteq> None \<longleftrightarrow> bit (vm_mem s a) 0"
    using own_entry_write(6) [OF assms, of s "vm_mem s a" va] by (simp split: if_splits)
  have "pga_unmap s va 0 = Inr (if bit (vm_mem s a) 0 then s' else s)"
    using w(2,3) by (simp add: pga_unmap_def Let_def)
  moreover have "translate (vm_mem s) (vm_root s) vc = None"
    if "\<not> bit (vm_mem s a) 0" "drop_bit 12 vc = drop_bit 12 va" for vc
    using own_entry_write(6) [OF assms, of s "vm_mem s a" vc] that by simp
  ultimately show ?thesis using w(4-7) same assms by (cases "bit (vm_mem s a) 0") auto
qed

section \<open>Looking a page up\<close>

text \<open>
  \<open>page_info\<close> builds a table address with bit 47 set and bit 63 clear, which no processor accepts.
\<close>

lemma page_info_faults:
  assumes "page_ispresent s va 1 = Inr p"
  shows "page_info s va = (if p then Inl Fault else Inr 0) \<and>
    pga_getPhysAddr s va = (if p then Inl Fault else Inr 0)"
proof -
  let ?a = "drop_bit 9 va AND NOT 3 OR push_bit 39 511"
  have lower63: "48 \<le> (63::nat)" "63 < (64::nat)" by simp_all
  have "bit ?a 47" "\<not> bit ?a 63"
    unfolding low_ones using bit_beyond [of 72 va]
    by (simp_all add: bit_or_iff bit_and_iff bit_push_bit_iff bit_mask_iff bit_drop_bit_eq)
  then have "\<not> canonical ?a" unfolding canonical_bits by (metis lower63)
  then have "page_info s va = (if p then Inl Fault else Inr 0)"
    using assms by (simp add: page_info_def read64_def translate_def Let_def)
  then show ?thesis
    by (simp add: pga_getPhysAddr_def Let_def)
qed

end
