(* ===== verification/Table_Growth.thy ===== *)
theory Table_Growth
  imports Paging
begin

text \<open>
  \<open>pga_map\<close> where the page table is missing: \<open>page_table_alloc\<close> takes a frame of the page allocator as
  the new table without clearing it. Also \<open>pga_init\<close> on the tables boot32.asm leaves behind, the
  concrete memory the witnesses run on.
\<close>

section \<open>A new table\<close>

text \<open>
  The walk for \<open>va\<close> reaches an empty entry \<open>a2\<close> of level 2, and the frame \<open>u\<close> holds none of the entries
  that the walk or the self-mapping reads.
\<close>

definition fresh_table :: "vm \<Rightarrow> u64 \<Rightarrow> u64 \<Rightarrow> u64 \<Rightarrow> bool" where
  "fresh_table s va a2 u \<longleftrightarrow>
     entry_at (vm_mem s) (vm_root s) va 2 = Some a2 \<and> \<not> bit (vm_mem s a2) 0 \<and>
     a2 \<notin> set (reads (vm_mem s) 2 4 (vm_root s) va) \<and> a2 \<noteq> vm_root s OR push_bit 3 511 \<and>
     (\<forall>x \<in> insert (vm_root s OR push_bit 3 511) (insert a2 (set (reads (vm_mem s) 2 4 (vm_root s) va))).
        frame x \<noteq> u) \<and> frame u = u"

lemma frame_table_entry: "frame u = u \<Longrightarrow> frame (u OR 3) = u" "bit (u OR 3 :: u64) 0"
proof -
  have three: "(3 :: u64) = mask 2" by (simp add: mask_eq_exp_minus_1)
  show "frame (u OR 3) = u" if u: "frame u = u"
  proof (rule bit_eqI)
    fix n
    show "bit (frame (u OR 3)) n \<longleftrightarrow> bit u n"
      unfolding bit_frame three bit_or_iff bit_mask_iff using aligned_bit [OF u, of n] by auto
  qed
  show "bit (u OR 3) 0" unfolding three bit_or_iff bit_mask_iff by simp
qed

lemma page_table_alloc_fresh:
  assumes s: "self_mapped s" and fresh: "fresh_table s va a2 u"
    and alloc: "alloc_page (vm_pages s) = Inr (ps, f)" and u: "u = word_of_nat f"
    and s': "s' = s\<lparr>vm_pages := ps, vm_mem := (vm_mem s)(a2 := u OR 3)\<rparr>"
  shows "page_ispresent s va 2 = Inr False" and "page_table_alloc s 2 va = Inr (s', True)"
    and "self_mapped s'" and "descend (vm_mem s') 3 4 (vm_root s) va = Some u"
    and "own_entry s' va (entry_addr u va 1)"
    and "a2 \<noteq> entry_addr u vb 1"
proof -
  let ?m = "vm_mem s" and ?r = "vm_root s"
  obtain t where t: "descend ?m 2 4 ?r va = Some t" "a2 = entry_addr t va 2" "\<not> bit (?m a2) 0"
    using fresh by (auto simp: fresh_table_def entry_at_def split: option.splits)
  have a2: "a2 \<notin> set (reads ?m 2 4 ?r va)" "a2 \<noteq> ?r OR push_bit 3 511" and fu: "frame u = u"
    using fresh by (simp_all add: fresh_table_def)
  have apart: "frame x \<noteq> u" if "x \<in> insert (?r OR push_bit 3 511) (insert a2 (set (reads ?m 2 4 ?r va)))" for x
    using fresh that unfolding fresh_table_def by blast
  have three: "(3::nat) = Suc 2" by simp
  note last = descend_Suc [of _ 2 4, folded three]
  show "page_ispresent s va 2 = Inr False"
    using page_ispresent_depth [OF s, of 2 va] t by (simp add: last)
  have "page_ispresent s va 3 = Inr True"
    using page_ispresent_depth [OF s, of 1 va] t(1) by (simp add: numeral_2_eq_2)
  moreover have "write64 (s\<lparr>vm_pages := ps\<rparr>) (get_table_address va 2) (u OR 3) = Inr s'"
    using write_table_address [of "s\<lparr>vm_pages := ps\<rparr>" 2 va "u OR 3"] s fresh s'
    by (simp add: self_mapped_def fresh_table_def)
  ultimately show "page_table_alloc s 2 va = Inr (s', True)"
    using alloc u by (subst page_table_alloc.simps) (simp add: Let_def)
  show self: "self_mapped s'" using s s' a2(2) by (simp add: self_mapped_def self_map_def)
  have keep: "x \<in> set (reads ?m 2 4 ?r va) \<Longrightarrow> vm_mem s' x = ?m x" for x using a2(1) s' by auto
  note d2 = descend_reads [of ?m 2 4 ?r va "vm_mem s'", OF keep]
  then show d3: "descend (vm_mem s') 3 4 ?r va = Some u"
    using t s' frame_table_entry(1) [OF fu] frame_table_entry(2) [of u] by (simp add: last)
  have "reads (vm_mem s') 2 4 ?r va = reads ?m 2 4 ?r va" by (rule reads_cong) (rule keep)
  then have "reads (vm_mem s') 3 4 ?r va = reads ?m 2 4 ?r va @ [a2]"
    using reads_Suc [of "vm_mem s'" 2 4 ?r va, folded three] d2 t by simp
  then have out: "x \<in> set (reads (vm_mem s') 3 4 ?r va) \<Longrightarrow> frame x \<noteq> u" for x
    using apart by auto
  have fe: "frame (entry_addr u vc 1) = u" for vc by (rule frame_entry_addr [OF fu])
  then have "entry_addr u va 1 \<notin> set (reads (vm_mem s') 3 4 ?r va)" using out by blast
  moreover have "entry_addr u va 1 \<noteq> ?r OR push_bit 3 511" using fe apart by blast
  ultimately show "own_entry s' va (entry_addr u va 1)"
    using d3 s' by (simp add: own_entry_def entry_at_def)
  show "a2 \<noteq> entry_addr u vb 1" using fe apart by blast
qed

text \<open>
  C37. A new page table comes with whatever the frame held: after \<open>pga_map\<close> of one page of a 2 MiB area
  whose page table did not exist, that page is mapped as asked, and every other page of the area is
  mapped too wherever the stale word at its place in the frame has bit 0 set.
\<close>

theorem pga_map_new_table:
  assumes "self_mapped s" and "canonical va" and "fresh_table s va a2 (word_of_nat f)"
    and "alloc_page (vm_pages s) = Inr (ps, f)"
    and "canonical vb" and "drop_bit 21 vb = drop_bit 21 va" and "drop_bit 12 vb \<noteq> drop_bit 12 va"
  shows "\<exists>s'. pga_map s va pa 0 flags = Inr s' \<and> self_mapped s' \<and> vm_pages s' = ps \<and>
    translate (vm_mem s') (vm_root s) va =
      (if flags AND VPAGE_NOT_PRESENT = 0 then Some (frame pa OR (va AND 0xFFF)) else None) \<and>
    translate (vm_mem s') (vm_root s) vb =
      (let stale = vm_mem s (entry_addr (word_of_nat f) vb 1)
       in if bit stale 0 then Some (frame stale OR (vb AND 0xFFF)) else None)"
proof -
  define u :: u64 where "u = word_of_nat f"
  have fu: "frame u = u" using assms(3) by (simp add: fresh_table_def u_def)
  define s1 where "s1 = s\<lparr>vm_pages := ps, vm_mem := (vm_mem s)(a2 := u OR 3)\<rparr>"
  note grow = page_table_alloc_fresh [OF assms(1) assms(3) [folded u_def] assms(4) u_def s1_def]
  let ?e = "make_entry pa (entry_flags flags)" and ?a = "entry_addr u va 1"
  define s' where "s' = s1\<lparr>vm_mem := (vm_mem s1)(?a := ?e)\<rparr>"
  note w = own_entry_write [OF grow(3,5) assms(2) s'_def]
  have map: "pga_map s va pa 0 flags = Inr s'"
    using grow(1,2) w(3) by (simp add: pga_map_def Let_def)
  have root: "vm_root s1 = vm_root s" by (simp add: s1_def)
  have "vm_mem s' x = vm_mem s1 x" if "x \<in> set (reads (vm_mem s1) 3 4 (vm_root s) va)" for x
    using that grow(5) by (auto simp: own_entry_def s'_def root)
  then have "descend (vm_mem s') 3 4 (vm_root s) va = descend (vm_mem s1) 3 4 (vm_root s) va"
    by (rule descend_reads)
  then have "descend (vm_mem s') 3 4 (vm_root s) va = Some u" unfolding grow(4) .
  moreover have "table_index vb (4 - k) = table_index va (4 - k)" if "k < 3" for k
    using table_index_upper [OF assms(6)] that by simp
  then have "descend (vm_mem s') 3 4 (vm_root s) vb = descend (vm_mem s') 3 4 (vm_root s) va"
    by (rule descend_shift)
  moreover have "?a \<noteq> entry_addr u vb 1"
    using entry_addr_inj [OF fu, of va 1 vb] same_page [OF assms(6)] assms(7) by metis
  then have "vm_mem s' (entry_addr u vb 1) = vm_mem s (entry_addr u vb 1)"
    using grow(6) [of vb] by (simp add: s'_def s1_def)
  ultimately have vb: "translate (vm_mem s') (vm_root s) vb =
      (let stale = vm_mem s (entry_addr u vb 1)
       in if bit stale 0 then Some (frame stale OR (vb AND 0xFFF)) else None)"
    using assms(5) by (simp add: translate_last Let_def)
  have "translate (vm_mem s') (vm_root s) va =
      (if flags AND VPAGE_NOT_PRESENT = 0 then Some (frame pa OR (va AND 0xFFF)) else None)"
    using w(6) by (simp add: present_make_entry present_entry_flags root)
  moreover have "vm_pages s' = ps" by (simp add: s'_def s1_def)
  ultimately show ?thesis
    using map w(4) vb unfolding u_def by blast
qed

section \<open>The tables of boot32.asm\<close>

text \<open>
  \<open>_64INIT\<close> lays out four tables one after the other from \<open>P\<close> on, each the first entry of the one
  before, the last mapping 512 pages to themselves. Their other entries are zero; \<open>rest\<close> is what the
  memory outside of them holds.
\<close>

definition boot_mem :: "u64 \<Rightarrow> phys \<Rightarrow> phys" where
  "boot_mem P rest a =
     (if a = P then (P + 0x1000) OR 3
      else if a = P + 0x1000 then (P + 0x2000) OR 3
      else if a = P + 0x2000 then (P + 0x3000) OR 3
      else if P + 0x3000 \<le> a \<and> a < P + 0x4000 then push_bit 9 (a - (P + 0x3000)) OR 3
      else if P \<le> a \<and> a < P + 0x3000 then 0
      else rest a)"

definition boot_vm :: vm where
  "boot_vm = \<lparr>vm_pages = demo_system, vm_root = 0x10000, vm_mem = boot_mem 0x10000 (\<lambda>_. - 1)\<rparr>"

definition demo_vm :: vm where
  "demo_vm = boot_vm\<lparr>vm_mem := (vm_mem boot_vm)(0x10FF8 := 0x10003)\<rparr>"

lemmas walk_eval = walk_numeral entry_addr_def table_index_def frame_def canonical_def Let_def

lemma pga_init_boot: "pga_init boot_vm = Inr demo_vm"
  by (simp add: pga_init_def write64_def translate_def demo_vm_def boot_vm_def boot_mem_def walk_eval)

lemma demo_self_mapped: "self_mapped demo_vm"
  by (simp add: self_mapped_def self_map_def demo_vm_def boot_vm_def boot_mem_def walk_eval)

lemma demo_own_entry: "own_entry demo_vm 0x1FF000 0x13FF8"
  by (simp add: own_entry_def entry_at_def demo_vm_def boot_vm_def boot_mem_def walk_eval)

lemma demo_present:
  "descend (vm_mem demo_vm) 4 4 (vm_root demo_vm) 0x100000 = Some 0x100000"
  "descend (vm_mem demo_vm) 4 4 (vm_root demo_vm) 0x200000 = None"
  by (simp_all add: demo_vm_def boot_vm_def boot_mem_def walk_eval)

lemma frame_of_nat:
  assumes "q < 2 ^ 40"
  shows "frame (word_of_nat (4096 * q)) = word_of_nat (4096 * q)"
proof (rule bit_eqI)
  fix n
  have "4096 * q = push_bit 12 q" by (simp add: push_bit_nat_def)
  then have "bit (4096 * q) n \<longleftrightarrow> 12 \<le> n \<and> bit q (n - 12)" by (simp add: bit_push_bit_iff_nat)
  moreover have "bit q k \<Longrightarrow> k < 40" for k
  proof (rule ccontr)
    assume "bit q k" and "\<not> k < 40"
    then have "(2::nat) ^ 40 \<le> 2 ^ k" by (intro power_increasing) simp_all
    with assms have "q div 2 ^ k = 0" by simp
    with \<open>bit q k\<close> show False by (simp add: bit_iff_odd)
  qed
  ultimately have "bit (4096 * q) n \<Longrightarrow> 12 \<le> n \<and> n < 52" by fastforce
  then show "bit (frame (word_of_nat (4096 * q))) n \<longleftrightarrow> bit (word_of_nat (4096 * q) :: u64) n"
    unfolding bit_frame bit_of_nat_iff by auto
qed

lemma unat_small: "f < 2 ^ 64 \<Longrightarrow> unat (word_of_nat f :: u64) = f"
  by (simp add: unat_of_nat take_bit_nat_eq_self)

lemma demo_alloc_page:
  obtains ps p where "alloc_page demo_system = Inr (ps, 0x100000 + page_size * p)" and "p < 4096"
proof -
  have "serving (regions demo_system ! 0)" "\<not> outOfMem demo_system" "next_region demo_system = Some 0"
    using demo_usable by (simp_all add: demo_system_def serving_def demo_region_ok)
  from alloc_page_serves [OF demo_system_inv this(2,3,1)] show ?thesis
    using that by (auto simp: demo_system_def demo_region_ok)
qed

lemma demo_fresh:
  assumes "p < 4096"
  shows "fresh_table demo_vm 0x200000 0x12008 (word_of_nat (0x100000 + page_size * p))"
proof -
  define f where "f = 4096 * (256 + p)"
  have f: "0x100000 + page_size * p = f" by (simp add: f_def)
  have "unat (word_of_nat f :: u64) = f"
    by (rule unat_small) (use assms in \<open>simp add: f_def\<close>)
  moreover have "0x100000 \<le> f" by (simp add: f_def)
  ultimately have "x \<noteq> word_of_nat f" if "unat x < 0x100000" for x :: u64 using that by auto
  from this [of "0x10000"] this [of "0x11000"] this [of "0x12000"]
  have ne: "(0x10000 :: u64) \<noteq> word_of_nat f" "(0x11000 :: u64) \<noteq> word_of_nat f" "(0x12000 :: u64) \<noteq> word_of_nat f"
    by simp_all
  have "frame (word_of_nat f) = word_of_nat f"
    unfolding f_def by (rule frame_of_nat) (use assms in simp)
  moreover have "entry_at (vm_mem demo_vm) (vm_root demo_vm) 0x200000 2 = Some 0x12008"
    "vm_mem demo_vm 0x12008 = 0" "vm_root demo_vm OR push_bit 3 511 = 0x10FF8"
    "reads (vm_mem demo_vm) 2 4 (vm_root demo_vm) 0x200000 = [0x10000, 0x11000]"
    by (simp_all add: entry_at_def demo_vm_def boot_vm_def boot_mem_def walk_eval)
  moreover have "frame 0x10FF8 = 0x10000" "frame 0x12008 = 0x12000" "frame 0x11000 = 0x11000"
    "frame 0x10000 = 0x10000" by (simp_all add: frame_def)
  ultimately show ?thesis unfolding fresh_table_def f using ne by simp
qed

theorem pga_map_new_table_witness:
  "\<exists>s'. pga_map demo_vm 0x200000 0x300000 0 0 = Inr s' \<and>
     translate (vm_mem s') 0x10000 0x200000 = Some 0x300000 \<and>
     translate (vm_mem s') 0x10000 0x201000 = Some (frame (- 1))"
proof -
  obtain ps p where p: "alloc_page demo_system = Inr (ps, 0x100000 + page_size * p)" "p < 4096"
    by (rule demo_alloc_page)
  let ?u = "word_of_nat (0x100000 + page_size * p) :: u64"
  have "unat ?u = 0x100000 + page_size * p" by (rule unat_small) (use p(2) in simp)
  moreover have "frame (entry_addr ?u 0x201000 1) = ?u"
    by (rule frame_entry_addr) (use demo_fresh [OF p(2)] in \<open>simp only: fresh_table_def\<close>)
  then have "?u \<le> entry_addr ?u 0x201000 1" by (metis frame_def word_and_le2)
  ultimately have "0x100000 \<le> unat (entry_addr ?u 0x201000 1)" by (simp add: word_le_nat_alt)
  then have stale: "vm_mem demo_vm (entry_addr ?u 0x201000 1) = - 1"
    by (auto simp: demo_vm_def boot_vm_def boot_mem_def word_less_nat_alt simp del: unat_gt_0)
  have "canonical 0x200000" "canonical 0x201000" "drop_bit 21 (0x201000 :: u64) = drop_bit 21 0x200000"
    "drop_bit 12 (0x201000 :: u64) \<noteq> drop_bit 12 0x200000" "vm_pages demo_vm = demo_system"
    "vm_root demo_vm = 0x10000"
    by (simp_all add: canonical_def demo_vm_def boot_vm_def)
  from pga_map_new_table [OF demo_self_mapped this(1) demo_fresh [OF p(2)] _ this(2-4), where ps = ps and pa = "0x300000" and flags = 0]
    this(5,6) p(1) stale
  show ?thesis by (auto simp: frame_def)
qed

theorem page_ispresent_witness:
  "self_mapped demo_vm \<and> page_ispresent demo_vm 0x100000 1 = Inr True \<and>
   page_ispresent demo_vm 0x200000 1 = Inr False \<and> page_ispresent demo_vm 0x200000 3 = Inr True"
  using page_ispresent_correct [OF demo_self_mapped, of 1 "0x100000"]
    page_ispresent_correct [OF demo_self_mapped, of 1 "0x200000"]
    page_ispresent_correct [OF demo_self_mapped, of 3 "0x200000"] demo_self_mapped demo_present
  by (simp add: demo_vm_def boot_vm_def boot_mem_def walk_eval)

theorem pga_map_witness:
  "\<exists>s'. pga_map demo_vm 0x1FF000 0xB8000 0 VPAGE_NO_CACHE = Inr s' \<and>
     translate (vm_mem s') 0x10000 0x1FF123 = Some 0xB8123"
proof -
  have "canonical 0x1FF000" "drop_bit 12 (0x1FF123 :: u64) = drop_bit 12 0x1FF000" "vm_root demo_vm = 0x10000"
    by (simp_all add: canonical_def demo_vm_def boot_vm_def)
  with pga_map_correct [OF demo_self_mapped demo_own_entry this(1), of "0xB8000" VPAGE_NO_CACHE]
  show ?thesis by (auto simp: VPAGE_NO_CACHE_def VPAGE_NOT_PRESENT_def frame_def)
qed

theorem pga_unmap_witness:
  "\<exists>s'. pga_unmap demo_vm 0x1FF000 0 = Inr s' \<and> translate (vm_mem s') 0x10000 0x1FF000 = None"
proof -
  have "canonical 0x1FF000" "vm_root demo_vm = 0x10000"
    by (simp_all add: canonical_def demo_vm_def boot_vm_def)
  with pga_unmap_correct [OF demo_self_mapped demo_own_entry this(1)] show ?thesis by auto
qed

lemma demo_page_present: "page_ispresent demo_vm 0x100000 1 = Inr True"
  using page_ispresent_depth [OF demo_self_mapped, of 3 "0x100000"] demo_present by simp

end
