(* ===== verification/Vpages.thy ===== *)
theory Vpages
  imports Table_Growth
begin

text \<open>
  The virtual pages of kernel/page.c (\<open>fnfp\<close> to \<open>vpages_unmap\<close>) and the functions of kernel/mm.c that
  take physical pages and map them. \<open>next_free_vpage\<close> is part of the state. The searches have no bound
  in the code, so they return an option: \<open>None\<close> is a search that never ends.
\<close>

section \<open>kernel/page.c\<close>

record vpages =
  vp_vm :: vm
  next_free_vpage :: u64

partial_function (option) fnfp :: "vm \<Rightarrow> u64 \<Rightarrow> u64 res option" where
  "fnfp s addr =
     (case pga_ispresent s addr of
        Inl e \<Rightarrow> Some (Inl e)
      | Inr p \<Rightarrow> if \<not> p then Some (Inr addr) else fnfp s (addr + word_of_nat virt_page_size))"

definition set_next :: "vm \<Rightarrow> u64 res option \<Rightarrow> vpages res option" where
  "set_next s found =
     (case found of None \<Rightarrow> None | Some (Inl e) \<Rightarrow> Some (Inl e)
      | Some (Inr addr) \<Rightarrow> Some (Inr \<lparr>vp_vm = s, next_free_vpage = addr\<rparr>))"

definition vpage_init :: "vm \<Rightarrow> vpages res option" where
  "vpage_init s =
     (case pga_init s of Inl e \<Rightarrow> Some (Inl e) | Inr s \<Rightarrow>
        case pga_map s 0 0 0 (VPAGE_NOT_WRITABLE OR VPAGE_NO_EXECUTE) of Inl e \<Rightarrow> Some (Inl e) | Inr s \<Rightarrow>
          set_next s (fnfp s 0x100000))"

definition vpage_map :: "vpages \<Rightarrow> u64 \<Rightarrow> u32 \<Rightarrow> (vpages \<times> u64) res option" where
  "vpage_map v paddress flags =
     (case pga_map (vp_vm v) (next_free_vpage v) paddress 0 flags of Inl e \<Rightarrow> Some (Inl e) | Inr s \<Rightarrow>
        let addr = next_free_vpage v in
        case set_next s (fnfp s addr) of None \<Rightarrow> None | Some (Inl e) \<Rightarrow> Some (Inl e)
        | Some (Inr v) \<Rightarrow> Some (Inr (v, addr)))"

text \<open>The inner loop of \<open>vpages_map\<close> (is some page of the run present?) and its outer loop.\<close>

fun some_present :: "vm \<Rightarrow> u64 \<Rightarrow> nat \<Rightarrow> bool res" where
  "some_present s pgs 0 = Inr False"
| "some_present s pgs (Suc n) =
     and_then (pga_ispresent s pgs) (\<lambda>p.
       if p then Inr True else some_present s (pgs + word_of_nat virt_page_size) n)"

partial_function (option) find_run :: "vm \<Rightarrow> u64 \<Rightarrow> nat \<Rightarrow> u64 option res option" where
  "find_run s start order =
     (if start < - 1
      then case some_present s start (2 ^ order) of
          Inl e \<Rightarrow> Some (Inl e)
        | Inr nav \<Rightarrow> if nav then find_run s (start + word_of_nat virt_page_size) order
            else Some (Inr (Some start))
      else Some (Inr None))"

definition vpages_map :: "vpages \<Rightarrow> u64 \<Rightarrow> nat \<Rightarrow> u32 \<Rightarrow> (vpages \<times> u64) res option" where
  "vpages_map v paddress order flags =
     (case find_run (vp_vm v) (next_free_vpage v) order of
        None \<Rightarrow> None | Some (Inl e) \<Rightarrow> Some (Inl e)
      | Some (Inr None) \<Rightarrow> Some (Inr (v, 0))
      | Some (Inr (Some start)) \<Rightarrow>
          (case pga_map (vp_vm v) start paddress order flags of Inl e \<Rightarrow> Some (Inl e) | Inr s \<Rightarrow>
             if start = next_free_vpage v
             then case set_next s (fnfp s (start + word_of_nat (BLOCK_ORDER_SIZE order))) of
                 None \<Rightarrow> None | Some (Inl e) \<Rightarrow> Some (Inl e) | Some (Inr v) \<Rightarrow> Some (Inr (v, start))
             else Some (Inr (v\<lparr>vp_vm := s\<rparr>, start))))"

definition upd_vm :: "vpages \<Rightarrow> vm res \<Rightarrow> vpages res" where
  "upd_vm v r = and_then r (\<lambda>s. Inr (v\<lparr>vp_vm := s\<rparr>))"

definition vpage_smap :: "vpages \<Rightarrow> u64 \<Rightarrow> u64 \<Rightarrow> u32 \<Rightarrow> (vpages \<times> u64) res" where
  "vpage_smap v paddress vaddress flags =
     and_then (upd_vm v (pga_map (vp_vm v) vaddress paddress 0 flags)) (\<lambda>v. Inr (v, vaddress))"

definition vpages_smap :: "vpages \<Rightarrow> u64 \<Rightarrow> u64 \<Rightarrow> nat \<Rightarrow> u32 \<Rightarrow> (vpages \<times> u64) res" where
  "vpages_smap v paddress vaddress order flags =
     and_then (upd_vm v (pga_map (vp_vm v) vaddress paddress order flags)) (\<lambda>v. Inr (v, vaddress))"

definition vpages_reserve :: "vpages \<Rightarrow> u64 \<Rightarrow> nat \<Rightarrow> (vpages \<times> u64) res" where
  "vpages_reserve v vaddress order =
     and_then (upd_vm v (pga_map (vp_vm v) vaddress 0 order VPAGE_NOT_WRITABLE)) (\<lambda>v. Inr (v, vaddress))"

definition vpage_unmap :: "vpages \<Rightarrow> u64 \<Rightarrow> vpages res" where
  "vpage_unmap v vaddress = upd_vm v (pga_unmap (vp_vm v) vaddress 0)"

definition vpages_unmap :: "vpages \<Rightarrow> u64 \<Rightarrow> nat \<Rightarrow> vpages res" where
  "vpages_unmap v vaddress order = upd_vm v (pga_unmap (vp_vm v) vaddress order)"

section \<open>kernel/mm.c\<close>

definition set_pages :: "vpages \<Rightarrow> pages_state \<Rightarrow> vpages" where
  "set_pages v ps = v\<lparr>vp_vm := (vp_vm v)\<lparr>vm_pages := ps\<rparr>\<rparr>"

definition get_free_page_u :: "vpages \<Rightarrow> (vpages \<times> u64) res option" where
  "get_free_page_u v =
     (case alloc_page (vm_pages (vp_vm v)) of Inl e \<Rightarrow> Some (Inl e)
      | Inr (ps, page_address) \<Rightarrow>
          if page_address = 0 then Some (Inr (set_pages v ps, 0))
          else vpage_map (set_pages v ps) (word_of_nat page_address) 0)"

text \<open>\<open>memset\<close> of a page to 0, 8 bytes at a time, and \<open>get_free_page\<close>.\<close>

fun clear_words :: "vm \<Rightarrow> u64 \<Rightarrow> nat \<Rightarrow> nat \<Rightarrow> vm res" where
  "clear_words s mem i 0 = Inr s"
| "clear_words s mem i (Suc n) =
     and_then (write64 s (mem + word_of_nat (8 * i)) 0) (\<lambda>s. clear_words s mem (Suc i) n)"

definition get_free_page :: "vpages \<Rightarrow> (vpages \<times> u64) res option" where
  "get_free_page v =
     (case get_free_page_u v of None \<Rightarrow> None | Some (Inl e) \<Rightarrow> Some (Inl e)
      | Some (Inr (v, mem)) \<Rightarrow>
          Some (and_then (upd_vm v (clear_words (vp_vm v) mem 0 (virt_page_size div 8))) (\<lambda>v. Inr (v, mem))))"

definition get_free_pages_u :: "vpages \<Rightarrow> nat \<Rightarrow> (vpages \<times> u64) res option" where
  "get_free_pages_u v order =
     (case alloc_pages (vm_pages (vp_vm v)) order of Inl e \<Rightarrow> Some (Inl e)
      | Inr (ps, pages_address) \<Rightarrow>
          if pages_address = 0 then Some (Inr (set_pages v ps, 0))
          else vpages_map (set_pages v ps) (word_of_nat pages_address) order 0)"

definition return_free_page :: "vpages \<Rightarrow> u64 \<Rightarrow> vpages res" where
  "return_free_page v address =
     and_then (pga_getPhysAddr (vp_vm v) address) (\<lambda>pa.
     and_then (free_page (vm_pages (vp_vm v)) (unat pa)) (\<lambda>ps.
       vpage_unmap (set_pages v ps) address))"

definition return_free_pages :: "vpages \<Rightarrow> u64 \<Rightarrow> nat \<Rightarrow> vpages res" where
  "return_free_pages v address order =
     and_then (pga_getPhysAddr (vp_vm v) address) (\<lambda>pa.
     and_then (free_pages (vm_pages (vp_vm v)) order (unat pa)) (\<lambda>ps.
       vpages_unmap (set_pages v ps) address order))"

section \<open>The search for a free page\<close>

lemma pga_ispresent_walk:
  "self_mapped s \<Longrightarrow> pga_ispresent s va = Inr (descend (vm_mem s) 4 4 (vm_root s) va \<noteq> None)"
  using page_ispresent_depth [of s 3 va] by (simp add: pga_ispresent_def)

lemma fnfp_first:
  assumes "self_mapped s"
    and "\<And>j. j < k \<Longrightarrow> descend (vm_mem s) 4 4 (vm_root s) (addr + word_of_nat (virt_page_size * j)) \<noteq> None"
    and "descend (vm_mem s) 4 4 (vm_root s) (addr + word_of_nat (virt_page_size * k)) = None"
  shows "fnfp s addr = Some (Inr (addr + word_of_nat (virt_page_size * k)))"
  using assms(2,3)
proof (induction k arbitrary: addr)
  case 0
  then show ?case by (subst fnfp.simps) (simp add: pga_ispresent_walk [OF assms(1)])
next
  case (Suc k)
  have step: "addr + word_of_nat virt_page_size + word_of_nat (virt_page_size * j) =
      addr + word_of_nat (virt_page_size * Suc j)" for j by simp
  have "fnfp s (addr + word_of_nat virt_page_size) =
      Some (Inr (addr + word_of_nat virt_page_size + word_of_nat (virt_page_size * k)))"
  proof (rule Suc.IH)
    show "descend (vm_mem s) 4 4 (vm_root s)
        (addr + word_of_nat virt_page_size + word_of_nat (virt_page_size * j)) \<noteq> None" if "j < k" for j
      unfolding step by (rule Suc.prems(1)) (use that in simp)
    show "descend (vm_mem s) 4 4 (vm_root s)
        (addr + word_of_nat virt_page_size + word_of_nat (virt_page_size * k)) = None"
      unfolding step by (rule Suc.prems(2))
  qed
  moreover have "descend (vm_mem s) 4 4 (vm_root s) addr \<noteq> None" using Suc.prems(1) [of 0] by simp
  ultimately show ?case unfolding step
    by (subst fnfp.simps) (simp add: pga_ispresent_walk [OF assms(1)])
qed

section \<open>A page from the allocator at a virtual address\<close>

text \<open>
  The next page after \<open>va\<close> that is not present is the \<open>Suc k\<close>-th, and none of the walks up to it reads
  the entry \<open>a\<close>.
\<close>

definition next_absent :: "vm \<Rightarrow> u64 \<Rightarrow> u64 \<Rightarrow> nat \<Rightarrow> bool" where
  "next_absent s va a k \<longleftrightarrow>
     (\<forall>j \<le> k. a \<notin> set (reads (vm_mem s) 4 4 (vm_root s) (va + word_of_nat (virt_page_size * Suc j))) \<and>
        (descend (vm_mem s) 4 4 (vm_root s) (va + word_of_nat (virt_page_size * Suc j)) = None \<longleftrightarrow> j = k))"

lemma fnfp_after_map:
  assumes "self_mapped s" and "self_mapped s'" and "vm_root s' = vm_root s"
    and "descend (vm_mem s') 4 4 (vm_root s) va \<noteq> None"
    and "next_absent s va a k" and "\<And>x. x \<noteq> a \<Longrightarrow> vm_mem s' x = vm_mem s x"
  shows "fnfp s' va = Some (Inr (va + word_of_nat (virt_page_size * Suc k)))"
proof (rule fnfp_first [OF assms(2)])
  have same: "descend (vm_mem s') 4 4 (vm_root s) vb = descend (vm_mem s) 4 4 (vm_root s) vb"
    if "a \<notin> set (reads (vm_mem s) 4 4 (vm_root s) vb)" for vb
    by (rule descend_reads) (use that assms(6) in metis)
  note n = assms(5) [unfolded next_absent_def, rule_format]
  show "descend (vm_mem s') 4 4 (vm_root s') (va + word_of_nat (virt_page_size * Suc k)) = None"
    using n [of k] same assms(3) by simp
  show "descend (vm_mem s') 4 4 (vm_root s') (va + word_of_nat (virt_page_size * j)) \<noteq> None" if "j < Suc k" for j
  proof (cases j)
    case 0
    then show ?thesis using assms(3,4) by simp
  next
    case (Suc i)
    then show ?thesis using n [of i] that same assms(3) by simp
  qed
qed

lemma get_free_page_contract_aux:
  assumes "self_mapped (vp_vm v)" and "own_entry (vp_vm v) (next_free_vpage v) a"
    and "canonical (next_free_vpage v)" and "next_absent (vp_vm v) (next_free_vpage v) a k"
    and "alloc_page (vm_pages (vp_vm v)) = Inr (ps, 4096 * q)" and "0 < q" and "q < 2 ^ 40"
  shows "\<exists>v'. get_free_page_u v = Some (Inr (v', next_free_vpage v)) \<and> self_mapped (vp_vm v') \<and>
    vm_pages (vp_vm v') = ps \<and>
    (\<forall>vc. drop_bit 12 vc = drop_bit 12 (next_free_vpage v) \<longrightarrow>
       translate (vm_mem (vp_vm v')) (vm_root (vp_vm v)) vc = Some (word_of_nat (4096 * q) OR (vc AND 0xFFF))) \<and>
    (\<forall>vb. a \<notin> set (reads (vm_mem (vp_vm v)) 4 4 (vm_root (vp_vm v)) vb) \<longrightarrow>
       translate (vm_mem (vp_vm v')) (vm_root (vp_vm v)) vb = translate (vm_mem (vp_vm v)) (vm_root (vp_vm v)) vb) \<and>
    next_free_vpage v' = next_free_vpage v + word_of_nat (virt_page_size * Suc k)"
proof -
  define s where "s = (vp_vm v)\<lparr>vm_pages := ps\<rparr>"
  let ?va = "next_free_vpage v" and ?e = "make_entry (word_of_nat (4096 * q)) (entry_flags 0)"
  have s: "self_mapped s" "own_entry s ?va a"
    using assms(1,2) by (simp_all add: s_def self_mapped_def own_entry_def)
  have s_eq: "vm_mem s = vm_mem (vp_vm v)" "vm_root s = vm_root (vp_vm v)" "vm_pages s = ps"
    by (simp_all add: s_def)
  define s' where "s' = s\<lparr>vm_mem := (vm_mem s)(a := ?e)\<rparr>"
  note w = own_entry_write [OF s assms(3) s'_def]
  have present: "bit ?e 0" by (simp add: present_make_entry present_entry_flags)
  have frame: "frame ?e = word_of_nat (4096 * q)" using frame_of_nat [OF assms(7)] by simp
  have map: "pga_map s ?va (word_of_nat (4096 * q)) 0 0 = Inr s'"
    using w(1,3) by (simp add: pga_map_def Let_def)
  have "descend (vm_mem s') 4 4 (vm_root s) ?va \<noteq> None"
    using w(6) [of ?va] present by (auto simp: translate_def split: option.splits if_splits)
  moreover have "next_absent s ?va a k" using assms(4) by (simp add: next_absent_def s_eq)
  ultimately have "fnfp s' ?va = Some (Inr (?va + word_of_nat (virt_page_size * Suc k)))"
    by (intro fnfp_after_map [OF s(1) w(4)]) (auto simp: s'_def)
  moreover have "get_free_page_u v = vpage_map (set_pages v ps) (word_of_nat (4096 * q)) 0"
    using assms(5,6) by (simp add: get_free_page_u_def)
  moreover have "vp_vm (set_pages v ps) = s" "next_free_vpage (set_pages v ps) = ?va"
    by (simp_all add: set_pages_def s_def)
  ultimately have get: "get_free_page_u v = Some (Inr
      (\<lparr>vp_vm = s', next_free_vpage = ?va + word_of_nat (virt_page_size * Suc k)\<rparr>, ?va))"
    using map by (simp add: vpage_map_def set_next_def Let_def)
  have "translate (vm_mem s') (vm_root s) vc = Some (word_of_nat (4096 * q) OR (vc AND 0xFFF))"
    if "drop_bit 12 vc = drop_bit 12 ?va" for vc
    using w(6) [OF that] present frame by simp
  moreover have "vm_pages s' = ps" by (simp add: s'_def s_eq)
  ultimately show ?thesis using get w(4,7) by (simp add: s_eq)
qed



text \<open>
  C38. Giving a page back never succeeds: for every page that is mapped, \<open>page_info\<close> and
  \<open>pga_getPhysAddr\<close> fault, and with them \<open>return_free_page\<close> and \<open>return_free_pages\<close>.
\<close>

theorem return_free_page_faults:
  assumes "self_mapped (vp_vm v)" and "translate (vm_mem (vp_vm v)) (vm_root (vp_vm v)) va \<noteq> None"
  shows "pga_getPhysAddr (vp_vm v) va = Inl Fault \<and> return_free_page v va = Inl Fault \<and>
    return_free_pages v va order = Inl Fault"
proof -
  have "page_ispresent (vp_vm v) va 1 = Inr True"
    using page_ispresent_depth [OF assms(1), of 3 va] assms(2)
    by (simp add: translate_def split: if_splits option.splits)
  from page_info_faults [OF this] show ?thesis
    by (simp add: return_free_page_def return_free_pages_def)
qed

theorem return_free_page_faults_witness:
  "return_free_page \<lparr>vp_vm = demo_vm, next_free_vpage = 0x200000\<rparr> 0x100000 = Inl Fault"
proof -
  have "canonical 0x100000" by (simp add: canonical_def)
  then have "translate (vm_mem demo_vm) (vm_root demo_vm) 0x100000 \<noteq> None"
    using demo_present by (simp add: translate_def)
  with return_free_page_faults [of "\<lparr>vp_vm = demo_vm, next_free_vpage = 0x200000\<rparr>" "0x100000"] demo_self_mapped
  show ?thesis by simp
qed

end
