(* ===== verification/Console.thy ===== *)
theory Console
  imports Prelude
begin

text \<open>
  The text console of arch/X86_64/printk.c: the cells of the display, the cursor and the writes to
  the ports of the cursor. \<open>cursor_pos\<close> is 16 bits wide, the products with \<open>width\<close> 32 bits.
\<close>

section \<open>The code\<close>

record console =
  display_buffer :: "u16 list"
  width :: nat
  height :: nat
  fore_color :: u8
  back_color :: u8
  cursor_pos :: nat
  ports_out :: "(nat \<times> u8) list"

definition TAB_SIZE :: nat where "TAB_SIZE = 4"

definition m16 :: "nat \<Rightarrow> nat" where "m16 n = n mod 2 ^ 16"

definition m32 :: "nat \<Rightarrow> nat" where "m32 n = n mod 2 ^ 32"

definition vga_read :: "u16 list \<Rightarrow> nat \<Rightarrow> u16 res" where
  "vga_read b i = (if i < length b then Inr (b ! i) else Inl OutOfBounds)"

definition vga_write :: "u16 list \<Rightarrow> nat \<Rightarrow> u16 \<Rightarrow> u16 list res" where
  "vga_write b i v = (if i < length b then Inr (b[i := v]) else Inl OutOfBounds)"

definition CharEntry :: "console \<Rightarrow> u8 \<Rightarrow> u16" where
  "CharEntry c ch =
     (let ah = push_bit 4 (back_color c) OR fore_color c
      in push_bit 8 (ucast ah) OR ucast ch)"

definition getCursorPosX :: "console \<Rightarrow> nat res" where
  "getCursorPosX c = (if width c = 0 then Inl DivideError else Inr (cursor_pos c mod width c))"

definition getCursorPosY :: "console \<Rightarrow> nat res" where
  "getCursorPosY c = (if width c = 0 then Inl DivideError else Inr (cursor_pos c div width c))"

definition setCursorPos :: "console \<Rightarrow> nat \<Rightarrow> nat \<Rightarrow> console" where
  "setCursorPos c x y =
     (let pos = m16 (m32 (y * width c + x))
      in c\<lparr>cursor_pos := pos, ports_out := ports_out c @
          [(0x3D4, 0x0F), (0x3D5, word_of_nat pos), (0x3D4, 0x0E), (0x3D5, word_of_nat (pos div 256))]\<rparr>)"

text \<open>The loops of \<open>scroll\<close>: one row, all rows, and filling with a value.\<close>

fun copy_row :: "u16 list \<Rightarrow> nat \<Rightarrow> nat \<Rightarrow> nat \<Rightarrow> nat \<Rightarrow> u16 list res" where
  "copy_row b w i t 0 = Inr b"
| "copy_row b w i t (Suc n) =
     and_then (vga_read b (m32 ((i + 1) * w + t))) (\<lambda>v.
     and_then (vga_write b (m32 (i * w + t)) v) (\<lambda>b. copy_row b w i (Suc t) n))"

fun copy_rows :: "u16 list \<Rightarrow> nat \<Rightarrow> nat \<Rightarrow> nat \<Rightarrow> u16 list res" where
  "copy_rows b w i 0 = Inr b"
| "copy_rows b w i (Suc n) = and_then (copy_row b w i 0 w) (\<lambda>b. copy_rows b w (Suc i) n)"

fun fill_cells :: "u16 list \<Rightarrow> nat \<Rightarrow> u16 \<Rightarrow> nat \<Rightarrow> nat \<Rightarrow> u16 list res" where
  "fill_cells b base v i 0 = Inr b"
| "fill_cells b base v i (Suc n) =
     and_then (vga_write b (m32 (base + i)) v) (\<lambda>b. fill_cells b base v (Suc i) n)"

definition height_less_1 :: "console \<Rightarrow> nat" where
  "height_less_1 c = m32 (height c + (2 ^ 32 - 1))"

definition scroll :: "console \<Rightarrow> console res" where
  "scroll c =
     and_then (copy_rows (display_buffer c) (width c) 0 (height_less_1 c)) (\<lambda>b.
     and_then (fill_cells b (height_less_1 c * width c) (CharEntry c 0) 0 (width c)) (\<lambda>b.
     let c = c\<lparr>display_buffer := b\<rparr> in
     and_then (getCursorPosX c) (\<lambda>x. and_then (getCursorPosY c) (\<lambda>y.
       Inr (setCursorPos c x (m32 (y + (2 ^ 32 - 1))))))))"

definition clear_screen :: "console \<Rightarrow> console res" where
  "clear_screen c =
     and_then (fill_cells (display_buffer c) 0 (CharEntry c 0) 0 (m32 (width c * height c))) (\<lambda>b.
       Inr (setCursorPos (c\<lparr>display_buffer := b\<rparr>) 0 0))"

text \<open>The switch of \<open>arch_print\<close> on one character other than the terminator.\<close>

definition print_char :: "console \<Rightarrow> u8 \<Rightarrow> console res" where
  "print_char c ch =
     (if 32 \<le> ch \<and> ch \<le> 126 then
        and_then (vga_write (display_buffer c) (cursor_pos c) (CharEntry c ch)) (\<lambda>b.
          Inr (c\<lparr>display_buffer := b, cursor_pos := m16 (cursor_pos c + 1)\<rparr>))
      else if ch = 8 then Inr (if cursor_pos c > 0 then c\<lparr>cursor_pos := cursor_pos c - 1\<rparr> else c)
      else if ch = 9 then Inr (c\<lparr>cursor_pos := m16 (cursor_pos c + TAB_SIZE)\<rparr>)
      else if ch = 10 then and_then (getCursorPosY c) (\<lambda>y. Inr (setCursorPos c 0 (m32 (y + 1))))
      else if ch = 11 then and_then (getCursorPosX c) (\<lambda>x. and_then (getCursorPosY c) (\<lambda>y.
          Inr (setCursorPos c x (m32 (y + 1)))))
      else if ch = 12 then clear_screen c
      else if ch = 13 then and_then (getCursorPosY c) (\<lambda>y. Inr (setCursorPos c 0 y))
      else Inr c)"

text \<open>The loop \<open>scrollRep\<close>; \<open>None\<close> where it never ends.\<close>

partial_function (option) scrollRep :: "console \<Rightarrow> console res option" where
  "scrollRep c =
     (if m32 (width c * height c) \<le> cursor_pos c
      then case scroll c of Inl e \<Rightarrow> Some (Inl e) | Inr c \<Rightarrow> scrollRep c
      else Some (Inr c))"

text \<open>The loop over the string from \<open>i\<close> on; a terminator moves \<open>i\<close> to the end.\<close>

fun print_loop :: "console \<Rightarrow> u8 list \<Rightarrow> nat \<Rightarrow> nat \<Rightarrow> console res option" where
  "print_loop c str i 0 = Some (Inr c)"
| "print_loop c str i (Suc n) =
     (if \<not> i < length str then Some (Inl OutOfBounds)
      else if str ! i = 0 then scrollRep c
      else case print_char c (str ! i) of Inl e \<Rightarrow> Some (Inl e)
        | Inr c \<Rightarrow> (case scrollRep c of None \<Rightarrow> None | Some (Inl e) \<Rightarrow> Some (Inl e)
            | Some (Inr c) \<Rightarrow> print_loop c str (Suc i) n))"

definition arch_print :: "console \<Rightarrow> u8 list \<Rightarrow> nat \<Rightarrow> console res option" where
  "arch_print c str len =
     (case print_loop c str 0 len of None \<Rightarrow> None | Some r \<Rightarrow>
        Some (and_then r (\<lambda>c. and_then (getCursorPosX c) (\<lambda>x. and_then (getCursorPosY c) (\<lambda>y.
          Inr (setCursorPos c x y))))))"

datatype framebuffer_type = EGA_TEXT | INDEXED_COLOR | DIRECT_RGB | FRAMEBUFFER_TYPE_LENGTH

text \<open>\<open>arch_printk_init\<close>, with the cells behind the mapping of the frame buffer.\<close>

definition arch_printk_init :: "framebuffer_type \<Rightarrow> u16 list \<Rightarrow> nat \<Rightarrow> nat \<Rightarrow> console \<Rightarrow> (console \<times> int) res" where
  "arch_printk_init ty cells w h c =
     (if ty \<noteq> EGA_TEXT then Inr (c, - 1)
      else and_then (clear_screen (c\<lparr>display_buffer := cells, width := w, height := h\<rparr>)) (\<lambda>c. Inr (c, 0)))"

section \<open>The loops\<close>

lemma m32_exact: "n < 2 ^ 32 \<Longrightarrow> m32 n = n" and m16_exact: "n < 2 ^ 16 \<Longrightarrow> m16 n = n"
  by (simp_all add: m32_def m16_def)

lemma list_by_index: "xs = map f [0..<n] \<longleftrightarrow> length xs = n \<and> (\<forall>k < n. xs ! k = f k)"
  by (auto intro: nth_equalityI)

lemma copy_row_eq:
  assumes "w = t + n" and "(i + 2) * w \<le> length b" and "length b < 2 ^ 32"
  shows "copy_row b w i t n =
    Inr (map (\<lambda>k. if i * w + t \<le> k \<and> k < (i + 1) * w then b ! (k + w) else b ! k) [0..<length b])"
  using assms
proof (induction n arbitrary: t b)
  case 0
  then have "b = map (\<lambda>k. if i * w + t \<le> k \<and> k < (i + 1) * w then b ! (k + w) else b ! k) [0..<length b]"
    unfolding list_by_index by auto
  then show ?case by simp
next
  case (Suc n)
  let ?s = "(i + 1) * w + t" and ?d = "i * w + t"
  have le: "?s < (i + 2) * w" "?d < ?s" using Suc.prems(1) by simp_all
  then have b: "m32 ?s = ?s" "m32 ?d = ?d" "?s < length b" "?d < length b"
    using Suc.prems(2,3) by (auto intro!: m32_exact)
  let ?b = "b[?d := b ! ?s]"
  have "copy_row b w i t (Suc n) = copy_row ?b w i (Suc t) n"
    using b by (simp add: vga_read_def vga_write_def)
  also have "\<dots> = Inr (map (\<lambda>k. if i * w + Suc t \<le> k \<and> k < (i + 1) * w then ?b ! (k + w) else ?b ! k)
      [0..<length ?b])"
    by (rule Suc.IH) (use Suc.prems in simp_all)
  also have "map (\<lambda>k. if i * w + Suc t \<le> k \<and> k < (i + 1) * w then ?b ! (k + w) else ?b ! k) [0..<length ?b] =
      map (\<lambda>k. if i * w + t \<le> k \<and> k < (i + 1) * w then b ! (k + w) else b ! k) [0..<length b]"
  proof (rule map_cong)
    fix k
    assume "k \<in> set [0..<length b]"
    have "?s = ?d + w" by simp
    moreover have "?d < (i + 1) * w" using Suc.prems(1) by simp
    moreover have "i * w + Suc t \<le> k \<Longrightarrow> k + w \<noteq> ?d" using Suc.prems(1) by simp
    ultimately show "(if i * w + Suc t \<le> k \<and> k < (i + 1) * w then ?b ! (k + w) else ?b ! k) =
        (if i * w + t \<le> k \<and> k < (i + 1) * w then b ! (k + w) else b ! k)"
      using b(4) by (cases "k = ?d") (auto simp: nth_list_update algebra_simps)
  qed simp
  finally show ?case .
qed

lemma copy_rows_eq:
  assumes "(i + n + 1) * w \<le> length b" and "length b < 2 ^ 32"
  shows "copy_rows b w i n =
    Inr (map (\<lambda>k. if i * w \<le> k \<and> k < (i + n) * w then b ! (k + w) else b ! k) [0..<length b])"
  using assms
proof (induction n arbitrary: i b)
  case 0
  have "b = map (\<lambda>k. if i * w \<le> k \<and> k < (i + 0) * w then b ! (k + w) else b ! k) [0..<length b]"
    unfolding list_by_index by auto
  then show ?case by simp
next
  case (Suc n)
  have "(i + 2) * w \<le> (i + Suc n + 1) * w" by (rule mult_le_mono1) simp
  with Suc.prems have len: "(i + 2) * w \<le> length b" by linarith
  let ?b = "map (\<lambda>k. if i * w \<le> k \<and> k < (i + 1) * w then b ! (k + w) else b ! k) [0..<length b]"
  have "copy_rows b w i (Suc n) = copy_rows ?b w (Suc i) n"
    using copy_row_eq [of w 0 w i b] len Suc.prems(2) by simp
  also have "\<dots> = Inr (map (\<lambda>k. if Suc i * w \<le> k \<and> k < (Suc i + n) * w then ?b ! (k + w) else ?b ! k)
      [0..<length ?b])"
    by (rule Suc.IH) (use Suc.prems in simp_all)
  also have "map (\<lambda>k. if Suc i * w \<le> k \<and> k < (Suc i + n) * w then ?b ! (k + w) else ?b ! k) [0..<length ?b] =
      map (\<lambda>k. if i * w \<le> k \<and> k < (i + Suc n) * w then b ! (k + w) else b ! k) [0..<length b]"
  proof (rule map_cong)
    fix k
    assume "k \<in> set [0..<length b]"
    then have k: "k < length b" by simp
    have "(i + 1) * w \<le> (i + Suc n) * w" by (rule mult_le_mono1) simp
    then have le: "k < (i + 1) * w \<Longrightarrow> k < (i + Suc n) * w" by (rule less_le_trans [rotated])
    have "k < (Suc i + n) * w \<Longrightarrow> k + w < length b" using Suc.prems(1) by simp
    then show "(if Suc i * w \<le> k \<and> k < (Suc i + n) * w then ?b ! (k + w) else ?b ! k) =
        (if i * w \<le> k \<and> k < (i + Suc n) * w then b ! (k + w) else b ! k)"
      using k le by (cases "k < (i + 1) * w") simp_all
  qed simp
  finally show ?case .
qed

lemma fill_cells_eq:
  assumes "base + i + n \<le> length b" and "length b < 2 ^ 32"
  shows "fill_cells b base v i n =
    Inr (map (\<lambda>k. if base + i \<le> k \<and> k < base + i + n then v else b ! k) [0..<length b])"
  using assms
proof (induction n arbitrary: i b)
  case 0
  have "b = map (\<lambda>k. if base + i \<le> k \<and> k < base + i + 0 then v else b ! k) [0..<length b]"
    unfolding list_by_index by auto
  then show ?case by simp
next
  case (Suc n)
  have b: "m32 (base + i) = base + i" "base + i < length b"
    using Suc.prems by (auto intro!: m32_exact)
  let ?b = "b[base + i := v]"
  have "fill_cells b base v i (Suc n) = fill_cells ?b base v (Suc i) n"
    using b by (simp add: vga_write_def)
  also have "\<dots> = Inr (map (\<lambda>k. if base + Suc i \<le> k \<and> k < base + Suc i + n then v else ?b ! k) [0..<length ?b])"
    by (rule Suc.IH) (use Suc.prems in simp_all)
  also have "map (\<lambda>k. if base + Suc i \<le> k \<and> k < base + Suc i + n then v else ?b ! k) [0..<length ?b] =
      map (\<lambda>k. if base + i \<le> k \<and> k < base + i + Suc n then v else b ! k) [0..<length b]"
    using b(2) by (auto simp: nth_list_update)
  finally show ?case .
qed

section \<open>What the console promises\<close>

text \<open>
  The abstract screen: its cells, row after row, and the place of the next character. A screen whose
  cursor has left it is moved up row by row.
\<close>

definition entry :: "u8 \<Rightarrow> u8 \<Rightarrow> u8 \<Rightarrow> u16" where
  "entry fore back ch = push_bit 8 (ucast (push_bit 4 back OR fore)) OR ucast ch"

type_synonym screen = "u16 list \<times> nat"

fun settle :: "nat \<Rightarrow> u16 \<Rightarrow> screen \<Rightarrow> nat \<Rightarrow> screen" where
  "settle w blank (cells, pos) 0 = (cells, pos)"
| "settle w blank (cells, pos) (Suc n) =
     (if length cells \<le> pos then settle w blank (drop w cells @ replicate w blank, pos - w) n
      else (cells, pos))"

definition screen_char :: "nat \<Rightarrow> (u8 \<Rightarrow> u16) \<Rightarrow> u8 \<Rightarrow> screen \<Rightarrow> screen" where
  "screen_char w ent ch s =
     (let cells = fst s; pos = snd s in
      if 32 \<le> ch \<and> ch \<le> 126 then (cells[pos := ent ch], pos + 1)
      else if ch = 8 then (cells, pos - 1)
      else if ch = 9 then (cells, pos + 4)
      else if ch = 10 then (cells, (pos div w + 1) * w)
      else if ch = 11 then (cells, pos + w)
      else if ch = 12 then (replicate (length cells) (ent 0), 0)
      else if ch = 13 then (cells, pos div w * w)
      else (cells, pos))"

text \<open>The cursor leaves the screen by at most a row or a tabulator, so four rounds are enough.\<close>

definition screen_put :: "nat \<Rightarrow> (u8 \<Rightarrow> u16) \<Rightarrow> u8 \<Rightarrow> screen \<Rightarrow> screen" where
  "screen_put w ent ch s = settle w (ent 0) (screen_char w ent ch s) 4"

definition console_area :: "console \<Rightarrow> bool" where
  "console_area c \<longleftrightarrow> 0 < width c \<and> 0 < height c \<and> width c * height c + width c + 4 < 2 ^ 16 \<and>
     width c * height c \<le> length (display_buffer c) \<and> length (display_buffer c) < 2 ^ 32"

definition console_ok :: "console \<Rightarrow> bool" where
  "console_ok c \<longleftrightarrow> console_area c \<and> cursor_pos c < width c * height c"

definition screen_of :: "console \<Rightarrow> screen" where
  "screen_of c = (take (width c * height c) (display_buffer c), cursor_pos c)"

text \<open>What no character changes: the geometry, the colours and the cells behind the screen.\<close>

definition same_display :: "console \<Rightarrow> console \<Rightarrow> bool" where
  "same_display c d \<longleftrightarrow> width d = width c \<and> height d = height c \<and> fore_color d = fore_color c \<and>
     back_color d = back_color c \<and> length (display_buffer d) = length (display_buffer c) \<and>
     drop (width c * height c) (display_buffer d) = drop (width c * height c) (display_buffer c)"

lemma same_display_refl [simp]: "same_display c c"
  by (simp add: same_display_def)

lemma same_display_trans: "same_display a b \<Longrightarrow> same_display b c \<Longrightarrow> same_display a c"
  by (simp add: same_display_def)

lemma same_display_area: "same_display c d \<Longrightarrow> console_area c \<Longrightarrow> console_area d"
  by (simp add: same_display_def console_area_def)

lemma CharEntry_entry: "CharEntry c = entry (fore_color c) (back_color c)"
  by (rule ext) (simp add: CharEntry_def entry_def Let_def)

lemma setCursorPos_fields [simp]:
  "display_buffer (setCursorPos c x y) = display_buffer c" "width (setCursorPos c x y) = width c"
  "height (setCursorPos c x y) = height c" "fore_color (setCursorPos c x y) = fore_color c"
  "back_color (setCursorPos c x y) = back_color c"
  "cursor_pos (setCursorPos c x y) = m16 (m32 (y * width c + x))"
  by (simp_all add: setCursorPos_def Let_def)

lemma height_less_1_eq: "console_area c \<Longrightarrow> height_less_1 c = height c - 1"
proof -
  assume a: "console_area c"
  then have pos: "0 < height c" "width c * height c < 2 ^ 16" and "1 \<le> width c"
    by (simp_all add: console_area_def)
  from \<open>1 \<le> width c\<close> have "1 * height c \<le> width c * height c" by (rule mult_le_mono1)
  with pos(2) have "height c < 2 ^ 16" by linarith
  then have "height c < 2 ^ 32" by simp
  with pos(1) have "height c + (2 ^ 32 - 1) = (height c - 1) + 2 ^ 32" "height c - 1 < 2 ^ 32" by simp_all
  then show ?thesis unfolding height_less_1_def m32_def by (metis mod_add_self2 mod_less)
qed

text \<open>One \<open>scroll\<close> from a cursor below the first row moves the rows up and the cursor with them.\<close>

lemma scroll_step:
  assumes area: "console_area c" and pos: "width c \<le> cursor_pos c" "cursor_pos c < 2 ^ 16"
  shows "\<exists>d. scroll c = Inr d \<and> same_display c d \<and>
    screen_of d = (drop (width c) (fst (screen_of c)) @ replicate (width c) (CharEntry c 0), cursor_pos c - width c)"
proof -
  let ?w = "width c" and ?h = "height c" and ?b = "display_buffer c"
  have a: "0 < ?w" "0 < ?h" "?w * ?h < 2 ^ 16" "?w * ?h \<le> length ?b" "length ?b < 2 ^ 32"
    using area by (simp_all add: console_area_def)
  obtain h where h: "?h = Suc h" using a(2) by (cases "?h") simp_all
  have h1: "height_less_1 c = h" using height_less_1_eq [OF area] h by simp
  have size: "(h + 1) * ?w \<le> length ?b" "h * ?w + 0 + ?w \<le> length ?b" using a(4) h by (simp_all add: mult.commute)
  define r where "r = map (\<lambda>k. if k < h * ?w then ?b ! (k + ?w) else ?b ! k) [0..<length ?b]"
  have rows: "copy_rows ?b ?w 0 h = Inr r"
    using copy_rows_eq [of 0 h ?w ?b] size(1) a(5) by (simp add: r_def)
  define f where "f = map (\<lambda>k. if h * ?w \<le> k \<and> k < h * ?w + ?w then CharEntry c 0 else r ! k) [0..<length r]"
  have fill: "fill_cells r (h * ?w) (CharEntry c 0) 0 ?w = Inr f"
    using fill_cells_eq [of "h * ?w" 0 ?w r "CharEntry c 0"] size(2) a(5) by (simp add: f_def r_def)
  have len: "length f = length ?b" by (simp add: f_def r_def)
  have nth: "f ! k = (if k < h * ?w then ?b ! (k + ?w) else if k < ?w * ?h then CharEntry c 0 else ?b ! k)"
    if "k < length ?b" for k
    using that by (auto simp: f_def r_def h algebra_simps)
  have take: "take (?w * ?h) f = drop ?w (take (?w * ?h) ?b) @ replicate ?w (CharEntry c 0)"
    using a(4) h by (intro nth_equalityI) (auto simp: len nth nth_append algebra_simps)
  have drop: "drop (?w * ?h) f = drop (?w * ?h) ?b"
    using a(4) h by (intro nth_equalityI) (auto simp: len nth algebra_simps)
  let ?d = "c\<lparr>display_buffer := f\<rparr>" and ?x = "cursor_pos c mod ?w" and ?y = "cursor_pos c div ?w"
  have y: "0 < ?y" "?y \<le> cursor_pos c" using pos(1) a(1) by (simp_all add: div_greater_zero_iff)
  then have "?y < 2 ^ 16" using pos(2) by linarith
  with y(1) have "?y + (2 ^ 32 - 1) = (?y - 1) + 2 ^ 32" "?y - 1 < 2 ^ 32" by simp_all
  then have y1: "m32 (?y + (2 ^ 32 - 1)) = ?y - 1" unfolding m32_def by (metis mod_add_self2 mod_less)
  have "?y * ?w + ?x = cursor_pos c" by simp
  then have "(?y - 1) * ?w + ?x = cursor_pos c - ?w" using y(1) by (simp add: diff_mult_distrib)
  then have cur: "m16 (m32 ((?y - 1) * ?w + ?x)) = cursor_pos c - ?w"
    using pos(2) by (simp add: m16_exact m32_exact)
  have "scroll c = Inr (setCursorPos ?d ?x (?y - 1))"
    using rows fill h1 a(1) y1 by (simp add: scroll_def getCursorPosX_def getCursorPosY_def Let_def)
  with len take drop cur show ?thesis
    by (simp add: same_display_def screen_of_def)
qed

lemma same_display_area_D:
  "same_display c d \<Longrightarrow> width d = width c" "same_display c d \<Longrightarrow> height d = height c"
  "same_display c d \<Longrightarrow> CharEntry d = CharEntry c"
  by (simp_all add: same_display_def CharEntry_entry)

lemma area_m32: "console_area c \<Longrightarrow> m32 (width c * height c) = width c * height c"
  by (rule m32_exact) (simp add: console_area_def)

lemma scrollRep_settle:
  assumes "console_area c" and "cursor_pos c < width c * height c + n * width c" and "cursor_pos c < 2 ^ 16"
  shows "\<exists>d. scrollRep c = Some (Inr d) \<and> same_display c d \<and> console_ok d \<and>
    screen_of d = settle (width c) (CharEntry c 0) (screen_of c) n"
  using assms
proof (induction n arbitrary: c)
  case 0
  then have "scrollRep c = Some (Inr c)"
    by (subst scrollRep.simps) (simp add: area_m32)
  with 0 show ?case by (simp add: console_ok_def screen_of_def)
next
  case (Suc n)
  let ?n = "width c * height c"
  have len: "length (take ?n (display_buffer c)) = ?n" using Suc.prems(1) by (simp add: console_area_def)
  show ?case
  proof (cases "?n \<le> cursor_pos c")
    case False
    then have "scrollRep c = Some (Inr c)"
      using Suc.prems(1) by (subst scrollRep.simps) (simp add: area_m32)
    with False Suc.prems(1) len show ?thesis by (simp add: console_ok_def screen_of_def)
  next
    case True
    have "1 \<le> height c" using Suc.prems(1) by (simp add: console_area_def)
    then have "width c * 1 \<le> ?n" by (rule mult_le_mono2)
    then have "width c \<le> cursor_pos c" using True unfolding mult_1_right by (rule le_trans)
    note row = this
    from scroll_step [OF Suc.prems(1) row Suc.prems(3)] obtain d where d: "scroll c = Inr d" "same_display c d"
      "screen_of d = (drop (width c) (fst (screen_of c)) @ replicate (width c) (CharEntry c 0), cursor_pos c - width c)"
      by blast
    then have pos: "cursor_pos d = cursor_pos c - width c" by (simp add: screen_of_def)
    have "cursor_pos d < width d * height d + n * width d"
      using pos row Suc.prems(2) same_display_area_D [OF d(2)] by simp
    then have "\<exists>e. scrollRep d = Some (Inr e) \<and> same_display d e \<and> console_ok e \<and>
        screen_of e = settle (width d) (CharEntry d 0) (screen_of d) n"
      by (rule Suc.IH [OF same_display_area [OF d(2) Suc.prems(1)]]) (use pos Suc.prems(3) in simp)
    then obtain e where e: "scrollRep d = Some (Inr e)" "same_display d e" "console_ok e"
      "screen_of e = settle (width d) (CharEntry d 0) (screen_of d) n" by blast
    have "scrollRep c = Some (Inr e)"
      using True Suc.prems(1) d(1) e(1) by (subst scrollRep.simps) (simp add: area_m32)
    moreover have "screen_of e = settle (width c) (CharEntry c 0) (screen_of c) (Suc n)"
      using e(4) d(3) same_display_area_D [OF d(2)] True len by (simp add: screen_of_def)
    ultimately show ?thesis using e(3) same_display_trans [OF d(2) e(2)] by blast
  qed
qed

lemma cursor_row: "p < w * h \<Longrightarrow> (p div w + 1) * w \<le> w * (h :: nat)"
proof -
  assume "p < w * h"
  then have "p div w < h" by (simp add: less_mult_imp_div_less mult.commute)
  then have "(p div w + 1) * w \<le> h * w" by (intro mult_le_mono1) simp
  then show ?thesis by (simp add: mult.commute)
qed

lemma cursor_small:
  assumes "console_area c" and "p \<le> width c * height c + width c + 4"
  shows "m16 (m32 p) = p" and "m16 p = p" and "p < 2 ^ 16"
proof -
  show "p < 2 ^ 16" using assms by (simp add: console_area_def)
  then show "m16 (m32 p) = p" "m16 p = p" by (simp_all add: m16_exact m32_exact)
qed

text \<open>What every character leaves behind before the screen is moved up.\<close>

definition char_done :: "console \<Rightarrow> u8 \<Rightarrow> console \<Rightarrow> bool" where
  "char_done c ch d \<longleftrightarrow> same_display c d \<and> cursor_pos d < width c * height c + 4 * width c \<and>
     cursor_pos d < 2 ^ 16 \<and> screen_of d = screen_char (width c) (CharEntry c) ch (screen_of c)"

lemma char_done_cursor:
  assumes "console_ok c" and "same_display c d" and "display_buffer d = display_buffer c"
    and "cursor_pos d = p" and "p < width c * height c + 4 \<or> p < width c * height c + width c"
    and "screen_char (width c) (CharEntry c) ch (screen_of c) = (fst (screen_of c), p)"
  shows "char_done c ch d"
proof -
  have a: "console_area c" "0 < width c" using assms(1) by (simp_all add: console_ok_def console_area_def)
  then have "p < width c * height c + 4 * width c" using assms(5) by auto
  moreover have "p < 2 ^ 16" by (rule cursor_small(3) [OF a(1)]) (use assms(5) in auto)
  ultimately show ?thesis
    using assms(2-4,6) by (simp add: char_done_def screen_of_def same_display_area_D)
qed

lemma clear_screen_done:
  assumes "console_ok c"
  shows "\<exists>d. clear_screen c = Inr d \<and> same_display c d \<and>
    screen_of d = (replicate (width c * height c) (CharEntry c 0), 0)"
proof -
  let ?n = "width c * height c" and ?b = "display_buffer c"
  have a: "console_area c" using assms by (simp add: console_ok_def)
  then have len: "?n \<le> length ?b" "length ?b < 2 ^ 32" by (simp_all add: console_area_def)
  define f where "f = map (\<lambda>k. if k < ?n then CharEntry c 0 else ?b ! k) [0..<length ?b]"
  have "fill_cells ?b 0 (CharEntry c 0) 0 ?n = Inr f"
    using fill_cells_eq [of 0 0 ?n ?b "CharEntry c 0"] len by (simp add: f_def)
  then have "clear_screen c = Inr (setCursorPos (c\<lparr>display_buffer := f\<rparr>) 0 0)"
    by (simp add: clear_screen_def area_m32 [OF a])
  moreover have "take ?n f = replicate ?n (CharEntry c 0)" "drop ?n f = drop ?n ?b" "length f = length ?b"
    using len(1) by (auto simp: f_def intro!: nth_equalityI)
  ultimately show ?thesis
    by (simp add: same_display_def screen_of_def m16_def m32_def)
qed

lemma print_char_done:
  assumes "console_ok c"
  shows "\<exists>d. print_char c ch = Inr d \<and> char_done c ch d"
proof -
  let ?w = "width c" and ?n = "width c * height c" and ?p = "cursor_pos c" and ?b = "display_buffer c"
  have a: "console_area c" "?p < ?n" using assms by (simp_all add: console_ok_def)
  then have w: "0 < ?w" and len: "?n \<le> length ?b" by (simp_all add: console_area_def)
  note small = cursor_small [OF a(1)]
  note cursor = char_done_cursor [OF assms]
  have row: "(?p div ?w + 1) * ?w \<le> ?n" using cursor_row [OF a(2)] .
  have "?p div ?w < 2 ^ 16" using small(3) [of ?p] a(2) div_le_dividend [of ?p ?w] by linarith
  then have y: "m32 (?p div ?w + 1) = ?p div ?w + 1" by (intro m32_exact) simp
  consider "32 \<le> ch \<and> ch \<le> 126" | "ch = 8" | "ch = 9" | "ch = 10" | "ch = 11" | "ch = 12" | "ch = 13"
    | "\<not> (32 \<le> ch \<and> ch \<le> 126)" "ch \<notin> {8, 9, 10, 11, 12, 13}" by blast
  then show ?thesis
  proof cases
    case 1
    then show ?thesis
      using a(2) len small [of "?p + 1"] w
      by (simp add: print_char_def vga_write_def char_done_def same_display_def screen_of_def
          screen_char_def take_update_swap Let_def)
  next
    case 2
    let ?d = "if ?p > 0 then c\<lparr>cursor_pos := ?p - 1\<rparr> else c"
    have "char_done c ch ?d"
      by (rule cursor [of ?d "?p - 1"]) (use 2 a(2) in \<open>auto simp: same_display_def screen_char_def screen_of_def Let_def\<close>)
    with 2 show ?thesis by (simp add: print_char_def)
  next
    case 3
    let ?d = "c\<lparr>cursor_pos := m16 (?p + TAB_SIZE)\<rparr>"
    have "char_done c ch ?d"
      by (rule cursor [of ?d "?p + 4"]) (use 3 a(2) small(2) [of "?p + 4"] in
        \<open>simp_all add: same_display_def screen_char_def screen_of_def Let_def TAB_SIZE_def\<close>)
    with 3 show ?thesis by (simp add: print_char_def)
  next
    case 4
    let ?d = "setCursorPos c 0 (?p div ?w + 1)"
    have "char_done c ch ?d"
      by (rule cursor [of ?d "(?p div ?w + 1) * ?w"]) (use 4 row small(1) [of "(?p div ?w + 1) * ?w"] in
        \<open>simp_all add: same_display_def screen_char_def screen_of_def Let_def\<close>)
    with 4 w y show ?thesis by (simp add: print_char_def getCursorPosY_def)
  next
    case 5
    let ?d = "setCursorPos c (?p mod ?w) (?p div ?w + 1)"
    have sum: "(?p div ?w + 1) * ?w + ?p mod ?w = ?p + ?w" by simp
    have "char_done c ch ?d"
      by (rule cursor [of ?d "?p + ?w"]) (use 5 a(2) small(1) [of "?p + ?w"] sum in
        \<open>simp_all add: same_display_def screen_char_def screen_of_def Let_def\<close>)
    with 5 w y show ?thesis by (simp add: print_char_def getCursorPosY_def getCursorPosX_def)
  next
    case 6
    with clear_screen_done [OF assms] w a(2) len show ?thesis
      by (auto simp: print_char_def char_done_def screen_char_def screen_of_def Let_def)
  next
    case 7
    let ?d = "setCursorPos c 0 (?p div ?w)"
    have "?p div ?w * ?w \<le> ?p" by simp
    then have le: "?p div ?w * ?w < ?n" using a(2) by (rule le_less_trans)
    then have lt: "?p div ?w * ?w < ?n + 4 \<or> ?p div ?w * ?w < ?n + ?w" by (intro disjI1) linarith
    have "char_done c ch ?d"
      by (rule cursor [OF _ _ _ lt]) (use 7 a(2) small(1) [of "?p div ?w * ?w"] le in
        \<open>simp_all add: same_display_def screen_char_def screen_of_def Let_def\<close>)
    with 7 w show ?thesis by (simp add: print_char_def getCursorPosY_def)
  next
    case 8
    have "char_done c ch c"
      by (rule cursor [of c ?p]) (use 8 a(2) in \<open>auto simp: same_display_def screen_char_def screen_of_def Let_def\<close>)
    with 8 show ?thesis by (auto simp: print_char_def)
  qed
qed

text \<open>The whole string: up to its length or its terminator.\<close>

definition screen_print :: "console \<Rightarrow> u8 list \<Rightarrow> screen \<Rightarrow> screen" where
  "screen_print c str = fold (screen_put (width c) (CharEntry c)) str"

lemma print_loop_screen:
  assumes "console_ok c" and "i + n \<le> length str \<or> 0 \<in> set (drop i str)"
  shows "\<exists>d. print_loop c str i n = Some (Inr d) \<and> same_display c d \<and> console_ok d \<and>
    screen_of d = screen_print c (takeWhile (\<lambda>ch. ch \<noteq> 0) (take n (drop i str))) (screen_of c)"
  using assms
proof (induction n arbitrary: c i)
  case 0
  then show ?case by (simp add: screen_print_def)
next
  case (Suc n)
  have area: "console_area c" "cursor_pos c < width c * height c + 0 * width c" "cursor_pos c < 2 ^ 16"
    using Suc.prems(1) cursor_small(3) [of c "cursor_pos c"] by (simp_all add: console_ok_def)
  have i: "i < length str" using Suc.prems(2) by (cases "i < length str") simp_all
  then have drop: "drop i str = str ! i # drop (Suc i) str" by (rule Cons_nth_drop_Suc [symmetric])
  show ?case
  proof (cases "str ! i = 0")
    case True
    have "scrollRep c = Some (Inr c)"
      using Suc.prems(1) by (subst scrollRep.simps) (simp add: area_m32 console_ok_def)
    with True i drop Suc.prems(1) show ?thesis by (simp add: screen_print_def)
  next
    case False
    from print_char_done [OF Suc.prems(1), of "str ! i"] obtain d where
      d: "print_char c (str ! i) = Inr d" "char_done c (str ! i) d" by blast
    then have "same_display c d" by (simp add: char_done_def)
    with d(2) have d': "same_display c d" "cursor_pos d < width d * height d + 4 * width d" "cursor_pos d < 2 ^ 16"
      "screen_of d = screen_char (width c) (CharEntry c) (str ! i) (screen_of c)"
      by (simp_all add: char_done_def same_display_area_D [OF \<open>same_display c d\<close>])
    from scrollRep_settle [OF same_display_area [OF d'(1) area(1)] d'(2,3)] obtain e where
      e: "scrollRep d = Some (Inr e)" "same_display d e" "console_ok e"
      "screen_of e = settle (width d) (CharEntry d 0) (screen_of d) 4" by blast
    have ce: "same_display c e" using same_display_trans [OF d'(1) e(2)] .
    have put: "screen_of e = screen_put (width c) (CharEntry c) (str ! i) (screen_of c)"
      using e(4) d'(4) same_display_area_D [OF d'(1)] by (simp add: screen_put_def)
    have "Suc i + n \<le> length str \<or> 0 \<in> set (drop (Suc i) str)"
      using Suc.prems(2) drop False by auto
    from Suc.IH [OF e(3) this] obtain f where
      f: "print_loop e str (Suc i) n = Some (Inr f)" "same_display e f" "console_ok f"
      "screen_of f = screen_print e (takeWhile (\<lambda>ch. ch \<noteq> 0) (take n (drop (Suc i) str))) (screen_of e)"
      by blast
    have "screen_of f = screen_print c (takeWhile (\<lambda>ch. ch \<noteq> 0) (take (Suc n) (drop i str))) (screen_of c)"
      using f(4) put False drop same_display_area_D [OF ce] by (simp add: screen_print_def)
    then show ?thesis
      using d(1) e(1) f(1,3) i False same_display_trans [OF ce f(2)] by simp
  qed
qed

lemma arch_print_ok:
  assumes "console_ok c" and "len \<le> length str \<or> 0 \<in> set str"
  shows "\<exists>d pre. arch_print c str len = Some (Inr d) \<and> same_display c d \<and> console_ok d \<and>
    screen_of d = screen_print c (takeWhile (\<lambda>ch. ch \<noteq> 0) (take len str)) (screen_of c) \<and>
    ports_out d = pre @ [(0x3D4, 0x0F), (0x3D5, word_of_nat (cursor_pos d)),
      (0x3D4, 0x0E), (0x3D5, word_of_nat (cursor_pos d div 256))]"
proof -
  obtain e where e: "print_loop c str 0 len = Some (Inr e)" "same_display c e" "console_ok e"
    "screen_of e = screen_print c (takeWhile (\<lambda>ch. ch \<noteq> 0) (take len str)) (screen_of c)"
    using print_loop_screen [OF assms(1), of 0 len str] assms(2) by auto
  let ?x = "cursor_pos e mod width e" and ?y = "cursor_pos e div width e"
  have a: "console_area e" "cursor_pos e < width e * height e" "0 < width e"
    using e(3) by (simp_all add: console_ok_def console_area_def)
  have sum: "?y * width e + ?x = cursor_pos e" by simp
  have pos: "m16 (m32 (?y * width e + ?x)) = cursor_pos e"
    unfolding sum by (rule cursor_small(1) [OF a(1)]) (use a(2) in simp)
  define d where "d = setCursorPos e ?x ?y"
  have "arch_print c str len = Some (Inr d)"
    using e(1) a(3) by (simp add: arch_print_def getCursorPosX_def getCursorPosY_def d_def)
  moreover have "same_display c d" "screen_of d = screen_of e" "console_ok d"
    using e(2,3) pos by (simp_all add: d_def same_display_def screen_of_def console_ok_def console_area_def)
  moreover have "ports_out d = ports_out e @ [(0x3D4, 0x0F), (0x3D5, word_of_nat (cursor_pos d)),
      (0x3D4, 0x0E), (0x3D5, word_of_nat (cursor_pos d div 256))]"
    using pos by (simp add: d_def setCursorPos_def Let_def)
  ultimately show ?thesis using e(4) by metis
qed

text \<open>
  C28. \<open>arch_print\<close> on a console in good order always returns, whatever the characters: it never writes
  outside the screen, the loop \<open>scrollRep\<close> ends, and the screen is the abstract one after the
  characters up to the length or the first terminator. Geometry and colours stay, the cells behind the
  screen are untouched, and the ports are told the position of the cursor.
\<close>

theorem arch_print_refines_screen:
  assumes "console_ok c" and "len \<le> length str \<or> 0 \<in> set str"
  shows "\<exists>d pre. arch_print c str len = Some (Inr d) \<and> same_display c d \<and> console_ok d \<and>
    screen_of d = screen_print c (takeWhile (\<lambda>ch. ch \<noteq> 0) (take len str)) (screen_of c) \<and>
    ports_out d = pre @ [(0x3D4, 0x0F), (0x3D5, word_of_nat (cursor_pos d)),
      (0x3D4, 0x0E), (0x3D5, word_of_nat (cursor_pos d div 256))]"
  using assms by (rule arch_print_ok)

definition demo_console :: console where
  "demo_console = \<lparr>display_buffer = replicate 8 0x0F20, width = 3, height = 2, fore_color = 15, back_color = 0,
     cursor_pos = 4, ports_out = []\<rparr>"

lemma demo_console_ok: "console_ok demo_console"
  by (simp add: console_ok_def console_area_def demo_console_def)

lemma settle_numeral:
  "settle w blank (cells, pos) (numeral n) =
     (if length cells \<le> pos then settle w blank (drop w cells @ replicate w blank, pos - w) (pred_numeral n)
      else (cells, pos))"
  by (simp add: numeral_eq_Suc)

lemma replicate_3: "replicate 3 x = [x, x, x]"
  by (simp add: numeral_3_eq_3)

theorem arch_print_witness:
  "\<exists>d. arch_print demo_console [65, 66, 67, 0] 4 = Some (Inr d) \<and> console_ok d \<and>
     screen_of d = ([0x0F20, 0x0F41, 0x0F42, 0x0F43, 0x0F00, 0x0F00], 4)"
proof -
  have ent: "CharEntry demo_console = entry 15 0" by (simp add: CharEntry_entry demo_console_def)
  have screen: "screen_of demo_console = ([0x0F20, 0x0F20, 0x0F20, 0x0F20, 0x0F20, 0x0F20], 4)"
    by (simp add: screen_of_def demo_console_def eval_nat_numeral)
  have put: "screen_print demo_console [65, 66, 67] (screen_of demo_console) =
      ([0x0F20, 0x0F41, 0x0F42, 0x0F43, 0x0F00, 0x0F00], 4)"
    unfolding screen_print_def ent screen
    by (simp add: screen_put_def screen_char_def demo_console_def entry_def settle_numeral replicate_3)
  have "takeWhile (\<lambda>ch. ch \<noteq> 0) (take 4 [65, 66, 67, 0 :: u8]) = [65, 66, 67]" by simp
  with arch_print_refines_screen [OF demo_console_ok, of 4 "[65, 66, 67, 0]"] put show ?thesis by auto
qed

end
