(* ===== verification/Printk.thy ===== *)
theory Printk
  imports Console String_Buf Arrays
begin

text \<open>
  The kernel log of kernel/printk.c: the format string is expanded into a growing string, which is
  printed on the console between a prefix and a newline, and an entry is pushed onto the array of
  logs. \<open>alloc\<close> and \<open>calloc\<close> stand for \<open>kmalloc\<close> of bytes and of cells; \<open>slot\<close> is the address of
  the local variable \<open>log\<close> in the frame of the call.
\<close>

section \<open>The code\<close>

datatype Log_Level = FATAL | CRITICAL | ERROR | WARNING | INFO | DEBUG

fun level_number :: "Log_Level \<Rightarrow> nat" where
  "level_number FATAL = 0"
| "level_number CRITICAL = 1"
| "level_number ERROR = 2"
| "level_number WARNING = 3"
| "level_number INFO = 4"
| "level_number DEBUG = 5"

lemma level_number_inj: "level_number a = level_number b \<longleftrightarrow> a = b"
  by (cases a; cases b) simp_all

text \<open>The levels in the order of the enumeration.\<close>

instantiation Log_Level :: linorder
begin

definition less_eq_Log_Level :: "Log_Level \<Rightarrow> Log_Level \<Rightarrow> bool" where
  "a \<le> b \<longleftrightarrow> level_number a \<le> level_number b"

definition less_Log_Level :: "Log_Level \<Rightarrow> Log_Level \<Rightarrow> bool" where
  "a < b \<longleftrightarrow> level_number a < level_number b"

instance
  by standard (auto simp: less_eq_Log_Level_def less_Log_Level_def level_number_inj [symmetric])

end

text \<open>The last level that is printed is an option of the build; this is the default of the header.\<close>

definition LOGLEVEL :: Log_Level where "LOGLEVEL = INFO"

record LogEnt =
  level :: Log_Level
  seconds :: nat
  microseconds :: nat
  message :: cbuf

text \<open>The variable arguments: a number in its register or slot, or a pointer to a string.\<close>

datatype va = Num u64 | Str cbuf

text \<open>
  \<open>va_arg\<close> of 32 bits and of a pointer; an argument that is not there or of the other kind is
  undefined in C and ends the run here.
\<close>

fun va_uint :: "va list \<Rightarrow> (u32 \<times> va list) res" where
  "va_uint (Num w # vl) = Inr (ucast w, vl)"
| "va_uint _ = Inl Fault"

fun va_str :: "va list \<Rightarrow> (cbuf \<times> va list) res" where
  "va_str (Str s # vl) = Inr (s, vl)"
| "va_str _ = Inl Fault"

definition append_cstr :: "allocator \<Rightarrow> string_t \<Rightarrow> cbuf \<Rightarrow> string_t res" where
  "append_cstr alloc s t = and_then (strlen t) (\<lambda>n. string_append alloc s (take n t))"

text \<open>The inner switch, on the character after the percent sign.\<close>

definition conversion :: "allocator \<Rightarrow> u8 \<Rightarrow> va list \<Rightarrow> string_t \<Rightarrow> (string_t \<times> va list) res" where
  "conversion alloc c vl s =
     (if c = 100 \<or> c = 105 then
        and_then (va_uint vl) (\<lambda>(w, vl). and_then (c_str alloc (unat (scast w :: u64))) (\<lambda>t.
        and_then (append_cstr alloc s t) (\<lambda>s. Inr (s, vl))))
      else if c = 117 then
        and_then (va_uint vl) (\<lambda>(w, vl). and_then (c_str alloc (unat w)) (\<lambda>t.
        and_then (append_cstr alloc s t) (\<lambda>s. Inr (s, vl))))
      else if c = 111 then and_then (va_uint vl) (\<lambda>(w, vl). Inr (s, vl))
      else if c = 120 then
        and_then (va_uint vl) (\<lambda>(w, vl). and_then (hex_str alloc (unat w)) (\<lambda>t. and_then (toLower t) (\<lambda>t.
        and_then (append_cstr alloc s t) (\<lambda>s. Inr (s, vl)))))
      else if c = 88 then
        and_then (va_uint vl) (\<lambda>(w, vl). and_then (hex_str alloc (unat w)) (\<lambda>t.
        and_then (append_cstr alloc s t) (\<lambda>s. Inr (s, vl))))
      else if c = 115 then
        and_then (va_str vl) (\<lambda>(t, vl). and_then (append_cstr alloc s t) (\<lambda>s. Inr (s, vl)))
      else and_then (string_append alloc s [c]) (\<lambda>s. Inr (s, vl)))"

text \<open>
  The loop: \<open>lcpy\<close> bytes from \<open>lstart\<close> on are still to be copied when the next conversion or the end
  is reached. A percent sign at the very end is skipped.
\<close>

function format_loop :: "allocator \<Rightarrow> cbuf \<Rightarrow> nat \<Rightarrow> nat \<Rightarrow> nat \<Rightarrow> nat \<Rightarrow> va list \<Rightarrow> string_t \<Rightarrow> string_t res" where
  "format_loop alloc str orgLen i lstart lcpy vl s =
     (if i < orgLen then
        if str ! i = 37 then
          if i = orgLen - 1 then format_loop alloc str orgLen (i + 1) lstart lcpy vl s
          else and_then (string_append alloc s (take lcpy (drop lstart str))) (\<lambda>s.
            and_then (conversion alloc (str ! (i + 1)) vl s) (\<lambda>(s, vl).
              format_loop alloc str orgLen (i + 2) (i + 2) 0 vl s))
        else format_loop alloc str orgLen (i + 1) lstart (lcpy + 1) vl s
      else if lcpy > 0 then string_append alloc s (take lcpy (drop lstart str)) else Inr s)"
  by pat_completeness auto
termination by (relation "measure (\<lambda>(_, _, n, i, _). n - i)") auto

declare format_loop.simps [simp del]

record kernel_log =
  printk_enabled :: bool
  logs :: Array_t
  console_of :: console
  entries :: "LogEnt list"

text \<open>The characters of \<open>"[ 0.000000 ] "\<close>.\<close>

definition time_stamp :: "u8 list" where
  "time_stamp = [91, 32, 48, 46, 48, 48, 48, 48, 48, 48, 32, 93, 32]"

definition print_then :: "console res option \<Rightarrow> (console \<Rightarrow> console res option) \<Rightarrow> console res option" where
  "print_then r f =
     (case r of None \<Rightarrow> None | Some (Inl e) \<Rightarrow> Some (Inl e) | Some (Inr c) \<Rightarrow> f c)"

definition print_message :: "console \<Rightarrow> string_t \<Rightarrow> console res option" where
  "print_message c lstr =
     print_then (arch_print c (time_stamp @ [0]) 13) (\<lambda>c.
     print_then (arch_print c (s_str lstr) (s_length lstr)) (\<lambda>c.
     arch_print c [10, 0] 1))"

text \<open>
  \<open>printk\<close>; \<open>None\<close> where it does not return. The entry is filled in, but what is pushed is the
  address of the local pointer to it.
\<close>

definition printk ::
  "Log_Level \<Rightarrow> allocator \<Rightarrow> cell_alloc \<Rightarrow> u64 \<Rightarrow> Log_Level \<Rightarrow> cbuf \<Rightarrow> va list \<Rightarrow> kernel_log \<Rightarrow> kernel_log res option" where
  "printk loglevel alloc calloc slot lv str vl k =
     (if \<not> printk_enabled k then Some (Inr k)
      else
        case and_then (strlen str) (\<lambda>orgLen. and_then (newString alloc) (\<lambda>lstr.
          if alloc 32 = None then Inl NullDeref else format_loop alloc str orgLen 0 0 0 vl lstr)) of
          Inl e \<Rightarrow> Some (Inl e)
        | Inr lstr \<Rightarrow>
            (case if lv \<le> loglevel then print_message (console_of k) lstr else Some (Inr (console_of k)) of
               None \<Rightarrow> None
             | Some (Inl e) \<Rightarrow> Some (Inl e)
             | Some (Inr c) \<Rightarrow>
                 Some (and_then (array_push calloc (logs k) slot) (\<lambda>a.
                   Inr (k\<lparr>console_of := c, logs := a,
                     entries := entries k @ [\<lparr>level = lv, seconds = 0, microseconds = 0, message = s_str lstr\<rparr>]\<rparr>)))))"

definition printk_init :: "cell_alloc \<Rightarrow> framebuffer_type \<Rightarrow> u16 list \<Rightarrow> nat \<Rightarrow> nat \<Rightarrow> kernel_log \<Rightarrow> (kernel_log \<times> int) res" where
  "printk_init calloc ty cells w h k =
     and_then (arch_printk_init ty cells w h (console_of k)) (\<lambda>(c, r).
       if r < 0 then Inl Panic
       else and_then (newArray calloc) (\<lambda>a.
         Inr (k\<lparr>console_of := c, logs := a, printk_enabled := True\<rparr>, 0)))"

section \<open>What a format string means\<close>

definition arg_number :: "va list \<Rightarrow> u32" where
  "arg_number vl = (case vl of Num w # _ \<Rightarrow> ucast w | _ \<Rightarrow> 0)"

definition arg_string :: "va list \<Rightarrow> u8 list" where
  "arg_string vl = (case vl of Str s # _ \<Rightarrow> cstr s | _ \<Rightarrow> [])"

definition conv_out :: "u8 \<Rightarrow> va list \<Rightarrow> u8 list" where
  "conv_out c vl =
     (if c = 100 \<or> c = 105 then dec_string (unat (scast (arg_number vl) :: u64))
      else if c = 117 then dec_string (unat (arg_number vl))
      else if c = 111 then []
      else if c = 120 then map lower (hex_string (unat (arg_number vl)))
      else if c = 88 then hex_string (unat (arg_number vl))
      else if c = 115 then arg_string vl
      else [c])"

definition takes_arg :: "u8 \<Rightarrow> bool" where
  "takes_arg c \<longleftrightarrow> c \<in> {100, 105, 117, 111, 120, 88, 115}"

definition conv_rest :: "u8 \<Rightarrow> va list \<Rightarrow> va list" where
  "conv_rest c vl = (if takes_arg c then tl vl else vl)"

fun format :: "u8 list \<Rightarrow> va list \<Rightarrow> u8 list" where
  "format [] vl = []"
| "format [ch] vl = (if ch = 37 then [] else [ch])"
| "format (ch # c # cs) vl =
     (if ch = 37 then conv_out c vl @ format cs (conv_rest c vl) else ch # format (c # cs) vl)"

text \<open>
  What the code can carry out: the argument is there and of the right kind, the decimal conversions
  do not get 0, and neither a string argument nor a literal piece is longer than 64 bytes.
\<close>

definition conv_fits :: "u8 \<Rightarrow> va list \<Rightarrow> bool" where
  "conv_fits c vl =
     (case vl of
        Num w # _ \<Rightarrow> c \<noteq> 115 \<and> (c = 100 \<or> c = 105 \<or> c = 117 \<longrightarrow> (ucast w :: u32) \<noteq> 0)
      | Str s # _ \<Rightarrow> c = 115 \<and> terminated s \<and> length (cstr s) \<le> 64 \<or> \<not> takes_arg c
      | [] \<Rightarrow> \<not> takes_arg c)"

fun fits :: "nat \<Rightarrow> u8 list \<Rightarrow> va list \<Rightarrow> bool" where
  "fits run [] vl = (run \<le> 64)"
| "fits run [ch] vl = (if ch = 37 then run \<le> 64 else run < 64)"
| "fits run (ch # c # cs) vl =
     (if ch = 37 then run \<le> 64 \<and> conv_fits c vl \<and> fits 0 cs (conv_rest c vl) else fits (run + 1) (c # cs) vl)"

section \<open>Conversions\<close>

lemma dec_string_length: "n < 2 ^ 64 \<Longrightarrow> length (dec_string n) \<le> 64"
proof -
  assume "n < 2 ^ 64"
  moreover have "(2 :: nat) ^ 64 \<le> 10 ^ 64" by (rule power_mono) simp_all
  ultimately show ?thesis using length_digits [of 10 n 64] by (simp add: dec_string_def)
qed

lemma hex_string_length: "n < 2 ^ 64 \<Longrightarrow> length (hex_string n) \<le> 64"
proof -
  assume "n < 2 ^ 64"
  moreover have "(2 :: nat) ^ 64 \<le> 16 ^ 64" by (rule power_mono) simp_all
  ultimately show ?thesis using length_digits [of 16 n 64] by (simp add: hex_string_def)
qed

lemma word_less_64: "unat (w :: u64) < 2 ^ 64" and word32_less_64: "unat (v :: u32) < 2 ^ 64"
  using unsigned_less [of w, where 'a = nat] unsigned_less [of v, where 'a = nat] by simp_all

lemma arg_cases [simp]: "arg_number (Num w # vl) = ucast w" "arg_string (Str s # vl) = cstr s"
  by (simp_all add: arg_number_def arg_string_def)

lemma append_cstr_ok:
  assumes "proper_alloc alloc" and "\<And>n. alloc n \<noteq> None"
    and "string_ok s xs" and "terminated t" and "length (cstr t) \<le> 64"
  shows "\<exists>s'. append_cstr alloc s t = Inr s' \<and> string_ok s' (xs @ cstr t)"
proof -
  have "take (length (cstr t)) t = cstr t" by (simp add: cstr_def takeWhile_eq_take [symmetric])
  with string_append_ok [OF assms(1,2,3,5)] assms(4) show ?thesis
    by (auto simp: append_cstr_def strlen_eq)
qed

lemma lower_nonzero: "c \<noteq> 0 \<Longrightarrow> lower c \<noteq> 0"
proof
  assume c: "c \<noteq> 0" and l: "lower c = 0"
  then have big: "65 \<le> sint c" "sint c \<le> 90" and "c + 32 = 0" by (auto simp: lower_def split: if_splits)
  then have "c = - 32" by (simp add: eq_neg_iff_add_eq_0)
  then have "sint c = - 32" by simp
  with big show False by simp
qed

lemma lower_string:
  assumes "terminated t"
  shows "\<exists>t'. toLower t = Inr t' \<and> cstr t' = map lower (cstr t) \<and> terminated t'"
proof -
  obtain r where r: "t = cstr t @ 0 # r" using cstr_split [OF assms] .
  then have "drop (length (cstr t)) t = 0 # r" by (metis append_eq_conv_conj)
  moreover have "0 \<notin> set (map lower (cstr t))" using cstr_no_zero [of t] lower_nonzero by (metis imageE list.set_map)
  ultimately show ?thesis
    using toLower_eq [OF assms] cstr_append [of "map lower (cstr t)" r] by (simp add: terminated_def)
qed

lemma sign_extend_zero: "scast (v :: u32) = (0 :: u64) \<Longrightarrow> v = 0"
proof (rule bit_word_eqI)
  fix n
  assume v: "scast v = (0 :: u64)" and n: "n < LENGTH(32)"
  have "bit v n = bit (scast v :: u64) n" using n by (cases "n = 31") (auto simp: bit_signed_iff min_def)
  with v show "bit v n = bit 0 n" by simp
qed

text \<open>The seven conversions, and a character that stands for itself.\<close>

lemma conversion_number:
  assumes "proper_alloc alloc" and "\<And>n. alloc n \<noteq> None" and "string_ok s xs"
    and "conv_fits c (Num w # vl)"
  shows "\<exists>s'. conversion alloc c (Num w # vl) s = Inr (s', conv_rest c (Num w # vl)) \<and>
    string_ok s' (xs @ conv_out c (Num w # vl))"
proof -
  let ?v = "ucast w :: u32"
  note app = append_cstr_ok [OF assms(1,2,3)]
  consider "c = 100 \<or> c = 105" | "c = 117" | "c = 111" | "c = 120" | "c = 88" | "\<not> takes_arg c"
    using assms(4) by (auto simp: conv_fits_def takes_arg_def)
  then show ?thesis
  proof cases
    case 1
    let ?n = "unat (scast ?v :: u64)"
    have "?v \<noteq> 0" using 1 assms(4) by (auto simp: conv_fits_def)
    then have "scast ?v \<noteq> (0 :: u64)" using sign_extend_zero by blast
    then have "0 < ?n" by (simp add: unat_gt_0)
    from c_str_ok [OF assms(1,2) this] obtain t where
      t: "c_str alloc ?n = Inr t" "cstr t = dec_string ?n" "terminated t" by blast
    from app [OF t(3)] dec_string_length [OF word_less_64] t 1 show ?thesis
      by (auto simp: conversion_def conv_out_def conv_rest_def takes_arg_def)
  next
    case 2
    have "?v \<noteq> 0" using 2 assms(4) by (auto simp: conv_fits_def)
    then have "0 < unat ?v" by (simp add: unat_gt_0)
    from c_str_ok [OF assms(1,2) this] obtain t where
      t: "c_str alloc (unat ?v) = Inr t" "cstr t = dec_string (unat ?v)" "terminated t" by blast
    from app [OF t(3)] dec_string_length [OF word32_less_64] t 2 show ?thesis
      by (auto simp: conversion_def conv_out_def conv_rest_def takes_arg_def)
  next
    case 3
    with assms(3) show ?thesis by (simp add: conversion_def conv_out_def conv_rest_def takes_arg_def)
  next
    case 4
    from hex_str_ok [OF assms(1,2)] obtain t where
      t: "hex_str alloc (unat ?v) = Inr t" "cstr t = hex_string (unat ?v)" "terminated t" by blast
    from lower_string [OF t(3)] obtain t' where
      t': "toLower t = Inr t'" "cstr t' = map lower (cstr t)" "terminated t'" by blast
    from app [OF t'(3)] hex_string_length [OF word32_less_64] t t' 4 show ?thesis
      by (auto simp: conversion_def conv_out_def conv_rest_def takes_arg_def)
  next
    case 5
    from hex_str_ok [OF assms(1,2)] obtain t where
      t: "hex_str alloc (unat ?v) = Inr t" "cstr t = hex_string (unat ?v)" "terminated t" by blast
    from app [OF t(3)] hex_string_length [OF word32_less_64] t 5 show ?thesis
      by (auto simp: conversion_def conv_out_def conv_rest_def takes_arg_def)
  next
    case 6
    then show ?thesis
      using string_append_ok [OF assms(1-3), of "[c]"]
      by (auto simp: conversion_def conv_out_def conv_rest_def takes_arg_def)
  qed
qed

lemma conversion_ok:
  assumes "proper_alloc alloc" and "\<And>n. alloc n \<noteq> None" and "string_ok s xs" and "conv_fits c vl"
  shows "\<exists>s'. conversion alloc c vl s = Inr (s', conv_rest c vl) \<and> string_ok s' (xs @ conv_out c vl)"
proof -
  consider w r where "vl = Num w # r" | t r where "vl = Str t # r" "c = 115" | "\<not> takes_arg c"
    using assms(4) by (auto simp: conv_fits_def split: list.splits va.splits)
  then show ?thesis
  proof cases
    case 1
    with conversion_number assms show ?thesis by blast
  next
    case 2
    with append_cstr_ok [OF assms(1-3), of t] assms(4) show ?thesis
      by (auto simp: conv_fits_def conversion_def conv_out_def conv_rest_def takes_arg_def)
  next
    case 3
    then show ?thesis
      using string_append_ok [OF assms(1-3), of "[c]"]
      by (auto simp: conversion_def conv_out_def conv_rest_def takes_arg_def)
  qed
qed

section \<open>The whole message\<close>

lemma piece_of_string: "lstart + lcpy \<le> length f \<Longrightarrow> take lcpy (drop lstart (f @ r)) = take lcpy (drop lstart f)"
  by simp

lemma flush_ok:
  assumes "proper_alloc alloc" and "\<And>n. alloc n \<noteq> None" and "string_ok s xs"
    and "lstart + lcpy \<le> length f" and "lcpy \<le> 64"
  shows "\<exists>s'. string_append alloc s (take lcpy (drop lstart (f @ r))) = Inr s' \<and>
    string_ok s' (xs @ take lcpy (drop lstart f))"
  using string_append_ok [OF assms(1-3), of "take lcpy (drop lstart f)"] assms(4,5) by auto

lemma format_loop_end:
  assumes "proper_alloc alloc" and "\<And>n. alloc n \<noteq> None" and "string_ok s xs"
    and "lstart + lcpy \<le> length f" and "lcpy \<le> 64" and "length f \<le> i"
  shows "\<exists>s'. format_loop alloc (f @ r) (length f) i lstart lcpy vl s = Inr s' \<and>
    string_ok s' (xs @ take lcpy (drop lstart f))"
  using flush_ok [OF assms(1-5), of r] assms(3,6) by (subst format_loop.simps) auto

lemma fits_run: "fits run f vl \<Longrightarrow> run \<le> 64"
  by (induction run f vl rule: fits.induct) (auto split: if_splits)

lemma format_loop_ok:
  assumes "proper_alloc alloc" and "\<And>n. alloc n \<noteq> None"
  shows "string_ok s xs \<Longrightarrow> lstart + lcpy = i \<Longrightarrow> i \<le> length f \<Longrightarrow> fits lcpy (drop i f) vl \<Longrightarrow>
    \<exists>s'. format_loop alloc (f @ r) (length f) i lstart lcpy vl s = Inr s' \<and>
      string_ok s' (xs @ take lcpy (drop lstart f) @ format (drop i f) vl)"
proof (induction "length f - i" arbitrary: i lstart lcpy vl s xs rule: less_induct)
  case less
  note run = fits_run [OF less.prems(4)]
  note stop = format_loop_end [OF assms less.prems(1) _ run]
  show ?case
  proof (cases "i < length f")
    case False
    with stop [of lstart f i] less.prems show ?thesis by simp
  next
    case True
    have rest: "drop i f = f ! i # drop (Suc i) f" using True by (rule Cons_nth_drop_Suc [symmetric])
    have char: "(f @ r) ! i = f ! i" using True by (simp add: nth_append)
    consider "f ! i = 37" "i = length f - 1" | "f ! i = 37" "Suc i < length f" | "f ! i \<noteq> 37" using True by linarith
    then show ?thesis
    proof cases
      case 1
      then have "drop i f = [37]" using rest True by simp
      moreover have "format_loop alloc (f @ r) (length f) i lstart lcpy vl s =
          format_loop alloc (f @ r) (length f) (Suc i) lstart lcpy vl s"
        using 1 True char by (subst format_loop.simps) simp
      ultimately show ?thesis using stop [of lstart f "Suc i"] 1 True less.prems(2,3) by simp
    next
      case 2
      have rest2: "drop i f = 37 # f ! Suc i # drop (Suc (Suc i)) f"
        using 2 rest by (simp add: Cons_nth_drop_Suc)
      have char2: "(f @ r) ! Suc i = f ! Suc i" using 2 by (simp add: nth_append)
      have last: "i \<noteq> length f - 1" using 2 by simp
      have fit: "conv_fits (f ! Suc i) vl" "fits 0 (drop (Suc (Suc i)) f) (conv_rest (f ! Suc i) vl)"
        using less.prems(4) rest2 by simp_all
      from flush_ok [OF assms less.prems(1) _ run, of lstart f r] less.prems(2,3) obtain t where
        t: "string_append alloc s (take lcpy (drop lstart (f @ r))) = Inr t"
        "string_ok t (xs @ take lcpy (drop lstart f))" by auto
      from conversion_ok [OF assms t(2) fit(1)] obtain u where
        u: "conversion alloc (f ! Suc i) vl t = Inr (u, conv_rest (f ! Suc i) vl)"
        "string_ok u ((xs @ take lcpy (drop lstart f)) @ conv_out (f ! Suc i) vl)" by blast
      have "format_loop alloc (f @ r) (length f) i lstart lcpy vl s =
          format_loop alloc (f @ r) (length f) (i + 2) (i + 2) 0 (conv_rest (f ! Suc i) vl) u"
        using 2 True char char2 t(1) u(1) last by (subst format_loop.simps) simp
      moreover have "\<exists>s'. format_loop alloc (f @ r) (length f) (i + 2) (i + 2) 0 (conv_rest (f ! Suc i) vl) u = Inr s' \<and>
          string_ok s' (((xs @ take lcpy (drop lstart f)) @ conv_out (f ! Suc i) vl) @
            take 0 (drop (i + 2) f) @ format (drop (i + 2) f) (conv_rest (f ! Suc i) vl))"
        by (rule less.hyps [OF _ u(2)]) (use 2 fit(2) in auto)
      ultimately show ?thesis using rest2 by simp
    next
      case 3
      have fit: "fits (lcpy + 1) (drop (Suc i) f) vl"
        using less.prems(4) rest 3 by (cases "drop (Suc i) f") auto
      have "format_loop alloc (f @ r) (length f) i lstart lcpy vl s =
          format_loop alloc (f @ r) (length f) (Suc i) lstart (lcpy + 1) vl s"
        using 3 True char by (subst format_loop.simps) simp
      moreover have "\<exists>s'. format_loop alloc (f @ r) (length f) (Suc i) lstart (lcpy + 1) vl s = Inr s' \<and>
          string_ok s' (xs @ take (lcpy + 1) (drop lstart f) @ format (drop (Suc i) f) vl)"
        by (rule less.hyps [OF _ less.prems(1)]) (use True less.prems(2) fit in auto)
      moreover have "format (drop i f) vl = f ! i # format (drop (Suc i) f) vl"
        using rest 3 by (cases "drop (Suc i) f") simp_all
      moreover have "take (lcpy + 1) (drop lstart f) = take lcpy (drop lstart f) @ [f ! i]"
        using True less.prems(2) by (simp add: take_Suc_conv_app_nth add.commute)
      ultimately show ?thesis by simp
    qed
  qed
qed

lemma dec_string_nonzero: "0 \<notin> set (dec_string n)"
  using digit_char_nonzero digits_bound [of _ 10 n] by (force simp: dec_string_def)

lemma hex_string_nonzero: "0 \<notin> set (hex_string n)"
  using hex_char_value(1) [OF digits_bound [of _ 16 n]] by (cases "n = 0") (force simp: hex_string_def)+

lemma conv_out_nonzero: "c \<noteq> 0 \<Longrightarrow> 0 \<notin> set (conv_out c vl)"
proof -
  have low: "0 \<notin> set (map lower (hex_string n))" for n
    using hex_string_nonzero [of n] lower_nonzero by (metis imageE list.set_map)
  have str: "0 \<notin> set (arg_string vl)"
    using cstr_no_zero by (simp add: arg_string_def split: list.splits va.splits)
  show "c \<noteq> 0 \<Longrightarrow> 0 \<notin> set (conv_out c vl)"
    using dec_string_nonzero hex_string_nonzero low str by (simp add: conv_out_def del: set_map)
qed

lemma format_nonzero: "0 \<notin> set f \<Longrightarrow> 0 \<notin> set (format f vl)"
proof (induction f vl rule: format.induct)
  case (3 ch c cs vl)
  show ?case
  proof (cases "ch = 37")
    case True
    have "0 \<notin> set (conv_out c vl)" using "3.prems"(1) by (intro conv_out_nonzero) simp
    with 3 True show ?thesis by simp
  next
    case False
    with 3 show ?thesis by simp
  qed
qed (auto split: if_splits)

text \<open>A console after the printing of some characters.\<close>

definition shows_text :: "console \<Rightarrow> u8 list \<Rightarrow> console \<Rightarrow> bool" where
  "shows_text c out d \<longleftrightarrow> same_display c d \<and> console_ok d \<and> screen_of d = screen_print c out (screen_of c)"

lemma screen_print_same: "same_display c d \<Longrightarrow> screen_print d = screen_print c"
  by (intro ext) (simp add: screen_print_def same_display_area_D)

lemma screen_print_append: "screen_print c (xs @ ys) v = screen_print c ys (screen_print c xs v)"
  by (simp add: screen_print_def)

lemma shows_text_trans:
  assumes "shows_text a xs b" and "shows_text b ys c"
  shows "shows_text a (xs @ ys) c"
proof -
  have ab: "same_display a b" "screen_of b = screen_print a xs (screen_of a)"
    using assms(1) by (simp_all add: shows_text_def)
  have bc: "same_display b c" "console_ok c" "screen_of c = screen_print b ys (screen_of b)"
    using assms(2) by (simp_all add: shows_text_def)
  show ?thesis
    using same_display_trans [OF ab(1) bc(1)] bc(2,3) ab(2) screen_print_same [OF ab(1)]
    by (simp add: shows_text_def screen_print_append)
qed

lemma arch_print_shows:
  assumes "console_ok c" and "take n str = out" and "0 \<notin> set out" and "n \<le> length str"
  shows "\<exists>d. arch_print c str n = Some (Inr d) \<and> shows_text c out d"
proof -
  have "takeWhile (\<lambda>ch. ch \<noteq> 0) out = out" using assms(3) by (auto simp: takeWhile_eq_all_conv)
  with arch_print_ok [OF assms(1), of n str] assms(2,4) show ?thesis by (auto simp: shows_text_def)
qed

lemma print_message_ok:
  assumes "console_ok c" and "string_ok s out" and "0 \<notin> set out"
  shows "\<exists>d. print_message c s = Some (Inr d) \<and> shows_text c (time_stamp @ out @ [10]) d"
proof -
  obtain a where a: "arch_print c (time_stamp @ [0]) 13 = Some (Inr a)" "shows_text c time_stamp a"
    using arch_print_shows [OF assms(1), of 13 "time_stamp @ [0]" time_stamp] by (auto simp: time_stamp_def)
  have len: "take (s_length s) (s_str s) = out" "s_length s \<le> length (s_str s)"
    using assms(2) by (simp_all add: string_ok_def)
  have "console_ok a" using a(2) by (simp add: shows_text_def)
  from arch_print_shows [OF this len(1) assms(3) len(2)] obtain b where
    b: "arch_print a (s_str s) (s_length s) = Some (Inr b)" "shows_text a out b" by blast
  have "console_ok b" using b(2) by (simp add: shows_text_def)
  then obtain d where d: "arch_print b [10, 0] 1 = Some (Inr d)" "shows_text b [10] d"
    using arch_print_shows [of b 1 "[10, 0]" "[10]"] by auto
  show ?thesis
    using a(1) b(1) d(1) shows_text_trans [OF a(2) shows_text_trans [OF b(2) d(2)]]
    by (simp add: print_message_def print_then_def)
qed

text \<open>
  A message that \<open>printk\<close> can expand: as above, or without a conversion and at most 127 bytes long, which is
  what the fresh string has room for after it has grown once.
\<close>

definition printable :: "u8 list \<Rightarrow> va list \<Rightarrow> bool" where
  "printable f vl \<longleftrightarrow> fits 0 f vl \<or> 37 \<notin> set f \<and> length f \<le> 127"

lemma format_plain: "37 \<notin> set f \<Longrightarrow> format f vl = f"
  by (induction f vl rule: format.induct) auto

lemma format_loop_plain:
  assumes "37 \<notin> set f"
  shows "i \<le> length f \<Longrightarrow> format_loop alloc (f @ r) (length f) i 0 i vl s =
    (if f = [] then Inr s else string_append alloc s f)"
proof (induction "length f - i" arbitrary: i)
  case 0
  then show ?case by (subst format_loop.simps, cases f) auto
next
  case (Suc d)
  then have i: "i < length f" by simp
  then have "(f @ r) ! i \<noteq> 37" using assms by (metis nth_append nth_mem)
  moreover have "d = length f - Suc i" using Suc(2) by simp
  ultimately show ?case using i Suc(1) [of "Suc i"] by (subst format_loop.simps) simp
qed

lemma string_append_fresh:
  assumes "proper_alloc alloc" and "\<And>n. alloc n \<noteq> None" and "string_ok s []" and "length (s_str s) = 64"
    and "length str \<le> 127"
  shows "\<exists>s'. string_append alloc s str = Inr s' \<and> string_ok s' str"
proof (cases "length str \<le> 64")
  case True
  then show ?thesis using string_append_ok [OF assms(1-3)] by fastforce
next
  case False
  have len: "s_alloc_length s = 64" "s_length s = 0" using assms(3,4) by (simp_all add: string_ok_def)
  obtain buf where "alloc (s_alloc_length s + 64) = Some buf" using assms(2) by blast
  from string_grow_ok [OF assms(1,3) this] obtain t where
    t: "string_grow alloc s = Inr t" "s_length t = 0" "s_alloc_length t = 128" "length (s_str t) = 128"
    using assms(4) by auto
  from append_in_place [of t "[]" str] t assms(5) obtain b where
    b: "copy_into (s_str t) 0 str = Inr b" "length b = 128" "take (length str) b = str" by auto
  have "take (length str) (b[length str := 0]) = str" using b(3) by (simp add: take_update_cancel)
  then show ?thesis
    using False len t b assms(5) by (auto simp: string_append_def string_ok_def Let_def)
qed

lemma expand_ok:
  assumes "proper_alloc alloc" and "\<And>n. alloc n \<noteq> None" and "terminated str" and "printable (cstr str) vl"
  shows "\<exists>s t. newString alloc = Inr s \<and> format_loop alloc str (length (cstr str)) 0 0 0 vl s = Inr t \<and>
    string_ok t (format (cstr str) vl)"
proof -
  let ?f = "cstr str"
  obtain r where r: "str = ?f @ 0 # r" using cstr_split [OF assms(3)] .
  obtain buf where buf: "alloc 64 = Some buf" using assms(2) by blast
  then have len: "length buf = 64" using assms(1) unfolding proper_alloc_def by blast
  obtain s where s: "newString alloc = Inr s" "string_ok s []" "s_str s = buf"
    using newString_ok [OF assms(1) buf] by blast
  have "\<exists>t. format_loop alloc (?f @ 0 # r) (length ?f) 0 0 0 vl s = Inr t \<and> string_ok t (format ?f vl)"
    using assms(4) unfolding printable_def
  proof
    assume "fits 0 ?f vl"
    then have "\<exists>t. format_loop alloc (?f @ 0 # r) (length ?f) 0 0 0 vl s = Inr t \<and>
        string_ok t ([] @ take 0 (drop 0 ?f) @ format (drop 0 ?f) vl)"
      by (intro format_loop_ok [OF assms(1,2) s(2)]) simp_all
    then show ?thesis by simp
  next
    assume plain: "37 \<notin> set ?f \<and> length ?f \<le> 127"
    with string_append_fresh [OF assms(1,2) s(2), of ?f] len s(2,3) show ?thesis
      by (auto simp: format_loop_plain format_plain)
  qed
  with s(1) r show ?thesis by metis
qed

lemma printk_ok:
  assumes "proper_alloc alloc" and "\<And>n. alloc n \<noteq> None" and "proper_cells calloc"
    and "printk_enabled k" and "console_ok (console_of k)" and "array_ok (logs k) xs" and "length xs + 1 < 2 ^ 60"
    and "terminated str" and "printable (cstr str) vl"
  shows "\<exists>k' lstr. printk loglevel alloc calloc slot lv str vl k = Some (Inr k') \<and>
    (if lv \<le> loglevel
     then shows_text (console_of k) (time_stamp @ format (cstr str) vl @ [10]) (console_of k')
     else console_of k' = console_of k) \<and>
    string_ok lstr (format (cstr str) vl) \<and>
    entries k' = entries k @ [\<lparr>level = lv, seconds = 0, microseconds = 0, message = s_str lstr\<rparr>] \<and>
    array_ok (logs k') (xs @ [slot]) \<and> printk_enabled k'"
proof -
  let ?f = "cstr str"
  obtain s t where s: "newString alloc = Inr s" and
    t: "format_loop alloc str (length ?f) 0 0 0 vl s = Inr t" "string_ok t (format ?f vl)"
    using expand_ok [OF assms(1,2,8,9)] by blast
  have head: "and_then (strlen str) (\<lambda>orgLen. and_then (newString alloc) (\<lambda>lstr.
      if alloc 32 = None then Inl NullDeref else format_loop alloc str orgLen 0 0 0 vl lstr)) = Inr t"
    using s t(1) assms(2,8) by (simp add: strlen_eq)
  have "\<exists>c. (if lv \<le> loglevel then print_message (console_of k) t else Some (Inr (console_of k))) = Some (Inr c) \<and>
      (if lv \<le> loglevel then shows_text (console_of k) (time_stamp @ format ?f vl @ [10]) c else c = console_of k)"
    using print_message_ok [OF assms(5) t(2) format_nonzero [OF cstr_no_zero]] by auto
  then obtain c where c:
    "(if lv \<le> loglevel then print_message (console_of k) t else Some (Inr (console_of k))) = Some (Inr c)"
    "if lv \<le> loglevel then shows_text (console_of k) (time_stamp @ format ?f vl @ [10]) c else c = console_of k"
    by blast
  from array_push_ok [OF assms(3,6,7)] obtain a where
    a: "array_push calloc (logs k) slot = Inr a" "array_ok a (xs @ [slot])" by blast
  show ?thesis
    unfolding printk_def head c(1) sum.case option.case
    using c(2) a t(2) assms(4) by auto
qed


lemma digits_numeral:
  "digits 10 (numeral n) = numeral n mod 10 # digits 10 (numeral n div 10)"
  by (rule digits_Cons) simp_all

definition demo_log :: kernel_log where
  "demo_log = \<lparr>printk_enabled = True, logs = \<lparr>a_length = 0, a_arr = replicate 8 0, a_alloc_length = 8\<rparr>,
     console_of = demo_console, entries = []\<rparr>"


end
