(* ===== verification/Pic.thy ===== *)
theory Pic
  imports Prelude
begin

text \<open>
  The interrupt controllers: the port instructions, the pair of 8259A chips behind the ports 0x20 and
  0xA0 as their data sheet describes them, and arch/X86_64/interrupts/pic.c, apic.c and serial.c.
  The chips are the environment; what the code does is the sequence of its port accesses.
\<close>

section \<open>The ports and the chips\<close>

text \<open>
  \<open>expects\<close> is the number of the initialisation word that the data port takes next, 0 outside
  the initialisation; \<open>icw1\<close> keeps what the first one said. \<open>read_isr\<close> selects the register that
  the command port reads.
\<close>

record chip =
  imr :: u8
  icw1 :: u8
  icw2 :: u8
  expects :: nat
  read_isr :: bool
  isr :: u8
  irr :: u8

definition clear_first :: "u8 \<Rightarrow> u8" where
  "clear_first w = (case find (bit w) [0..<8] of None \<Rightarrow> w | Some k \<Rightarrow> unset_bit k w)"

definition chip_command :: "u8 \<Rightarrow> chip \<Rightarrow> chip" where
  "chip_command v c =
     (if bit v 4 then c\<lparr>icw1 := v, imr := 0, read_isr := False, expects := 2\<rparr>
      else if bit v 3 then (if bit v 1 then c\<lparr>read_isr := bit v 0\<rparr> else c)
      else if v AND 0xE0 = 0x20 then c\<lparr>isr := clear_first (isr c)\<rparr> else c)"

definition chip_data :: "u8 \<Rightarrow> chip \<Rightarrow> chip" where
  "chip_data v c =
     (if expects c = 0 then c\<lparr>imr := v\<rparr>
      else if expects c = 2 then
        c\<lparr>icw2 := v, expects := if \<not> bit (icw1 c) 1 then 3 else if bit (icw1 c) 0 then 4 else 0\<rparr>
      else if expects c = 3 then c\<lparr>expects := if bit (icw1 c) 0 then 4 else 0\<rparr>
      else c\<lparr>expects := 0\<rparr>)"

text \<open>In 8086 mode a chip puts the line into the three low bits of the vector.\<close>

definition chip_vector :: "chip \<Rightarrow> nat \<Rightarrow> u8" where
  "chip_vector c n = (icw2 c AND 0xF8) OR word_of_nat n"

text \<open>
  The machine: the chips, the writes to other ports, what reads of other ports return, the
  model-specific registers and the writes to the registers of the local APIC.
\<close>

record machine =
  master :: chip
  slave :: chip
  port_writes :: "(u16 \<times> u8) list"
  port_reads :: "u16 \<Rightarrow> u8"
  msrs :: "u32 \<Rightarrow> u32 \<times> u32"
  apic_writes :: "(u64 \<times> u32) list"

definition PIC1_COMMAND :: u16 where "PIC1_COMMAND = 0x20"
definition PIC1_DATA :: u16 where "PIC1_DATA = 0x21"
definition PIC2_COMMAND :: u16 where "PIC2_COMMAND = 0xA0"
definition PIC2_DATA :: u16 where "PIC2_DATA = 0xA1"

lemmas pic_ports = PIC1_COMMAND_def PIC1_DATA_def PIC2_COMMAND_def PIC2_DATA_def

definition outb :: "u16 \<Rightarrow> u8 \<Rightarrow> machine \<Rightarrow> machine" where
  "outb p v m =
     (if p = 0x20 then m\<lparr>master := chip_command v (master m)\<rparr>
      else if p = 0x21 then m\<lparr>master := chip_data v (master m)\<rparr>
      else if p = 0xA0 then m\<lparr>slave := chip_command v (slave m)\<rparr>
      else if p = 0xA1 then m\<lparr>slave := chip_data v (slave m)\<rparr>
      else m\<lparr>port_writes := port_writes m @ [(p, v)]\<rparr>)"

definition status :: "chip \<Rightarrow> u8" where
  "status c = (if read_isr c then isr c else irr c)"

definition inb :: "u16 \<Rightarrow> machine \<Rightarrow> u8" where
  "inb p m =
     (if p = 0x20 then status (master m)
      else if p = 0x21 then imr (master m)
      else if p = 0xA0 then status (slave m)
      else if p = 0xA1 then imr (slave m)
      else port_reads m p)"

definition io_wait :: "machine \<Rightarrow> machine" where
  "io_wait m = outb 0x80 0 m"

text \<open>
  A request of line \<open>n\<close> gets through when it is not masked and nothing of its priority or above is in
  service; the slave hangs on line 2 of the master. Taking it marks it as in service.
\<close>

definition chip_ready :: "chip \<Rightarrow> nat \<Rightarrow> bool" where
  "chip_ready c n \<longleftrightarrow> expects c = 0 \<and> \<not> bit (imr c) n \<and> (\<forall>k \<le> n. \<not> bit (isr c) k)"

definition deliverable :: "machine \<Rightarrow> nat \<Rightarrow> bool" where
  "deliverable m n \<longleftrightarrow>
     (if n < 8 then chip_ready (master m) n else chip_ready (master m) 2 \<and> chip_ready (slave m) (n - 8))"

definition serve :: "nat \<Rightarrow> chip \<Rightarrow> chip" where
  "serve n c = c\<lparr>isr := set_bit n (isr c)\<rparr>"

definition take_irq :: "nat \<Rightarrow> machine \<Rightarrow> machine" where
  "take_irq n m =
     (if n < 8 then m\<lparr>master := serve n (master m)\<rparr>
      else m\<lparr>master := serve 2 (master m), slave := serve (n - 8) (slave m)\<rparr>)"

definition irq_vector :: "machine \<Rightarrow> nat \<Rightarrow> u8" where
  "irq_vector m n = (if n < 8 then chip_vector (master m) n else chip_vector (slave m) (n - 8))"

section \<open>The code\<close>

definition readMSR :: "u32 \<Rightarrow> machine \<Rightarrow> u32 \<times> u32" where
  "readMSR r m = msrs m r"

definition writeMSR :: "u32 \<Rightarrow> u32 \<Rightarrow> u32 \<Rightarrow> machine \<Rightarrow> machine" where
  "writeMSR r lo hi m = m\<lparr>msrs := (msrs m)(r := (lo, hi))\<rparr>"

definition IA32_APIC_BASE_MSR :: u32 where "IA32_APIC_BASE_MSR = 0x1B"
definition IA32_APIC_BASE_MSR_ENABLE :: u32 where "IA32_APIC_BASE_MSR_ENABLE = 0x800"

definition APIC_disable :: "machine \<Rightarrow> machine" where
  "APIC_disable m =
     (let (eax, edx) = readMSR IA32_APIC_BASE_MSR m
      in writeMSR IA32_APIC_BASE_MSR (unset_bit 11 eax) 0 m)"

text \<open>\<open>apic\<close>: the build has APIC support and the processor has an APIC.\<close>

definition PIC_Configure :: "bool \<Rightarrow> u8 \<Rightarrow> u8 \<Rightarrow> machine \<Rightarrow> machine \<times> int" where
  "PIC_Configure apic offset1 offset2 m =
     (let m = (if apic then APIC_disable m else m);
          a1 = inb PIC1_DATA m;
          a2 = inb PIC2_DATA m;
          m = io_wait (outb PIC1_COMMAND (0x10 OR 0x01) m);
          m = io_wait (outb PIC2_COMMAND (0x10 OR 0x01) m);
          m = io_wait (outb PIC1_DATA offset1 m);
          m = io_wait (outb PIC2_DATA offset2 m);
          m = io_wait (outb PIC1_DATA 4 m);
          m = io_wait (outb PIC2_DATA 2 m);
          m = io_wait (outb PIC1_DATA 1 m);
          m = io_wait (outb PIC2_DATA 1 m);
          m = outb PIC1_DATA a1 m;
          m = outb PIC2_DATA a2 m
      in (m, 0))"

definition pic_read :: "u8 \<Rightarrow> machine \<Rightarrow> machine \<times> u16" where
  "pic_read ocw3 m =
     (let m = outb PIC1_COMMAND ocw3 m; m = outb PIC2_COMMAND ocw3 m
      in (m, push_bit 8 (ucast (inb PIC2_COMMAND m)) OR ucast (inb PIC1_COMMAND m)))"

definition pic_isr :: "machine \<Rightarrow> machine \<times> u16" where
  "pic_isr m = pic_read 0x0B m"

definition PIC_EOI_CODE :: u8 where "PIC_EOI_CODE = 0x20"

text \<open>
  \<open>PIC_SOI\<close> with the counter \<open>irq_spurious\<close>; the last component says whether it leaves the handler by
  \<open>iretq\<close> instead of returning to it.
\<close>

definition PIC_SOI :: "u8 \<Rightarrow> nat \<Rightarrow> machine \<Rightarrow> machine \<times> nat \<times> bool" where
  "PIC_SOI irq spurious m =
     (if irq \<noteq> 7 \<and> irq \<noteq> 15 then (m, spurious, False)
      else
        let (m, w) = pic_isr m in
        if irq = 7 \<and> w AND 0xFF \<noteq> 7 then (m, add64 spurious 1, True)
        else if irq = 15 \<and> w AND 0xFF00 \<noteq> 15 then
          (outb PIC1_COMMAND PIC_EOI_CODE m, add64 spurious 1, True)
        else (m, spurious, False))"

definition PIC_EOI :: "u8 \<Rightarrow> machine \<Rightarrow> machine" where
  "PIC_EOI irq m =
     (let m = (if irq \<ge> 8 then outb PIC2_COMMAND PIC_EOI_CODE m else m)
      in outb PIC1_COMMAND PIC_EOI_CODE m)"

definition PIC_IRQ_save :: "machine \<Rightarrow> u8 \<times> u8" where
  "PIC_IRQ_save m = (inb PIC1_DATA m, inb PIC2_DATA m)"

definition PIC_IRQ_kill :: "machine \<Rightarrow> machine" where
  "PIC_IRQ_kill m = outb PIC2_DATA 0xFF (outb PIC1_DATA 0xFF m)"

definition PIC_IRQ_restore :: "u8 \<times> u8 \<Rightarrow> machine \<Rightarrow> machine" where
  "PIC_IRQ_restore irqs m = outb PIC2_DATA (snd irqs) (outb PIC1_DATA (fst irqs) m)"

definition PIC_disable :: "machine \<Rightarrow> machine" where
  "PIC_disable m = PIC_IRQ_kill m"

definition APIC_base :: u64 where "APIC_base = 0x1000"
definition IRQ_spurious :: u8 where "IRQ_spurious = 0xFF"

definition set_apic_base :: "u64 \<Rightarrow> machine \<Rightarrow> machine" where
  "set_apic_base apic m =
     writeMSR IA32_APIC_BASE_MSR (ucast (apic AND 0xfffff000) OR IA32_APIC_BASE_MSR_ENABLE) 0 m"

definition apic_write :: "u64 \<Rightarrow> u32 \<Rightarrow> machine \<Rightarrow> machine" where
  "apic_write reg v m = m\<lparr>apic_writes := apic_writes m @ [(APIC_base + reg, v)]\<rparr>"

definition APIC_EOI :: "u8 \<Rightarrow> machine \<Rightarrow> machine" where
  "APIC_EOI irq m = apic_write 0xB0 0 m"

definition COM1_PORT :: u16 where "COM1_PORT = 0x3F8"

definition serial_init :: "machine \<Rightarrow> machine" where
  "serial_init m =
     fold (\<lambda>(p, v). outb (COM1_PORT + p) v)
       [(1, 0x00), (3, 0x80), (0, 0x03), (1, 0x00), (3, 0x03), (2, 0xC7), (4, 0x0B)] m"

definition serial_received :: "machine \<Rightarrow> u8" where
  "serial_received m = inb (COM1_PORT + 5) m AND 1"

definition read_serial :: "machine \<Rightarrow> u8" where
  "read_serial m = inb COM1_PORT m"

section \<open>What the code does to the chips\<close>

lemma outb_simps [simp]:
  "outb PIC1_COMMAND v m = m\<lparr>master := chip_command v (master m)\<rparr>"
  "outb PIC1_DATA v m = m\<lparr>master := chip_data v (master m)\<rparr>"
  "outb PIC2_COMMAND v m = m\<lparr>slave := chip_command v (slave m)\<rparr>"
  "outb PIC2_DATA v m = m\<lparr>slave := chip_data v (slave m)\<rparr>"
  by (simp_all add: outb_def pic_ports)

lemma inb_simps [simp]:
  "inb PIC1_COMMAND m = status (master m)" "inb PIC1_DATA m = imr (master m)"
  "inb PIC2_COMMAND m = status (slave m)" "inb PIC2_DATA m = imr (slave m)"
  by (simp_all add: inb_def pic_ports)

lemma io_wait_chips [simp]: "master (io_wait m) = master m" "slave (io_wait m) = slave m"
  by (simp_all add: io_wait_def outb_def)

lemma APIC_disable_chips [simp]: "master (APIC_disable m) = master m" "slave (APIC_disable m) = slave m"
  by (simp_all add: APIC_disable_def writeMSR_def split: prod.splits)

text \<open>The four initialisation words, then the mask.\<close>

definition chip_set_up :: "u8 \<Rightarrow> u8 \<Rightarrow> chip \<Rightarrow> chip" where
  "chip_set_up offset icw3 c =
     chip_data (imr c) (chip_data 1 (chip_data icw3 (chip_data offset (chip_command (0x10 OR 0x01) c))))"

lemma chip_set_up_eq:
  "chip_set_up offset icw3 c = c\<lparr>icw1 := 0x11, icw2 := offset, expects := 0, read_isr := False\<rparr>"
proof -
  have "(0x10 :: u8) OR 0x01 = 0x11" "bit (0x11 :: u8) 4" "bit (0x11 :: u8) 0" "\<not> bit (0x11 :: u8) 1" by simp_all
  then show ?thesis by (simp add: chip_set_up_def chip_command_def chip_data_def)
qed

lemma PIC_Configure_chips:
  "master (fst (PIC_Configure apic o1 o2 m)) = chip_set_up o1 4 (master m)"
  "slave (fst (PIC_Configure apic o1 o2 m)) = chip_set_up o2 2 (slave m)"
  by (simp_all add: PIC_Configure_def Let_def chip_set_up_def)

lemma clear_first_set:
  assumes "n < 8" and "\<forall>k \<le> n. \<not> bit w k"
  shows "clear_first (set_bit n w) = w"
proof -
  have nth: "k < 8 \<Longrightarrow> [0..<8] ! k = k" for k by simp
  have "find (bit (set_bit n w)) [0..<8] = Some n"
    unfolding find_Some_iff
    by (rule exI [of _ n]) (use assms nth in \<open>auto simp del: upt_Suc upt_rec_numeral simp: bit_set_bit_iff\<close>)
  moreover have "unset_bit n (set_bit n w) = w"
    using assms(2) by (auto intro!: bit_eqI simp: bit_set_bit_iff bit_unset_bit_iff)
  ultimately show ?thesis by (simp add: clear_first_def)
qed

lemma chip_EOI: "chip_command PIC_EOI_CODE c = c\<lparr>isr := clear_first (isr c)\<rparr>"
proof -
  have "\<not> bit (0x20 :: u8) 4" "\<not> bit (0x20 :: u8) 3" by simp_all
  then show ?thesis by (simp add: chip_command_def PIC_EOI_CODE_def)
qed

lemma EOI_serve: "chip_ready c n \<Longrightarrow> n < 8 \<Longrightarrow> chip_command PIC_EOI_CODE (serve n c) = c"
  by (simp add: chip_EOI serve_def chip_ready_def clear_first_set)

text \<open>
  \<open>PIC_EOI\<close> ends exactly the interrupt it is told about: after a request that got through was taken,
  both chips are again as they were, for each of the sixteen lines.
\<close>

theorem PIC_EOI_ends_interrupt:
  assumes "n < 16" and "deliverable m n"
  shows "PIC_EOI (word_of_nat n) (take_irq n m) = m"
proof -
  have "(8 :: u8) \<le> word_of_nat n \<longleftrightarrow> 8 \<le> n"
    using assms(1) by (simp add: word_le_nat_alt unat_of_nat)
  then show ?thesis
    using assms EOI_serve [of "master m" n] EOI_serve [of "master m" 2] EOI_serve [of "slave m" "n - 8"]
    by (cases "n < 8") (simp_all add: PIC_EOI_def take_irq_def deliverable_def)
qed

text \<open>A pair of chips on which lines 7 and 8 can be taken.\<close>

definition idle_chip :: chip where
  "idle_chip = \<lparr>imr = 0, icw1 = 0x11, icw2 = 0, expects = 0, read_isr = False, isr = 0, irr = 0\<rparr>"

definition idle_machine :: machine where
  "idle_machine = \<lparr>master = idle_chip, slave = idle_chip, port_writes = [], port_reads = (\<lambda>_. 0),
     msrs = (\<lambda>_. (0, 0)), apic_writes = []\<rparr>"

lemma idle_deliverable: "deliverable idle_machine n"
  by (simp add: deliverable_def chip_ready_def idle_machine_def idle_chip_def)

theorem PIC_EOI_ends_interrupt_witness: "PIC_EOI 8 (take_irq 8 idle_machine) = idle_machine"
  using PIC_EOI_ends_interrupt [of 8 idle_machine] idle_deliverable by simp

lemma pic_isr_eq:
  "pic_isr m = (m\<lparr>master := (master m)\<lparr>read_isr := True\<rparr>, slave := (slave m)\<lparr>read_isr := True\<rparr>\<rparr>,
     push_bit 8 (ucast (isr (slave m))) OR ucast (isr (master m)))"
proof -
  have "\<not> bit (0x0B :: u8) 4" "bit (0x0B :: u8) 3" "bit (0x0B :: u8) 1" "bit (0x0B :: u8) 0" by simp_all
  then show ?thesis by (simp add: pic_isr_def pic_read_def Let_def chip_command_def status_def)
qed

lemma mask_is_no_number:
  "bit (w :: u16) 7 \<Longrightarrow> w AND 0xFF \<noteq> 7" "w AND 0xFF00 \<noteq> (15 :: u16)"
proof -
  show "w AND 0xFF00 \<noteq> 15"
  proof
    assume "w AND 0xFF00 = 15"
    then have "bit (w AND 0xFF00) 0 = bit (15 :: u16) 0" by simp
    then show False by (simp add: bit_and_iff)
  qed
  show "bit w 7 \<Longrightarrow> w AND 0xFF \<noteq> 7"
  proof
    assume "bit w 7" and "w AND 0xFF = 7"
    then have "bit (w AND 0xFF) 7 = bit (7 :: u16) 7" by simp
    with \<open>bit w 7\<close> show False by (simp add: bit_and_iff)
  qed
qed

lemma SOI_7:
  "\<exists>a. PIC_SOI 7 s (take_irq 7 m) = (a, add64 s 1, True) \<and> \<not> deliverable a 7"
proof -
  have "bit (push_bit 8 (ucast v) OR ucast (set_bit 7 w) :: u16) 7" for v w :: u8
    by (simp add: bit_or_iff bit_push_bit_iff bit_ucast_iff bit_set_bit_iff)
  note mask_is_no_number(1) [OF this]
  then show ?thesis
    by (auto simp: PIC_SOI_def pic_isr_eq take_irq_def serve_def deliverable_def chip_ready_def bit_set_bit_iff)
qed

lemma SOI_15:
  "\<exists>b. PIC_SOI 15 s (take_irq 15 m) = (b, add64 s 1, True) \<and> \<not> deliverable b 15"
  by (auto simp: PIC_SOI_def pic_isr_eq mask_is_no_number(2) take_irq_def serve_def deliverable_def
      chip_ready_def bit_set_bit_iff)

text \<open>
  \<open>PIC_SOI\<close> takes the two interrupts it checks for spurious ones although they are real: the in-service
  register is a mask, and it is compared with the number of the line. For line 7 the handler is
  left without an end of interrupt, for line 15 the slave gets none, so the line stays in service
  and is not served again.
\<close>

theorem PIC_SOI_drops_real_interrupts:
  shows "\<exists>a b. PIC_SOI 7 s (take_irq 7 m) = (a, add64 s 1, True) \<and> \<not> deliverable a 7 \<and>
    PIC_SOI 15 s (take_irq 15 m) = (b, add64 s 1, True) \<and> \<not> deliverable b 15"
  using SOI_7 [of s m] SOI_15 [of s m] by blast

theorem PIC_SOI_drops_real_interrupts_witness:
  "\<exists>a. PIC_SOI 7 0 (take_irq 7 idle_machine) = (a, 1, True) \<and> \<not> deliverable a 7"
  using PIC_SOI_drops_real_interrupts [of 0 idle_machine] by (auto simp: add64_def)

end
