(* ===== verification/Idt.thy ===== *)
theory Idt
  imports Pic
begin

text \<open>
  The interrupt descriptor table of arch/X86_64/interrupts/interrupts.c, the dispatch over the
  controllers of irq.c and the gate of apic.c. The addresses of the handlers, which are written in
  assembly, are an argument.
\<close>

section \<open>The code\<close>

record handlers =
  exc :: "nat \<Rightarrow> u64"
  irq :: "nat \<Rightarrow> u64"
  syscall_fn :: u64
  isr_spurious :: u64

record IDT_Entry =
  offset_1 :: u16
  selector :: u16
  zero0 :: u8
  type_attr :: u8
  offset_2 :: u16
  offset_3 :: u32
  zero1 :: u32

definition INT_GATE_FAULT :: u8 where "INT_GATE_FAULT = 0x8E"
definition INT_GATE_INTERRUPT :: u8 where "INT_GATE_INTERRUPT = INT_GATE_FAULT"
definition INT_GATE_ABORT :: u8 where "INT_GATE_ABORT = INT_GATE_FAULT"
definition INT_GATE_TRAP :: u8 where "INT_GATE_TRAP = 0x8F"
definition GDT_KERN_CODE_SELECTOR :: u16 where "GDT_KERN_CODE_SELECTOR = 0x0008"
definition IRQ_start :: u8 where "IRQ_start = 100"
definition SYSCALL_ISR_DEFAULT :: u8 where "SYSCALL_ISR_DEFAULT = 0x80"

text \<open>The table has 256 entries and its index 8 bits, so it is a function of the index.\<close>

definition idt_set :: "u8 \<Rightarrow> u64 \<Rightarrow> u8 \<Rightarrow> (u8 \<Rightarrow> IDT_Entry) \<Rightarrow> u8 \<Rightarrow> IDT_Entry" where
  "idt_set index address attributes idt = idt(index :=
     \<lparr>offset_1 = ucast (address AND 0xFFFF), selector = GDT_KERN_CODE_SELECTOR, zero0 = 0,
      type_attr = attributes, offset_2 = ucast (drop_bit 16 (address AND 0xFFFF0000)),
      offset_3 = ucast (drop_bit 32 (address AND 0xFFFF00000000)), zero1 = 0\<rparr>)"

text \<open>The calls of \<open>idt_map\<close>, in their order.\<close>

definition exception_gates :: "handlers \<Rightarrow> (u8 \<times> u64 \<times> u8) list" where
  "exception_gates h =
     [(0, exc h 0, INT_GATE_FAULT), (1, exc h 1, INT_GATE_TRAP), (2, exc h 2, INT_GATE_INTERRUPT),
      (3, exc h 3, INT_GATE_TRAP), (4, exc h 4, INT_GATE_FAULT), (5, exc h 5, INT_GATE_FAULT),
      (6, exc h 6, INT_GATE_FAULT), (7, exc h 7, INT_GATE_FAULT), (8, exc h 8, INT_GATE_ABORT),
      (9, exc h 9, INT_GATE_FAULT), (10, exc h 10, INT_GATE_FAULT), (11, exc h 11, INT_GATE_FAULT),
      (12, exc h 12, INT_GATE_FAULT), (13, exc h 13, INT_GATE_FAULT), (14, exc h 14, INT_GATE_FAULT),
      (16, exc h 16, INT_GATE_FAULT), (17, exc h 17, INT_GATE_FAULT), (18, exc h 18, INT_GATE_ABORT),
      (19, exc h 19, INT_GATE_FAULT), (20, exc h 20, INT_GATE_FAULT), (30, exc h 30, INT_GATE_FAULT)]"

definition irq_gates :: "handlers \<Rightarrow> (u8 \<times> u64 \<times> u8) list" where
  "irq_gates h = map (\<lambda>n. (IRQ_start + word_of_nat n, irq h n, INT_GATE_INTERRUPT)) [0..<16]"

definition set_gates :: "(u8 \<times> u64 \<times> u8) list \<Rightarrow> (u8 \<Rightarrow> IDT_Entry) \<Rightarrow> u8 \<Rightarrow> IDT_Entry" where
  "set_gates gs = fold (\<lambda>(i, a, t). idt_set i a t) gs"

definition idt_map :: "u8 \<Rightarrow> handlers \<Rightarrow> (u8 \<Rightarrow> IDT_Entry) \<Rightarrow> u8 \<Rightarrow> IDT_Entry" where
  "idt_map syscall_isr h idt =
     idt_set syscall_isr (syscall_fn h) INT_GATE_INTERRUPT (set_gates (irq_gates h) (set_gates (exception_gates h) idt))"

datatype IRQ_CONTROLLERS = PIC | APIC

record irq_system =
  mach :: machine
  IDT :: "u8 \<Rightarrow> IDT_Entry"
  idtr :: "u16 \<times> u64"
  loaded :: bool

definition IC_Controller :: IRQ_CONTROLLERS where "IC_Controller = PIC"

definition APIC_ENABLE_SPR :: u32 where "APIC_ENABLE_SPR = 0x100"
definition APIC_EOI_MESSAGE_DISABLE :: u32 where "APIC_EOI_MESSAGE_DISABLE = 0x1000"

definition apic_spurious_set :: "handlers \<Rightarrow> irq_system \<Rightarrow> irq_system" where
  "apic_spurious_set h s =
     s\<lparr>IDT := idt_set IRQ_spurious (isr_spurious h) INT_GATE_INTERRUPT (IDT s),
       mach := apic_write 0xF0 (ucast IRQ_spurious OR APIC_ENABLE_SPR OR APIC_EOI_MESSAGE_DISABLE) (mach s)\<rparr>"

definition APIC_Configure :: "handlers \<Rightarrow> u8 \<Rightarrow> irq_system \<Rightarrow> irq_system \<times> int" where
  "APIC_Configure h offset s =
     (apic_spurious_set h (s\<lparr>mach := set_apic_base APIC_base (PIC_disable (mach s))\<rparr>), 0)"

definition IC_Configure :: "bool \<Rightarrow> handlers \<Rightarrow> IRQ_CONTROLLERS \<Rightarrow> irq_system \<Rightarrow> irq_system \<times> int" where
  "IC_Configure apic h c s =
     (case c of
        PIC \<Rightarrow> let (m, r) = PIC_Configure apic IRQ_start (IRQ_start + 8) (mach s) in (s\<lparr>mach := m\<rparr>, r)
      | APIC \<Rightarrow> APIC_Configure h IRQ_start s)"

definition IC_SOI :: "IRQ_CONTROLLERS \<Rightarrow> u8 \<Rightarrow> nat \<Rightarrow> machine \<Rightarrow> machine \<times> nat \<times> bool" where
  "IC_SOI c n spurious m = (case c of PIC \<Rightarrow> PIC_SOI n spurious m | APIC \<Rightarrow> (m, spurious, False))"

definition IC_EOI :: "IRQ_CONTROLLERS \<Rightarrow> u8 \<Rightarrow> machine \<Rightarrow> machine" where
  "IC_EOI c n m = (case c of PIC \<Rightarrow> PIC_EOI n m | APIC \<Rightarrow> APIC_EOI n m)"

text \<open>The masks of all lines, kept in variables of pic.c; the local controller has no such functions yet.\<close>

definition IRQ_save :: "IRQ_CONTROLLERS \<Rightarrow> u8 \<times> u8 \<Rightarrow> machine \<Rightarrow> u8 \<times> u8" where
  "IRQ_save c saved m = (case c of PIC \<Rightarrow> PIC_IRQ_save m | APIC \<Rightarrow> saved)"

definition IRQ_kill :: "IRQ_CONTROLLERS \<Rightarrow> machine \<Rightarrow> machine" where
  "IRQ_kill c m = (case c of PIC \<Rightarrow> PIC_IRQ_kill m | APIC \<Rightarrow> m)"

definition IRQ_restore :: "IRQ_CONTROLLERS \<Rightarrow> u8 \<times> u8 \<Rightarrow> machine \<Rightarrow> machine" where
  "IRQ_restore c saved m = (case c of PIC \<Rightarrow> PIC_IRQ_restore saved m | APIC \<Rightarrow> m)"

definition nmi_disable :: "machine \<Rightarrow> machine" where
  "nmi_disable m = outb 0x70 (inb 0x70 m OR 0x80) m"

definition nmi_enable :: "machine \<Rightarrow> machine" where
  "nmi_enable m = outb 0x70 (inb 0x70 m AND 0x7F) m"

text \<open>\<open>idt_address\<close> is the address of the table.\<close>

definition interrupt_init :: "bool \<Rightarrow> handlers \<Rightarrow> u8 \<Rightarrow> u64 \<Rightarrow> irq_system \<Rightarrow> (irq_system \<times> int) res" where
  "interrupt_init apic h syscall_isr idt_address s =
     (let s = s\<lparr>mach := nmi_disable (mach s)\<rparr> in
      if IRQ_start \<le> syscall_isr \<and> unat syscall_isr < unat IRQ_start + 16 then Inl Panic
      else if syscall_isr \<le> 31 then Inl Panic
      else
        let s = s\<lparr>IDT := idt_map syscall_isr h (IDT s)\<rparr>;
            (s, _) = IC_Configure apic h IC_Controller s;
            s = s\<lparr>mach := serial_init (mach s)\<rparr>
        in Inr (s\<lparr>idtr := (0x1000, idt_address), loaded := True\<rparr>, 0))"

section \<open>The table\<close>

text \<open>The processor's side of a gate: where it leads, and whether it is there at all.\<close>

definition gate_target :: "IDT_Entry \<Rightarrow> u64" where
  "gate_target e = ucast (offset_1 e) OR push_bit 16 (ucast (offset_2 e)) OR push_bit 32 (ucast (offset_3 e))"

definition gate_present :: "IDT_Entry \<Rightarrow> bool" where
  "gate_present e \<longleftrightarrow> bit (type_attr e) 7"

definition gate :: "u64 \<Rightarrow> u8 \<Rightarrow> IDT_Entry" where
  "gate a t = idt_set 0 a t (\<lambda>_. undefined) 0"

lemma idt_set_gate: "idt_set i a t idt = idt(i := gate a t)"
  by (simp add: idt_set_def gate_def)

lemma bit_masks_48:
  "bit (0xFFFF :: u64) k \<longleftrightarrow> k < 16"
  "bit (0xFFFF0000 :: u64) k \<longleftrightarrow> 16 \<le> k \<and> k < 32"
  "bit (0xFFFF00000000 :: u64) k \<longleftrightarrow> 32 \<le> k \<and> k < 48"
proof -
  have m: "(0xFFFF :: u64) = mask 16" "(0xFFFF0000 :: u64) = push_bit 16 (mask 16)"
    "(0xFFFF00000000 :: u64) = push_bit 32 (mask 16)" by (simp_all add: mask_eq_exp_minus_1)
  show "bit (0xFFFF :: u64) k \<longleftrightarrow> k < 16" "bit (0xFFFF0000 :: u64) k \<longleftrightarrow> 16 \<le> k \<and> k < 32"
    "bit (0xFFFF00000000 :: u64) k \<longleftrightarrow> 32 \<le> k \<and> k < 48"
    unfolding m by (auto simp only: bit_mask_iff bit_push_bit_iff possible_bit_word) auto
qed

lemma gate_offsets:
  "bit (offset_1 (gate a t)) k \<longleftrightarrow> k < 16 \<and> bit a k"
  "bit (offset_2 (gate a t)) k \<longleftrightarrow> k < 16 \<and> bit a (16 + k)"
  "bit (offset_3 (gate a t)) k \<longleftrightarrow> k < 16 \<and> bit a (32 + k)"
  unfolding gate_def idt_set_def fun_upd_same IDT_Entry.select_convs
    bit_ucast_iff bit_and_iff bit_drop_bit_eq o_apply bit_masks_48 possible_bit_word
  by auto

lemma gate_target_gate: "gate_target (gate a t) = take_bit 48 a"
proof (rule bit_word_eqI)
  fix n
  assume "n < LENGTH(64)"
  then have n: "n < 64" by simp
  consider "n < 16" | "16 \<le> n" "n < 32" | "32 \<le> n" by linarith
  then show "bit (gate_target (gate a t)) n = bit (take_bit 48 a) n"
    using n by cases
      (auto simp: gate_target_def bit_or_iff bit_push_bit_iff bit_ucast_iff bit_take_bit_iff gate_offsets)
qed

lemma gate_target_low: "unat a < 2 ^ 48 \<Longrightarrow> gate_target (gate a t) = a"
  unfolding gate_target_gate
  by (rule word_unat_eq_iff [THEN iffD2]) (simp add: unsigned_take_bit_eq take_bit_nat_eq_self)

lemma gate_fields: "selector (gate a t) = GDT_KERN_CODE_SELECTOR" "gate_present (gate a t) \<longleftrightarrow> bit t 7"
  by (simp_all add: gate_def idt_set_def gate_present_def)

lemma set_gates_lookup:
  "distinct (map fst gs) \<Longrightarrow>
     set_gates gs idt v = (case map_of gs v of None \<Rightarrow> idt v | Some (a, t) \<Rightarrow> gate a t)"
proof (induction gs arbitrary: idt)
  case Nil
  then show ?case by (simp add: set_gates_def)
next
  case (Cons g gs)
  obtain i a t where g: "g = (i, a, t)" by (metis prod_cases3)
  have "map_of gs i = None" using Cons.prems g by (simp add: map_of_eq_None_iff)
  moreover have "set_gates (g # gs) idt v = set_gates gs (idt(i := gate a t)) v"
    by (simp add: set_gates_def g idt_set_gate)
  ultimately show ?case using Cons g by (auto split: option.split)
qed

text \<open>The vectors that are filled in.\<close>

definition exceptions :: "u8 list" where
  "exceptions = [0, 1, 2, 3, 4, 5, 6, 7, 8, 9, 10, 11, 12, 13, 14, 16, 17, 18, 19, 20, 30]"

definition irq_vectors :: "u8 list" where
  "irq_vectors = map (\<lambda>n. 100 + word_of_nat n) [0..<16]"

lemma gate_vectors: "map fst (exception_gates h) = exceptions" "map fst (irq_gates h) = irq_vectors"
  by (simp_all add: exception_gates_def exceptions_def irq_gates_def irq_vectors_def IRQ_start_def)

lemma irq_vectors_list:
  "irq_vectors = [100, 101, 102, 103, 104, 105, 106, 107, 108, 109, 110, 111, 112, 113, 114, 115]"
  by code_simp

lemma vectors_distinct: "distinct exceptions" "distinct irq_vectors" "set exceptions \<inter> set irq_vectors = {}"
  by (simp_all add: exceptions_def irq_vectors_list)

lemma idt_map_entry:
  "idt_map sc h idt v =
     (if v = sc then gate (syscall_fn h) INT_GATE_INTERRUPT
      else case map_of (irq_gates h) v of Some (a, t) \<Rightarrow> gate a t
      | None \<Rightarrow> (case map_of (exception_gates h) v of Some (a, t) \<Rightarrow> gate a t | None \<Rightarrow> idt v))"
  by (simp add: idt_map_def idt_set_gate set_gates_lookup gate_vectors vectors_distinct split: option.split)

lemma exception_lookup:
  assumes "v \<in> set exceptions"
  shows "\<exists>t. map_of (exception_gates h) v = Some (exc h (unat v), t) \<and> bit t 7"
  using assms unfolding exceptions_def
  by (auto simp: exception_gates_def INT_GATE_FAULT_def INT_GATE_TRAP_def INT_GATE_INTERRUPT_def INT_GATE_ABORT_def)

lemma irq_lookup:
  assumes "n < 16"
  shows "map_of (irq_gates h) (100 + word_of_nat n) = Some (irq h n, INT_GATE_INTERRUPT)"
proof (rule map_of_is_SomeI)
  show "distinct (map fst (irq_gates h))" by (simp add: gate_vectors vectors_distinct)
  show "(100 + word_of_nat n, irq h n, INT_GATE_INTERRUPT) \<in> set (irq_gates h)"
    using assms by (auto simp: irq_gates_def IRQ_start_def)
qed

lemma interrupt_gate_present: "gate_present (gate a INT_GATE_INTERRUPT)"
  by (simp add: gate_fields INT_GATE_INTERRUPT_def INT_GATE_FAULT_def)

text \<open>
  The table after \<open>idt_map\<close>: every exception that has a handler, the sixteen vectors from
  \<open>IRQ_start\<close> on and the system call have a present gate in the kernel's code segment that leads
  to their handler, and no other entry has changed. A gate keeps 48 bits of an address.
\<close>

theorem idt_map_installs:
  assumes "sc \<notin> set exceptions" and "sc \<notin> set irq_vectors"
    and "\<And>k. unat (exc h k) < 2 ^ 48" and "\<And>k. unat (irq h k) < 2 ^ 48" and "unat (syscall_fn h) < 2 ^ 48"
    and "v \<in> set exceptions" and "n < 16" and "u \<notin> set exceptions \<union> set irq_vectors \<union> {sc}"
  shows "gate_target (idt_map sc h idt v) = exc h (unat v) \<and> gate_present (idt_map sc h idt v) \<and>
    gate_target (idt_map sc h idt (100 + word_of_nat n)) = irq h n \<and>
    gate_present (idt_map sc h idt (100 + word_of_nat n)) \<and>
    gate_target (idt_map sc h idt sc) = syscall_fn h \<and> gate_present (idt_map sc h idt sc) \<and>
    idt_map sc h idt u = idt u"
proof -
  have low: "gate_target (gate (exc h k) t) = exc h k" "gate_target (gate (irq h k) t) = irq h k"
    "gate_target (gate (syscall_fn h) t) = syscall_fn h" for k t
    using assms(3-5) gate_target_low by blast+
  have irq: "100 + word_of_nat n \<in> set irq_vectors" using assms(7) by (simp add: irq_vectors_def)
  have none: "x \<notin> set irq_vectors \<Longrightarrow> map_of (irq_gates h) x = None"
    "x \<notin> set exceptions \<Longrightarrow> map_of (exception_gates h) x = None" for x
    by (metis gate_vectors list.set_map map_of_eq_None_iff)+
  have v: "v \<notin> set irq_vectors" "v \<noteq> sc" using assms(1,6) vectors_distinct(3) by blast+
  obtain t where t: "map_of (exception_gates h) v = Some (exc h (unat v), t)" "bit t 7"
    using exception_lookup [OF assms(6)] by blast
  have "idt_map sc h idt v = gate (exc h (unat v)) t" using v t(1) none(1) by (simp add: idt_map_entry)
  moreover have "idt_map sc h idt (100 + word_of_nat n) = gate (irq h n) INT_GATE_INTERRUPT"
  proof -
    have "100 + word_of_nat n \<noteq> sc" using assms(2) irq by blast
    with irq_lookup [OF assms(7)] show ?thesis by (simp add: idt_map_entry)
  qed
  moreover have "idt_map sc h idt sc = gate (syscall_fn h) INT_GATE_INTERRUPT" by (simp add: idt_map_entry)
  moreover have "idt_map sc h idt u = idt u" using assms(8) none by (simp add: idt_map_entry)
  ultimately show ?thesis using low t(2) gate_fields(2) [of _ t] interrupt_gate_present by simp
qed

definition demo_handlers :: handlers where
  "demo_handlers = \<lparr>exc = (\<lambda>k. word_of_nat (0x101000 + 2 * (k mod 32))),
     irq = (\<lambda>k. word_of_nat (0x102000 + 32 * (k mod 16))), syscall_fn = 0x103000, isr_spurious = 0x104000\<rparr>"

lemma demo_handlers_low:
  "unat (exc demo_handlers k) < 2 ^ 48" "unat (irq demo_handlers k) < 2 ^ 48" "unat (syscall_fn demo_handlers) < 2 ^ 48"
proof -
  have "k mod 32 < 32" "k mod 16 < 16" by simp_all
  then show "unat (exc demo_handlers k) < 2 ^ 48" "unat (irq demo_handlers k) < 2 ^ 48"
    unfolding demo_handlers_def handlers.select_convs unat_of_nat
    by (auto intro!: le_less_trans [OF mod_less_eq_dividend] simp del: of_nat_add of_nat_mult)
  show "unat (syscall_fn demo_handlers) < 2 ^ 48" by (simp add: demo_handlers_def)
qed

lemma vectors_sets:
  "128 \<notin> set exceptions" "128 \<notin> set irq_vectors" "14 \<in> set exceptions" "15 \<notin> set exceptions \<union> set irq_vectors \<union> {128}"
  by (simp_all add: exceptions_def irq_vectors_list)

theorem idt_map_installs_witness:
  "gate_target (idt_map 128 demo_handlers (\<lambda>_. gate 0 0) 14) = 0x10101C \<and>
     idt_map 128 demo_handlers (\<lambda>_. gate 0 0) 15 = gate 0 0"
  using idt_map_installs [of 128 demo_handlers 14 1 15 "\<lambda>_. gate 0 0"] vectors_sets demo_handlers_low
  by (simp add: demo_handlers_def)

section \<open>Where the interrupt lines arrive\<close>

lemma vector_bits: "(100 :: u8) AND 0xF8 = 96" "(108 :: u8) AND 0xF8 = 104"
  by simp_all

lemma irq_vector_init:
  assumes "icw2 (master m) = IRQ_start" and "icw2 (slave m) = IRQ_start + 8" and "n < 16"
  shows "irq_vector m n = 96 + word_of_nat n"
proof -
  have add: "96 OR word_of_nat j = (96 :: u8) + word_of_nat j" "104 OR word_of_nat j = (104 :: u8) + word_of_nat j"
    if "j < 8" for j
    using that by (auto simp: numeral_eq_Suc less_Suc_eq)
  show ?thesis
  proof (cases "n < 8")
    case True
    with add(1) assms(1) show ?thesis by (simp add: irq_vector_def chip_vector_def IRQ_start_def)
  next
    case False
    then obtain j where j: "n = j + 8" "j < 8" using assms(3) by (metis add.commute le_Suc_ex not_less nat_add_left_cancel_less numeral_Bit0)
    with add(2) assms(2) show ?thesis by (simp add: irq_vector_def chip_vector_def IRQ_start_def)
  qed
qed

lemma serial_init_chips: "master (serial_init m) = master m" "slave (serial_init m) = slave m"
  by (simp_all add: serial_init_def outb_def COM1_PORT_def)

lemma nmi_disable_chips: "master (nmi_disable m) = master m" "slave (nmi_disable m) = slave m"
  by (simp_all add: nmi_disable_def outb_def)

lemma interrupt_init_eq:
  assumes "31 < sc" and "\<not> (IRQ_start \<le> sc \<and> unat sc < unat IRQ_start + 16)"
  shows "\<exists>s'. interrupt_init apic h sc addr s = Inr (s', 0) \<and> IDT s' = idt_map sc h (IDT s) \<and>
    master (mach s') = chip_set_up IRQ_start 4 (master (mach s)) \<and>
    slave (mach s') = chip_set_up (IRQ_start + 8) 2 (slave (mach s)) \<and> loaded s'"
proof -
  obtain m r where m: "PIC_Configure apic IRQ_start (IRQ_start + 8) (nmi_disable (mach s)) = (m, r)" by fastforce
  then have "master m = chip_set_up IRQ_start 4 (master (mach s))"
    "slave m = chip_set_up (IRQ_start + 8) 2 (slave (mach s))"
    using PIC_Configure_chips [of apic IRQ_start "IRQ_start + 8" "nmi_disable (mach s)"]
    by (simp_all add: nmi_disable_chips)
  then show ?thesis
    using assms m by (simp add: interrupt_init_def Let_def IC_Configure_def IC_Controller_def serial_init_chips not_le)
qed

lemma line_entry:
  assumes "\<not> (100 \<le> unat sc \<and> unat sc < 116)" and "sc \<notin> {96, 97, 98, 99}" and "n < 16"
  shows "idt_map sc h idt (96 + word_of_nat n) =
    (if n < 4 then idt (96 + word_of_nat n) else gate (irq h (n - 4)) INT_GATE_INTERRUPT)"
proof (cases "n < 4")
  case True
  then have "n = 0 \<or> n = 1 \<or> n = 2 \<or> n = 3" by presburger
  then have v: "96 + word_of_nat n \<in> {96, 97, 98, 99 :: u8}" by auto
  then have "96 + word_of_nat n \<notin> set exceptions \<union> set irq_vectors" by (auto simp: exceptions_def irq_vectors_list)
  then have "map_of (irq_gates h) (96 + word_of_nat n) = None" "map_of (exception_gates h) (96 + word_of_nat n) = None"
    by (metis UnCI gate_vectors list.set_map map_of_eq_None_iff)+
  with True v assms(2) show ?thesis by (auto simp: idt_map_entry)
next
  case False
  define j where "j = n - 4"
  have j: "j < 16" "n = j + 4" using False assms(3) by (auto simp: j_def)
  have vec: "96 + word_of_nat n = (100 :: u8) + word_of_nat j" by (simp add: j(2))
  have "unat (100 + word_of_nat j :: u8) = 100 + j"
    using assms(3) j by (simp add: unat_word_ariths unat_of_nat)
  then have "100 + word_of_nat j \<noteq> sc" using assms(1,3) j by auto
  with irq_lookup [OF j(1), of h] False j(2) show ?thesis unfolding vec by (simp add: idt_map_entry)
qed

lemma wrong_chip_ended:
  assumes "8 \<le> n" and "n < 12"
  shows "\<not> deliverable (PIC_EOI (word_of_nat (n - 4)) (take_irq n m)) n"
proof -
  have "\<not> (8 :: u8) \<le> word_of_nat j" if "j < 8" for j
    using that by (simp add: word_le_nat_alt unat_of_nat)
  from this [of "n - 4"] assms have "\<not> (8 :: u8) \<le> word_of_nat (n - 4)" by (simp del: of_nat_diff)
  then show ?thesis
    using assms
    by (auto simp: PIC_EOI_def take_irq_def deliverable_def chip_ready_def serve_def bit_set_bit_iff simp del: of_nat_diff)
qed

text \<open>
  C22. After \<open>interrupt_init\<close> no interrupt line runs its own handler. The chips ignore the three low bits of
  the offset they are given, and 100 is not a multiple of 8: line \<open>n\<close> arrives at vector \<open>96 + n\<close>, where
  the table holds nothing new for the first four lines and the gate of line \<open>n - 4\<close> for the
  others. The handlers that lines 8 to 11 reach in this way tell the master only, so such a line,
  the clock's among them, stays in service and is not served again.
\<close>

theorem interrupt_init_misroutes:
  assumes "31 < sc" and "\<not> (IRQ_start \<le> sc \<and> unat sc < unat IRQ_start + 16)" and "sc \<notin> {96, 97, 98, 99}"
    and "n < 16"
  shows "\<exists>s'. interrupt_init apic h sc addr s = Inr (s', 0) \<and> irq_vector (mach s') n = 96 + word_of_nat n \<and>
    IDT s' (irq_vector (mach s') n) =
      (if n < 4 then IDT s (irq_vector (mach s') n) else gate (irq h (n - 4)) INT_GATE_INTERRUPT) \<and>
    (8 \<le> n \<and> n < 12 \<longrightarrow> \<not> deliverable (PIC_EOI (word_of_nat (n - 4)) (take_irq n m)) n)"
proof -
  obtain s' where s': "interrupt_init apic h sc addr s = Inr (s', 0)" "IDT s' = idt_map sc h (IDT s)"
    "master (mach s') = chip_set_up IRQ_start 4 (master (mach s))"
    "slave (mach s') = chip_set_up (IRQ_start + 8) 2 (slave (mach s))"
    using interrupt_init_eq [OF assms(1,2)] by blast
  have vec: "irq_vector (mach s') n = 96 + word_of_nat n"
    using assms(4) by (intro irq_vector_init) (simp_all add: s'(3,4) chip_set_up_eq)
  have entry: "idt_map sc h (IDT s) (96 + word_of_nat n) =
      (if n < 4 then IDT s (96 + word_of_nat n) else gate (irq h (n - 4)) INT_GATE_INTERRUPT)"
    by (rule line_entry [OF _ assms(3,4)]) (use assms(2) in \<open>simp add: IRQ_start_def word_le_nat_alt\<close>)
  show ?thesis
    using s'(1,2) vec entry wrong_chip_ended by auto
qed

definition demo_irq_system :: irq_system where
  "demo_irq_system = \<lparr>mach = idle_machine, IDT = (\<lambda>_. gate 0 0), idtr = (0, 0), loaded = False\<rparr>"

theorem interrupt_init_misroutes_witness:
  "\<exists>s'. interrupt_init True demo_handlers 128 0x105000 demo_irq_system = Inr (s', 0) \<and>
     irq_vector (mach s') 8 = 104 \<and> gate_target (IDT s' 104) = irq demo_handlers 4 \<and>
     \<not> deliverable (PIC_EOI 4 (take_irq 8 idle_machine)) 8"
  using interrupt_init_misroutes [where sc = 128 and n = 8 and apic = True and h = demo_handlers
      and addr = "0x105000" and s = demo_irq_system and m = idle_machine]
    gate_target_low [OF demo_handlers_low(2)]
  by (auto simp: IRQ_start_def)

section \<open>Masking all lines\<close>

text \<open>
  Once both chips are initialised, \<open>IRQ_save\<close>, \<open>IRQ_kill\<close> and \<open>IRQ_restore\<close> bring the machine back to where it was,
  and between the last two no line of the old controllers gets through.
\<close>

theorem IRQ_masks_restored:
  assumes "expects (master m) = 0" and "expects (slave m) = 0"
  shows "IRQ_restore PIC (IRQ_save PIC old m) (IRQ_kill PIC m) = m" and "n < 16 \<Longrightarrow> \<not> deliverable (IRQ_kill PIC m) n"
proof -
  have kill: "IRQ_kill PIC m = m\<lparr>master := (master m)\<lparr>imr := 0xFF\<rparr>, slave := (slave m)\<lparr>imr := 0xFF\<rparr>\<rparr>"
    using assms by (simp add: IRQ_kill_def PIC_IRQ_kill_def outb_def pic_ports chip_data_def)
  show "IRQ_restore PIC (IRQ_save PIC old m) (IRQ_kill PIC m) = m"
    using assms unfolding kill
    by (simp add: IRQ_restore_def IRQ_save_def PIC_IRQ_restore_def PIC_IRQ_save_def outb_def inb_def pic_ports chip_data_def)
  have all: "bit (0xFF :: u8) k" if "k < 8" for k
    using that by (simp add: less_Suc_eq numeral_eq_Suc) auto
  show "\<not> deliverable (IRQ_kill PIC m) n" if "n < 16"
    using all [of n] all [of "n - 8"] all [of 2] that unfolding kill by (auto simp: deliverable_def chip_ready_def)
qed

theorem IRQ_masks_restored_witness:
  "IRQ_restore PIC (IRQ_save PIC (0, 0) idle_machine) (IRQ_kill PIC idle_machine) = idle_machine"
  by (rule IRQ_masks_restored) (simp_all add: idle_machine_def idle_chip_def)

end
