(* ===== verification/Clock.thy ===== *)
theory Clock
  imports Printk
begin

text \<open>
  The real-time clock of arch/X86_64/cmos.c. The registers of the chip change by themselves:
  \<open>rtc k r\<close> is what the \<open>k\<close>-th read of the data port returns when register \<open>r\<close> is selected.
\<close>

section \<open>The code\<close>

text \<open>What a call of \<open>printk\<close> depends on: the build's level, the heap and the frame of the call.\<close>

record log_env =
  max_level :: Log_Level
  bytes_alloc :: allocator
  cells_alloc :: cell_alloc
  log_slot :: u64

definition log_line :: "log_env \<Rightarrow> Log_Level \<Rightarrow> cbuf \<Rightarrow> kernel_log \<Rightarrow> kernel_log res option" where
  "log_line e lv str k = printk (max_level e) (bytes_alloc e) (cells_alloc e) (log_slot e) lv str [] k"

record time_t =
  microseconds :: nat
  milliseconds :: nat
  unix_t :: nat
  seconds :: u8
  minutes :: u8
  hours :: u8
  day :: u8
  month :: u8
  year :: u16

record clock =
  ctime :: time_t
  irqCount :: nat
  nmi_state :: u8
  data_reads :: nat
  cmos_writes :: "(u8 \<times> u8) list"
  interrupts_on :: bool
  klog :: kernel_log

type_synonym rtc = "nat \<Rightarrow> u8 \<Rightarrow> u8"

text \<open>
  Reading register \<open>reg\<close>, and writing it: the index port takes the register with the state of the
  non-maskable interrupt in its top bit, which the chip does not look at.
\<close>

definition read_data :: "rtc \<Rightarrow> u8 \<Rightarrow> clock \<Rightarrow> u8 \<times> clock" where
  "read_data rtc sel c = (rtc (data_reads c) (sel AND 0x7F), c\<lparr>data_reads := data_reads c + 1\<rparr>)"

definition write_data :: "u8 \<Rightarrow> u8 \<Rightarrow> clock \<Rightarrow> clock" where
  "write_data sel v c = c\<lparr>cmos_writes := cmos_writes c @ [(sel AND 0x7F, v)]\<rparr>"

definition cmos_read :: "rtc \<Rightarrow> u8 \<Rightarrow> clock \<Rightarrow> u8 \<times> clock" where
  "cmos_read rtc reg c = read_data rtc (reg OR nmi_state c) c"

definition cmos_write :: "u8 \<Rightarrow> u8 \<Rightarrow> clock \<Rightarrow> clock" where
  "cmos_write reg v c = write_data (reg OR nmi_state c) v c"

definition CMOS_IRQ_RATE :: u8 where "CMOS_IRQ_RATE = 3"
definition CMOS_TIME_YEAR_OFFSET :: u16 where "CMOS_TIME_YEAR_OFFSET = 2000"
definition CMOS_STATUS_A :: u8 where "CMOS_STATUS_A = 0x0A"

definition rtc_irq_init :: "rtc \<Rightarrow> clock \<Rightarrow> clock" where
  "rtc_irq_init rtc c =
     (let inEn = interrupts_on c;
          c = c\<lparr>interrupts_on := False\<rparr>;
          (prev, c) = read_data rtc 0x8B c;
          c = write_data 0x8B (prev OR 0x40) c;
          (prev, c) = read_data rtc 0x8A c;
          c = write_data 0x8A ((prev AND 0xF0) OR CMOS_IRQ_RATE) c;
          c = c\<lparr>irqCount := 0\<rparr>;
          c = (if inEn then c\<lparr>interrupts_on := True\<rparr> else c)
      in snd (read_data rtc (0x0C OR nmi_state c) c))"

text \<open>The loop that waits for the end of an update; \<open>None\<close> where the bit stays set for ever.\<close>

partial_function (option) wait_update :: "rtc \<Rightarrow> clock \<Rightarrow> clock option" where
  "wait_update rtc c =
     (let (v, c) = cmos_read rtc CMOS_STATUS_A c
      in if v AND 0x80 \<noteq> 0 then wait_update rtc c else Some c)"

text \<open>The six registers, in the order of the code.\<close>

definition read_time :: "rtc \<Rightarrow> clock \<Rightarrow> clock" where
  "read_time rtc c =
     (let (s, c) = cmos_read rtc 0x00 c; (mi, c) = cmos_read rtc 0x02 c; (h, c) = cmos_read rtc 0x04 c;
          (d, c) = cmos_read rtc 0x07 c; (mo, c) = cmos_read rtc 0x08 c; (y, c) = cmos_read rtc 0x09 c
      in c\<lparr>ctime := (ctime c)\<lparr>seconds := s, minutes := mi, hours := h, day := d, month := mo,
           year := ucast y + CMOS_TIME_YEAR_OFFSET\<rparr>\<rparr>)"

definition pm_hours :: "u8 \<Rightarrow> u8" where
  "pm_hours h = (if bit h 7 then unset_bit 7 h + 12 else h)"

text \<open>The products of the code are of type \<open>int\<close>, 32 bits, and are then extended.\<close>

definition year_term :: "u16 \<Rightarrow> u64" where
  "year_term y = scast ((ucast y - 1971) * 31557600 :: u32)"

definition calc_unix :: "time_t \<Rightarrow> nat" where
  "calc_unix t =
     (let u = ucast (seconds t);
          u = u + ucast (minutes t) * 60;
          u = u + ucast (hours t) * 3600;
          u = u + ucast (day t) * 86400;
          u = u + ucast (month t) * 2629800;
          u = u + year_term (year t)
      in unat (u :: u64))"

definition zero_time :: time_t where
  "zero_time = \<lparr>microseconds = 0, milliseconds = 0, unix_t = 0, seconds = 0, minutes = 0, hours = 0,
     day = 0, month = 0, year = 0\<rparr>"

definition rtc_text :: cbuf where
  "rtc_text = [82, 84, 67, 32, 105, 110, 105, 116, 105, 97, 108, 105, 122, 101, 100, 0]"

definition on_log :: "kernel_log res option \<Rightarrow> (kernel_log \<Rightarrow> 'a) \<Rightarrow> 'a res option" where
  "on_log r f = (case r of None \<Rightarrow> None | Some (Inl e) \<Rightarrow> Some (Inl e) | Some (Inr k) \<Rightarrow> Some (Inr (f k)))"

text \<open>\<open>port70\<close> is what reading the index port returns.\<close>

definition arch_time_init :: "rtc \<Rightarrow> log_env \<Rightarrow> u8 \<Rightarrow> clock \<Rightarrow> (clock \<times> int) res option" where
  "arch_time_init rtc e port70 c =
     (case wait_update rtc (c\<lparr>nmi_state := port70 AND 0x80, ctime := zero_time\<rparr>) of
        None \<Rightarrow> None
      | Some c \<Rightarrow>
          let c = read_time rtc c;
              c = c\<lparr>ctime := (ctime c)\<lparr>hours := pm_hours (hours (ctime c))\<rparr>\<rparr>;
              c = c\<lparr>ctime := (ctime c)\<lparr>unix_t := calc_unix (ctime c)\<rparr>\<rparr>;
              c = rtc_irq_init rtc c
          in on_log (log_line e DEBUG rtc_text (klog c)) (\<lambda>k. (c\<lparr>klog := k\<rparr>, 0)))"

definition timer_text :: cbuf where
  "timer_text = [84, 105, 109, 101, 114, 33, 0]"

text \<open>The arithmetic of \<open>ms_update\<close>, on the time and the count of interrupts, in three steps.\<close>

definition add_micro :: "nat \<Rightarrow> time_t \<Rightarrow> nat \<times> time_t" where
  "add_micro n t =
     (let (n, t) = (if n \<ge> 1024 then (0, t\<lparr>microseconds := add64 (microseconds t) 72\<rparr>) else (n, t))
      in (n, t\<lparr>microseconds := add64 (microseconds t) 122\<rparr>))"

definition carry_milli :: "time_t \<Rightarrow> time_t" where
  "carry_milli t =
     (if sub64 (microseconds t) (milliseconds t * 1000) \<ge> 1000
      then t\<lparr>milliseconds := add64 (milliseconds t) 1\<rparr> else t)"

definition carry_second :: "time_t \<Rightarrow> time_t" where
  "carry_second t =
     (if milliseconds t \<ge> 1000
      then t\<lparr>microseconds := sub64 (microseconds t) 1000000, milliseconds := sub64 (milliseconds t) 1000,
             unix_t := add64 (unix_t t) 1\<rparr>
      else t)"

definition count_up :: "nat \<Rightarrow> time_t \<Rightarrow> nat \<times> time_t" where
  "count_up n t = (let (n, t) = add_micro n t in (n, carry_second (carry_milli t)))"

definition ms_update :: "rtc \<Rightarrow> log_env \<Rightarrow> clock \<Rightarrow> clock res option" where
  "ms_update rtc e c =
     on_log (log_line e DEBUG timer_text (klog c)) (\<lambda>k.
       let c = c\<lparr>klog := k\<rparr>;
           (n, t) = count_up (irqCount c) (ctime c)
       in snd (read_data rtc (0x0C OR nmi_state c) (c\<lparr>irqCount := n, ctime := t\<rparr>)))"

text \<open>The handler \<open>irq_8\<close> counts the interrupt and calls \<open>ms_update\<close>.\<close>

definition irq_8 :: "rtc \<Rightarrow> log_env \<Rightarrow> clock \<Rightarrow> clock res option" where
  "irq_8 rtc e c = ms_update rtc e (c\<lparr>irqCount := add64 (irqCount c) 1\<rparr>)"

fun clock_run :: "rtc \<Rightarrow> log_env \<Rightarrow> nat \<Rightarrow> clock \<Rightarrow> clock res option" where
  "clock_run rtc e 0 c = Some (Inr c)"
| "clock_run rtc e (Suc n) c =
     (case clock_run rtc e n c of Some (Inr c) \<Rightarrow> irq_8 rtc e c | r \<Rightarrow> r)"

section \<open>The running clock\<close>

text \<open>The microseconds that \<open>n\<close> interrupts add up to.\<close>

definition elapsed :: "nat \<Rightarrow> nat" where
  "elapsed n = 122 * n + 72 * (n div 1024)"

definition clock_at :: "nat \<Rightarrow> nat \<Rightarrow> nat \<times> time_t \<Rightarrow> bool" where
  "clock_at u n s \<longleftrightarrow> fst s = n mod 1024 \<and> microseconds (snd s) = elapsed n mod 1000000 \<and>
     milliseconds (snd s) = elapsed n mod 1000000 div 1000 \<and>
     unix_t (snd s) = (u + elapsed n div 1000000) mod 2 ^ 64"

lemma elapsed_Suc:
  "elapsed (Suc n) = elapsed n + 122 + (if Suc (n mod 1024) = 1024 then 72 else 0)"
  by (simp add: elapsed_def div_Suc mod_Suc)

lemma carry:
  assumes "d < m"
  shows "(e + d) mod m = (if m \<le> e mod m + d then e mod m + d - m else e mod m + (d :: nat))"
    and "(e + d) div m = e div m + (if m \<le> e mod m + d then 1 else 0)"
proof -
  let ?x = "e mod m + d"
  have x: "e mod m < m" "?x < m + m" using assms by (simp_all add: add_less_mono)
  have "(e + d) mod m = ?x mod m" by (simp add: mod_add_left_eq)
  moreover have "?x mod m = (if m \<le> ?x then ?x - m else ?x)"
    using x(2) by (auto simp: le_mod_geq less_diff_conv2)
  ultimately show "(e + d) mod m = (if m \<le> ?x then ?x - m else ?x)" by simp
  have "(e + d) div m = e div m + ?x div m"
    using assms by (simp add: div_add1_eq [of e d])
  moreover have "?x div m = (if m \<le> ?x then 1 else 0)"
    using x(2) assms by (auto simp: le_div_geq less_diff_conv2)
  ultimately show "(e + d) div m = e div m + (if m \<le> ?x then 1 else 0)" by simp
qed

text \<open>The counters as the code changes them, when they hold what they should.\<close>

lemma milliseconds_step:
  assumes "us < 1000000" and "d < 1000"
  shows "(if sub64 (add64 us d) (us div 1000 * 1000) \<ge> 1000 then add64 (us div 1000) 1 else us div 1000) =
    (us + d) div 1000"
proof -
  have sum: "us + d < 2 ^ 64" using assms by simp
  then have "add64 us d = us + d" by (simp add: wrap_simps)
  moreover have "us div 1000 * 1000 \<le> us" by simp
  then have "sub64 (us + d) (us div 1000 * 1000) = us + d - us div 1000 * 1000"
    using sum by (intro sub64_exact) linarith+
  moreover have "us div 1000 \<le> us" by simp
  then have "add64 (us div 1000) 1 = us div 1000 + 1" using assms(1) by (intro add64_exact) simp
  moreover have "us + d - us div 1000 * 1000 = us mod 1000 + d" by (simp add: modulo_nat_def)
  ultimately show ?thesis using carry(2) [OF assms(2), of us] by simp
qed

text \<open>\<open>count_up\<close> with its two cases of the number of interrupts put together.\<close>

lemma count_up_eq:
  assumes "microseconds t < 1000000" and "milliseconds t = microseconds t div 1000"
    and "d = (if n \<ge> 1024 then 194 else 122)"
  shows "count_up n t = (if n \<ge> 1024 then 0 else n,
    t\<lparr>microseconds := (if 1000000 \<le> microseconds t + d then microseconds t + d - 1000000 else microseconds t + d),
      milliseconds := (if 1000000 \<le> microseconds t + d then microseconds t + d - 1000000 else microseconds t + d) div 1000,
      unix_t := (if 1000000 \<le> microseconds t + d then add64 (unix_t t) 1 else unix_t t)\<rparr>)"
proof -
  define us where "us = microseconds t"
  have d: "d < 1000" and us: "us < 1000000" using assms(1,3) by (auto simp: us_def)
  have add: "add64 us d = us + d" "add64 (add64 us 72) 122 = us + 194"
    using d us by (simp_all add: wrap_simps)
  note step = milliseconds_step [OF us d]
  have small: "us + d < 2 ^ 64" "(us + d) div 1000 < 2 ^ 64" using d us by auto
  have ge: "1000 \<le> (us + d) div 1000 \<longleftrightarrow> 1000000 \<le> us + d" by auto
  have sub: "sub64 (us + d) 1000000 = us + d - 1000000" "sub64 ((us + d) div 1000) 1000 = (us + d - 1000000) div 1000"
    if "1000000 \<le> us + d"
  proof -
    show "sub64 (us + d) 1000000 = us + d - 1000000" using that small(1) by (rule sub64_exact)
    define x where "x = us + d - 1000000"
    have "us + d = x + 1000 * 1000" using that by (simp add: x_def)
    then have "(us + d - 1000000) div 1000 = (us + d) div 1000 - 1000" by simp
    then show "sub64 ((us + d) div 1000) 1000 = (us + d - 1000000) div 1000"
      using ge that small(2) sub64_exact by simp
  qed
  let ?t1 = "t\<lparr>microseconds := us + d\<rparr>" and ?t2 = "t\<lparr>microseconds := us + d, milliseconds := (us + d) div 1000\<rparr>"
  have "add_micro n t = (if n \<ge> 1024 then 0 else n, ?t1)"
    using add assms(3) by (cases "n \<ge> 1024") (simp_all add: add_micro_def us_def)
  moreover have "carry_milli ?t1 = ?t2"
    using step add(1) assms(2) by (auto simp: carry_milli_def us_def split: if_splits)
  ultimately have "count_up n t = (if n \<ge> 1024 then 0 else n, carry_second ?t2)" by (simp add: count_up_def)
  then show ?thesis using sub ge by (simp add: carry_second_def us_def)
qed

lemma count_up_step:
  assumes "clock_at u n (m, t)"
  shows "clock_at u (Suc n) (count_up (add64 m 1) t)"
proof -
  define us where "us = elapsed n mod 1000000"
  have t: "m = n mod 1024" "microseconds t = us" "milliseconds t = us div 1000"
    "unix_t t = (u + elapsed n div 1000000) mod 2 ^ 64"
    using assms by (simp_all add: clock_at_def us_def)
  have us: "us < 1000000" by (simp add: us_def)
  have "n mod 1024 < 1024" by simp
  then have m: "add64 m 1 = Suc m" unfolding t(1) by (simp add: wrap_simps)
  have full: "1024 \<le> Suc (n mod 1024) \<longleftrightarrow> Suc (n mod 1024) = 1024" using \<open>n mod 1024 < 1024\<close> by linarith
  define d where "d = (if Suc m \<ge> 1024 then 194 else (122 :: nat))"
  have d: "d < 1000000" "elapsed (Suc n) = elapsed n + d"
  proof -
    show "d < 1000000" by (simp add: d_def)
    show "elapsed (Suc n) = elapsed n + d" using full unfolding d_def elapsed_Suc t(1) by presburger
  qed
  define c where "c \<longleftrightarrow> 1000000 \<le> us + d"
  have ceq: "count_up (Suc m) t = (if Suc m \<ge> 1024 then 0 else Suc m,
    t\<lparr>microseconds := (if c then us + d - 1000000 else us + d),
      milliseconds := (if c then us + d - 1000000 else us + d) div 1000,
      unix_t := (if c then add64 (unix_t t) 1 else unix_t t)\<rparr>)"
    unfolding c_def t(2) [symmetric] by (rule count_up_eq) (use us t(2,3) d_def in simp_all)
  have micro: "elapsed (Suc n) mod 1000000 = (if c then us + d - 1000000 else us + d)"
    unfolding d(2) us_def c_def by (rule carry(1) [OF d(1)])
  have sec: "elapsed (Suc n) div 1000000 = elapsed n div 1000000 + (if c then 1 else 0)"
    unfolding d(2) us_def c_def by (rule carry(2) [OF d(1)])
  have "(if Suc m \<ge> 1024 then 0 else Suc m) = Suc n mod 1024"
    using full unfolding t(1) mod_Suc by (simp split: if_split)
  moreover have "(if c then add64 (unix_t t) 1 else unix_t t) = (u + elapsed (Suc n) div 1000000) mod 2 ^ 64"
    unfolding sec t(4) by (simp add: add64_def mod_Suc_eq)
  ultimately show ?thesis
    unfolding clock_at_def m ceq micro by simp
qed

text \<open>A log that takes another entry, with \<open>n\<close> of them so far.\<close>

definition log_ready :: "log_env \<Rightarrow> kernel_log \<Rightarrow> nat \<Rightarrow> bool" where
  "log_ready e k n \<longleftrightarrow> proper_alloc (bytes_alloc e) \<and> (\<forall>m. bytes_alloc e m \<noteq> None) \<and>
     proper_cells (cells_alloc e) \<and> printk_enabled k \<and> console_ok (console_of k) \<and>
     (\<exists>xs. array_ok (logs k) xs \<and> length xs = n)"

lemma log_line_ok:
  assumes "log_ready e k n" and "n + 1 < 2 ^ 60" and "terminated str" and "fits 0 (cstr str) []"
  shows "\<exists>k'. log_line e lv str k = Some (Inr k') \<and> log_ready e k' (n + 1)"
proof -
  obtain xs where xs: "array_ok (logs k) xs" "length xs = n" using assms(1) by (auto simp: log_ready_def)
  have "\<exists>k' lstr. printk (max_level e) (bytes_alloc e) (cells_alloc e) (log_slot e) lv str [] k = Some (Inr k') \<and>
    (if lv \<le> max_level e
     then shows_text (console_of k) (time_stamp @ format (cstr str) [] @ [10]) (console_of k')
     else console_of k' = console_of k) \<and>
    string_ok lstr (format (cstr str) []) \<and>
    entries k' = entries k @ [\<lparr>level = lv, seconds = 0, microseconds = 0, message = s_str lstr\<rparr>] \<and>
    array_ok (logs k') (xs @ [log_slot e]) \<and> printk_enabled k'"
    by (rule printk_ok) (use assms xs in \<open>auto simp: log_ready_def printable_def\<close>)
  then obtain k' where k': "log_line e lv str k = Some (Inr k')" "array_ok (logs k') (xs @ [log_slot e])"
    "printk_enabled k'" "if lv \<le> max_level e
     then shows_text (console_of k) (time_stamp @ format (cstr str) [] @ [10]) (console_of k')
     else console_of k' = console_of k"
    unfolding log_line_def by blast
  have "console_ok (console_of k')"
    using k'(4) assms(1) by (auto simp: shows_text_def log_ready_def split: if_splits)
  moreover have "\<exists>ys. array_ok (logs k') ys \<and> length ys = n + 1"
    using k'(2) xs(2) by (intro exI [of _ "xs @ [log_slot e]"]) simp
  ultimately show ?thesis using k'(1,3) assms(1) by (auto simp: log_ready_def)
qed

lemma texts_fit:
  "terminated timer_text" "fits 0 (cstr timer_text) []" "terminated rtc_text" "fits 0 (cstr rtc_text) []"
  by (simp_all add: timer_text_def rtc_text_def terminated_def cstr_def)

lemma clock_run_ok:
  assumes "log_ready e (klog c) b" and "b + n < 2 ^ 60" and "clock_at u 0 (irqCount c, ctime c)"
  shows "\<exists>c'. clock_run rtc e n c = Some (Inr c') \<and> log_ready e (klog c') (b + n) \<and>
    clock_at u n (irqCount c', ctime c')"
  using assms(2)
proof (induction n)
  case 0
  with assms show ?case by simp
next
  case (Suc n)
  then obtain d where d: "clock_run rtc e n c = Some (Inr d)" "log_ready e (klog d) (b + n)"
    "clock_at u n (irqCount d, ctime d)" by auto
  obtain k where k: "log_line e DEBUG timer_text (klog d) = Some (Inr k)" "log_ready e k (b + n + 1)"
    using log_line_ok [OF d(2) _ texts_fit(1,2)] Suc.prems by auto
  obtain m t where mt: "count_up (add64 (irqCount d) 1) (ctime d) = (m, t)" by fastforce
  with count_up_step [OF d(3)] have "clock_at u (Suc n) (m, t)" by simp
  moreover have "irq_8 rtc e d = Some (Inr (d\<lparr>irqCount := m, ctime := t, klog := k, data_reads := data_reads d + 1\<rparr>))"
    using k(1) mt by (simp add: irq_8_def ms_update_def on_log_def Let_def read_data_def)
  ultimately show ?case using d(1) k(2) by simp
qed

text \<open>
  C27. The clock keeps time: after \<open>n\<close> interrupts of line 8 the counters hold exactly \<open>122 * n\<close>
  microseconds and 72 more for every 1024 of them, taken apart into seconds, milliseconds and the
  microseconds of the second, and 8192 interrupts make exactly one second.
\<close>

theorem clock_keeps_time:
  assumes "log_ready e (klog c) b" and "b + n < 2 ^ 60"
    and "irqCount c = 0" and "microseconds (ctime c) = 0" and "milliseconds (ctime c) = 0"
    and "unix_t (ctime c) = u" and "u < 2 ^ 64"
  shows "\<exists>c'. clock_run rtc e n c = Some (Inr c') \<and>
    microseconds (ctime c') = (122 * n + 72 * (n div 1024)) mod 1000000 \<and>
    milliseconds (ctime c') = (122 * n + 72 * (n div 1024)) mod 1000000 div 1000 \<and>
    unix_t (ctime c') = (u + (122 * n + 72 * (n div 1024)) div 1000000) mod 2 ^ 64 \<and>
    (122 * (8192 * s) + 72 * ((8192 * s) div 1024)) = 1000000 * (s :: nat)"
proof -
  have "clock_at u 0 (irqCount c, ctime c)" using assms by (simp add: clock_at_def elapsed_def)
  from clock_run_ok [OF assms(1,2) this, of rtc] obtain c' where
    c': "clock_run rtc e n c = Some (Inr c')" "clock_at u n (irqCount c', ctime c')" by blast
  have "(8192 * s) div 1024 = 8 * s" using div_mult_self1_is_m [of 1024 "8 * s"] by simp
  with c' show ?thesis by (auto simp: clock_at_def elapsed_def)
qed

definition demo_env :: log_env where
  "demo_env = \<lparr>max_level = INFO, bytes_alloc = junk_alloc, cells_alloc = zero_cells, log_slot = 0x7000\<rparr>"

definition demo_clock :: clock where
  "demo_clock = \<lparr>ctime = zero_time, irqCount = 0, nmi_state = 0, data_reads = 0, cmos_writes = [],
     interrupts_on = False, klog = demo_log\<rparr>"

lemma demo_ready: "log_ready demo_env (klog demo_clock) 0"
proof -
  have "array_ok (logs demo_log) []" by (simp add: demo_log_def array_ok_def)
  then show ?thesis
    using junk_alloc_proper zero_cells_proper demo_console_ok
    by (auto simp: log_ready_def demo_env_def demo_clock_def demo_log_def)
qed

theorem clock_keeps_time_witness:
  "\<exists>c'. clock_run (\<lambda>k r. 0) demo_env 8192 demo_clock = Some (Inr c') \<and>
     microseconds (ctime c') = 0 \<and> milliseconds (ctime c') = 0 \<and> unix_t (ctime c') = 1"
  using clock_keeps_time [OF demo_ready, of 8192 0 "\<lambda>k r. 0"]
  by (auto simp: demo_clock_def zero_time_def)

section \<open>Setting the clock\<close>

lemma select_register:
  assumes "nmi \<in> {0, 0x80 :: u8}"
  shows "(reg OR nmi) AND 0x7F = reg AND 0x7F"
proof -
  have "(reg OR nmi) AND 0x7F = (reg AND 0x7F) OR (nmi AND 0x7F)" by (rule bit.conj_disj_distrib2)
  moreover have "nmi AND 0x7F = 0" using assms by auto
  ultimately show ?thesis by simp
qed

lemma cmos_read_eq:
  "nmi_state c \<in> {0, 0x80} \<Longrightarrow>
     cmos_read rtc reg c = (rtc (data_reads c) (reg AND 0x7F), c\<lparr>data_reads := data_reads c + 1\<rparr>)"
  by (simp add: cmos_read_def read_data_def select_register)

lemma busy_bit: "(v :: u8) AND 0x80 \<noteq> 0 \<longleftrightarrow> bit v 7"
  by (simp add: and_exp_eq_0_iff_not_bit [of v 7, simplified])

lemma wait_update_step:
  assumes "nmi_state c \<in> {0, 0x80}"
  shows "wait_update rtc c =
    (if bit (rtc (data_reads c) 0x0A) 7 then wait_update rtc (c\<lparr>data_reads := data_reads c + 1\<rparr>)
     else Some (c\<lparr>data_reads := data_reads c + 1\<rparr>))"
  by (subst wait_update.simps) (simp only: cmos_read_eq [OF assms] Let_def prod.case busy_bit, simp add: CMOS_STATUS_A_def)

lemma wait_update_ends:
  assumes "\<not> bit (rtc (data_reads c + k) 0x0A) 7" and "\<And>j. j < k \<Longrightarrow> bit (rtc (data_reads c + j) 0x0A) 7"
    and "nmi_state c \<in> {0, 0x80}"
  shows "wait_update rtc c = Some (c\<lparr>data_reads := data_reads c + k + 1\<rparr>)"
  using assms
proof (induction k arbitrary: c)
  case 0
  then show ?case by (simp add: wait_update_step)
next
  case (Suc k)
  let ?d = "c\<lparr>data_reads := data_reads c + 1\<rparr>"
  have "bit (rtc (data_reads c) 0x0A) 7" using Suc.prems(2) [of 0] by simp
  then have "wait_update rtc c = wait_update rtc ?d" using Suc.prems(3) by (simp add: wait_update_step)
  also have "\<dots> = Some (?d\<lparr>data_reads := data_reads ?d + k + 1\<rparr>)"
    by (rule Suc.IH) (use Suc.prems(1,3) Suc.prems(2) [of "Suc _"] in simp_all)
  finally show ?case by simp
qed

text \<open>While the bit stays set the loop does not end.\<close>

lemma wait_update_stuck:
  assumes "\<And>k. bit (rtc k 0x0A) 7" and "nmi_state c \<in> {0, 0x80}"
  shows "wait_update rtc c = None"
proof -
  have "False" if "wait_update rtc c = Some d" for d
  proof -
    have "rtc = rtc \<longrightarrow> nmi_state c \<in> {0, 0x80} \<longrightarrow> False"
      by (rule wait_update.raw_induct [of "\<lambda>r c d. r = rtc \<longrightarrow> nmi_state c \<in> {0, 0x80} \<longrightarrow> False", OF _ that])
        (use assms(1) in \<open>auto simp: cmos_read_eq Let_def busy_bit CMOS_STATUS_A_def split: if_splits; fastforce\<close>)
    with assms(2) show ?thesis by simp
  qed
  then show ?thesis by (cases "wait_update rtc c") auto
qed

lemma scast_low:
  assumes "n < 2 ^ 31"
  shows "(scast (word_of_nat n :: u32) :: u64) = word_of_nat n"
proof -
  have "sint (word_of_nat n :: u32) = int n"
  proof -
    have "signed_take_bit 31 (int n) = int n"
      by (rule signed_take_bit_int_eq_self) (use assms in simp_all)
    then show ?thesis by (simp add: signed_of_nat)
  qed
  then show ?thesis by (metis of_int_of_nat_eq of_int_sint)
qed

lemma year_term_ok:
  assumes "unat (y :: u8) < 40"
  shows "year_term (ucast y + 2000) = word_of_nat ((29 + unat y) * 31557600)"
proof -
  have "unat (ucast y + 2000 :: u16) = unat y + 2000"
    using assms by (simp add: unat_word_ariths unsigned_ucast_eq take_bit_nat_eq_self)
  then have "(ucast (ucast y + 2000 :: u16) :: u32) = word_of_nat (unat y + 2000)"
    by (metis of_nat_unat)
  then have "(ucast (ucast y + 2000 :: u16) - 1971) * 31557600 = (word_of_nat ((29 + unat y) * 31557600) :: u32)"
    by (simp add: algebra_simps)
  moreover have "(29 + unat y) * 31557600 < 2 ^ 31" using assms by simp
  ultimately show ?thesis using scast_low by (metis year_term_def)
qed
lemma calc_unix_eq:
  assumes "year t = ucast (y :: u8) + 2000" and "unat y < 40"
  shows "calc_unix t = unat (seconds t) + 60 * unat (minutes t) + 3600 * unat (hours t) + 86400 * unat (day t) +
    2629800 * unat (month t) + 31557600 * (29 + unat y)"
proof -
  let ?n = "unat (seconds t) + 60 * unat (minutes t) + 3600 * unat (hours t) + 86400 * unat (day t) +
    2629800 * unat (month t) + 31557600 * (29 + unat y)"
  have u: "(ucast (w :: u8) :: u64) = word_of_nat (unat w)" for w by simp
  have "calc_unix t = unat (word_of_nat ?n :: u64)"
    unfolding calc_unix_def Let_def assms(1) year_term_ok [OF assms(2)] u by (simp add: algebra_simps)
  moreover have "unat (w :: u8) < 256" for w using unsigned_less [of w, where 'a = nat] by simp
  from this [of "seconds t"] this [of "minutes t"] this [of "hours t"] this [of "day t"] this [of "month t"] assms(2)
  have "?n < 2 ^ LENGTH(64)" by simp
  ultimately show ?thesis by (simp only: unat_of_nat mod_less)
qed

lemma single_bit: "(p :: 'a :: len word) AND 2 ^ n = (if bit p n then 2 ^ n else 0)"
  by (rule bit_word_eqI) (auto simp: bit_and_iff bit_exp_iff)

lemma top_bit_cases: "(p :: u8) AND 0x80 \<in> {0, 0x80}"
  using single_bit [of p 7] by simp

lemma read_time_eq:
  assumes "nmi_state c \<in> {0, 0x80}" and "data_reads c = j"
  shows "read_time rtc c = c\<lparr>data_reads := j + 6, ctime := (ctime c)\<lparr>seconds := rtc j 0, minutes := rtc (j + 1) 2,
    hours := rtc (j + 2) 4, day := rtc (j + 3) 7, month := rtc (j + 4) 8, year := ucast (rtc (j + 5) 9) + 2000\<rparr>\<rparr>"
  using assms by (simp add: read_time_def cmos_read_eq CMOS_TIME_YEAR_OFFSET_def numeral_eq_Suc)

lemma rtc_irq_init_time:
  "ctime (rtc_irq_init rtc c) = ctime c" "irqCount (rtc_irq_init rtc c) = 0" "klog (rtc_irq_init rtc c) = klog c"
  "interrupts_on (rtc_irq_init rtc c) = interrupts_on c"
  by (simp_all add: rtc_irq_init_def read_data_def write_data_def Let_def)

text \<open>
  C32. \<open>arch_time_init\<close> waits for the end of an update and then takes the six registers from the chip, one read
  after the other; the counters start at 0 with the interrupts as they were, and for the years up to
  2039 the seconds are the sum the code intends. If the chip never leaves the update, the call
  does not return.
\<close>

theorem arch_time_init_reads_clock:
  assumes "log_ready e (klog c) b" and "b + 1 < 2 ^ 60" and "data_reads c = 0"
    and "\<not> bit (rtc k 0x0A) 7" and "\<And>j. j < k \<Longrightarrow> bit (rtc j 0x0A) 7" and "unat (rtc (k + 6) 9) < 40"
  shows "\<exists>c' t. arch_time_init rtc e p c = Some (Inr (c', 0)) \<and> ctime c' = t \<and>
    seconds t = rtc (k + 1) 0 \<and> minutes t = rtc (k + 2) 2 \<and> hours t = pm_hours (rtc (k + 3) 4) \<and>
    day t = rtc (k + 4) 7 \<and> month t = rtc (k + 5) 8 \<and> year t = ucast (rtc (k + 6) 9) + 2000 \<and>
    unix_t t = unat (seconds t) + 60 * unat (minutes t) + 3600 * unat (hours t) + 86400 * unat (day t) +
      2629800 * unat (month t) + 31557600 * (29 + unat (rtc (k + 6) 9)) \<and>
    microseconds t = 0 \<and> milliseconds t = 0 \<and> irqCount c' = 0 \<and> interrupts_on c' = interrupts_on c \<and>
    ((\<forall>j. bit (busy j 0x0A) 7) \<longrightarrow> arch_time_init busy e p c = None)"
proof -
  define c0 where "c0 = c\<lparr>nmi_state := p AND 0x80, ctime := zero_time\<rparr>"
  have c0: "nmi_state c0 \<in> {0, 0x80}" "data_reads c0 = 0" "klog c0 = klog c" "interrupts_on c0 = interrupts_on c"
    "ctime c0 = zero_time"
    using top_bit_cases assms(3) by (simp_all add: c0_def)
  define c1 where "c1 = c0\<lparr>data_reads := k + 1\<rparr>"
  have wait: "wait_update rtc c0 = Some c1"
    using wait_update_ends [of rtc c0 k] c0(1,2) assms(4,5) by (simp add: c1_def)
  have c1: "nmi_state c1 \<in> {0, 0x80}" "data_reads c1 = k + 1" "klog c1 = klog c" "interrupts_on c1 = interrupts_on c"
    "ctime c1 = zero_time" using c0 by (simp_all add: c1_def)
  define tr where "tr = zero_time\<lparr>seconds := rtc (k + 1) 0, minutes := rtc (k + 2) 2, hours := rtc (k + 3) 4,
    day := rtc (k + 4) 7, month := rtc (k + 5) 8, year := ucast (rtc (k + 6) 9) + 2000\<rparr>"
  define t0 where "t0 = tr\<lparr>hours := pm_hours (hours tr)\<rparr>"
  define c2 where "c2 = c1\<lparr>data_reads := k + 7, ctime := t0\<lparr>unix_t := calc_unix t0\<rparr>\<rparr>"
  obtain kl where kl: "log_line e DEBUG rtc_text (klog c) = Some (Inr kl)"
    using log_line_ok [OF assms(1,2) texts_fit(3,4)] by blast
  have sums: "k + 1 + 1 = k + 2" "k + 1 + 2 = k + 3" "k + 1 + 3 = k + 4" "k + 1 + 4 = k + 5" "k + 1 + 5 = k + 6"
    "k + 1 + 6 = k + 7" by simp_all
  have read: "read_time rtc c1 = c1\<lparr>data_reads := k + 7, ctime := tr\<rparr>"
    using read_time_eq [OF c1(1,2), of rtc] unfolding c1(5) sums tr_def .
  have run: "arch_time_init rtc e p c = Some (Inr ((rtc_irq_init rtc c2)\<lparr>klog := kl\<rparr>, 0))"
    using wait read kl by (simp add: arch_time_init_def c0_def [symmetric] c2_def t0_def on_log_def
        rtc_irq_init_time c1(3) Let_def)
  have "calc_unix t0 = unat (seconds t0) + 60 * unat (minutes t0) + 3600 * unat (hours t0) + 86400 * unat (day t0) +
      2629800 * unat (month t0) + 31557600 * (29 + unat (rtc (k + 6) 9))"
    by (rule calc_unix_eq [OF _ assms(6)]) (simp add: t0_def tr_def)
  moreover have "arch_time_init busy e p c = None" if "\<forall>j. bit (busy j 0x0A) 7"
    using wait_update_stuck [of busy c0] that c0(1) by (simp add: arch_time_init_def c0_def [symmetric])
  ultimately show ?thesis
    using c1(4) by (intro exI [of _ "(rtc_irq_init rtc c2)\<lparr>klog := kl\<rparr>"] exI [of _ "t0\<lparr>unix_t := calc_unix t0\<rparr>"])
      (simp add: run rtc_irq_init_time c2_def, simp add: t0_def tr_def zero_time_def)
qed

theorem arch_time_init_reads_clock_witness:
  "\<exists>c' t. arch_time_init (\<lambda>k r. if r = 0x0A then (if k < 2 then 0x80 else 0) else 1) demo_env 0 demo_clock = Some (Inr (c', 0)) \<and>
     ctime c' = t \<and> unix_t t = 949447861 \<and> hours t = 1 \<and> arch_time_init (\<lambda>k r. 0x80) demo_env 0 demo_clock = None"
proof -
  let ?rtc = "\<lambda>(k :: nat) (r :: u8). if r = 0x0A then (if k < 2 then 0x80 else 0) else (1 :: u8)"
  have "\<not> bit (?rtc 2 0x0A) 7" "\<And>j. j < 2 \<Longrightarrow> bit (?rtc j 0x0A) 7" "unat (?rtc (2 + 6) 9) < 40"
    "bit (0x80 :: u8) 7" "pm_hours 1 = 1" by (simp_all add: pm_hours_def)
  moreover have "data_reads demo_clock = 0" by (simp add: demo_clock_def)
  ultimately show ?thesis
    using arch_time_init_reads_clock [OF demo_ready, of ?rtc 2 0 "\<lambda>k r. 0x80"] by auto
qed

text \<open>
  The sum does not follow the calendar: a month counts as 2629800 seconds whatever its length, so the
  last second of a month of 31 days is later than the first one of the next month; and the term of
  the year no longer fits 32 bits from 2040 on and is extended with its sign.
\<close>

theorem calc_unix_goes_back:
  assumes "unat (y :: u8) < 40"
  shows "calc_unix (zero_time\<lparr>year := ucast y + 2000, month := 2, day := 1\<rparr>) + 48599 =
    calc_unix (zero_time\<lparr>year := ucast y + 2000, month := 1, day := 31, hours := 23, minutes := 59, seconds := 59\<rparr>)"
  using calc_unix_eq [OF _ assms, of "zero_time\<lparr>year := ucast y + 2000, month := 2, day := 1\<rparr>"]
    calc_unix_eq [OF _ assms, of "zero_time\<lparr>year := ucast y + 2000, month := 1, day := 31, hours := 23, minutes := 59, seconds := 59\<rparr>"]
  by (simp add: zero_time_def)

theorem calc_unix_2040: "calc_unix (zero_time\<lparr>year := 2040\<rparr>) = 2 ^ 64 - 2117492896"
  by (simp add: calc_unix_def zero_time_def year_term_def Let_def)

end
