(* ===== verification/Byte_Memory.thy ===== *)
theory Byte_Memory
  imports Bytes
begin

text \<open>
  The memory as a function from addresses to bytes, for the components whose data structures lie in
  it: reading and writing little-endian integers of \<open>k\<close> bytes, \<open>memcpy\<close> and \<open>memset\<close>, with the laws that say
  what a read finds after a write or a copy elsewhere.
\<close>

definition rd :: "(nat \<Rightarrow> u8) \<Rightarrow> nat \<Rightarrow> nat \<Rightarrow> nat" where
  "rd mem k a = unat (le_word (map mem [a..<a + k]) :: u64)"

definition wr :: "(nat \<Rightarrow> u8) \<Rightarrow> nat \<Rightarrow> nat \<Rightarrow> 'a :: len word \<Rightarrow> (nat \<Rightarrow> u8)" where
  "wr mem k a w = (\<lambda>x. if a \<le> x \<and> x < a + k then word_bytes k w ! (x - a) else mem x)"

text \<open>\<open>memcpy\<close>, one byte after the other with rising addresses.\<close>

fun memcpy :: "(nat \<Rightarrow> u8) \<Rightarrow> nat \<Rightarrow> nat \<Rightarrow> nat \<Rightarrow> (nat \<Rightarrow> u8)" where
  "memcpy mem d s 0 = mem"
| "memcpy mem d s (Suc n) = memcpy (mem(d := mem s)) (d + 1) (s + 1) n"

text \<open>\<open>memset\<close>; of the \<open>int\<close> only the low byte is stored.\<close>

fun memset :: "(nat \<Rightarrow> u8) \<Rightarrow> nat \<Rightarrow> u32 \<Rightarrow> nat \<Rightarrow> (nat \<Rightarrow> u8)" where
  "memset mem s c 0 = mem"
| "memset mem s c (Suc n) = memset (mem(s := ucast c)) (s + 1) c n"

section \<open>Laws\<close>

lemma memset_eq: "memset mem s c n x = (if s \<le> x \<and> x < s + n then ucast c else mem x)"
proof (induction mem s c n rule: memset.induct)
  case (2 mem s c n)
  show ?case unfolding memset.simps 2 by auto
qed auto

lemma memcpy_out: "x < d \<or> d + n \<le> x \<Longrightarrow> memcpy mem d s n x = mem x"
  by (induction mem d s n rule: memcpy.induct) auto

lemma memcpy_in: "{s..<s + n} \<inter> {d..<d + n} = {} \<Longrightarrow> k < n \<Longrightarrow> memcpy mem d s n (d + k) = mem (s + k)"
proof (induction mem d s n arbitrary: k rule: memcpy.induct)
  case (2 mem d s n)
  have apart: "s + k' \<noteq> d" if "k' < Suc n" for k'
    using 2(2) that by (auto simp: disjoint_iff)
  show ?case
  proof (cases k)
    case 0
    then show ?thesis by (simp add: memcpy_out)
  next
    case (Suc j)
    have "{s + 1..<s + 1 + n} \<inter> {d + 1..<d + 1 + n} = {}" using 2(2) by (auto simp: disjoint_iff)
    then have "memcpy (mem(d := mem s)) (d + 1) (s + 1) n (d + 1 + j) = (mem(d := mem s)) (s + 1 + j)"
      using 2(3) Suc by (intro 2(1)) auto
    then show ?thesis using Suc 2(3) apart [of "Suc j"] by simp
  qed
qed simp

lemma rd_moved:
  assumes "\<And>d. d < k \<Longrightarrow> mem (a + d) = mem' (b + d)"
  shows "rd mem k a = rd mem' k b"
proof -
  have "map mem [a..<a + k] = map mem' [b..<b + k]"
    by (rule nth_equalityI) (simp_all add: assms)
  then show ?thesis by (simp only: rd_def)
qed

lemma rd_bound: "k \<le> 8 \<Longrightarrow> rd mem k a < 2 ^ (8 * k)"
proof -
  assume k: "k \<le> 8"
  let ?w = "le_word (map mem [a..<a + k]) :: u64"
  have "take_bit (8 * k) ?w = ?w"
    by (rule bit_word_eqI) (auto simp: bit_take_bit_iff bit_le_word less_mult_imp_div_less div_less_iff_less_mult mult.commute)
  then have "take_bit (8 * k) (unat ?w) = unat ?w" by (metis unsigned_take_bit_eq)
  then show ?thesis unfolding rd_def by (metis take_bit_nat_less_exp)
qed

lemma rd_wr_other:
  "{a..<a + k} \<inter> {b..<b + j} = {} \<Longrightarrow> rd (wr mem j b w) k a = rd mem k a"
  by (rule rd_moved) (auto simp: wr_def disjoint_iff)

lemma rd_wr_same:
  assumes "LENGTH('a) = 8 * k" and "k \<le> 8"
  shows "rd (wr mem k a (w :: 'a :: len word)) k a = unat w"
proof -
  have "map (wr mem k a w) [a..<a + k] = word_bytes k w"
    by (rule nth_equalityI) (simp_all add: wr_def word_bytes_def)
  moreover have "(le_word (word_bytes k w) :: u64) = ucast w" using assms by (intro le_word_ucast) simp_all
  moreover have "unat (ucast w :: u64) = unat w" proof -
    have "unat w < 2 ^ LENGTH('a)" by (rule unsigned_less)
    also have "\<dots> \<le> (2 :: nat) ^ 64" using assms by (intro power_increasing) simp_all
    finally show ?thesis by (simp add: unsigned_ucast_eq take_bit_nat_eq_self)
  qed
  ultimately show ?thesis by (simp add: rd_def)
qed

lemma rd_memcpy_other: "{a..<a + k} \<inter> {d..<d + n} = {} \<Longrightarrow> rd (memcpy mem d s n) k a = rd mem k a"
  by (rule rd_moved, rule memcpy_out) (auto simp: disjoint_iff not_less [symmetric])

lemma rd_memcpy_in:
  "{s..<s + n} \<inter> {d..<d + n} = {} \<Longrightarrow> i + k \<le> n \<Longrightarrow> rd (memcpy mem d s n) k (d + i) = rd mem k (s + i)"
  by (rule rd_moved) (simp add: add.assoc memcpy_in)

end
