(* ===== verification/Multiboot.thy ===== *)
theory Multiboot
  imports Byte_Memory Regions Console
begin

text \<open>
  What the kernel takes from the boot loader (arch/X86_64/multiboot.c): the memory map, as the chain of
  regions the page allocator works on, the frame buffer, and the section headers. The memory is a
  function of the address; \<open>fresh k\<close> is what the \<open>k\<close>-th block that \<open>kmalloc\<close> gives out for a
  region contains, \<open>None\<close> for \<open>NULL\<close>.
\<close>

section \<open>The code\<close>

text \<open>\<open>struct multiboot_mmap_entry\<close>, packed.\<close>

record multiboot_mmap_entry =
  e_size :: nat
  e_addr :: nat
  e_len :: nat
  e_type :: nat

definition read_entry :: "(nat \<Rightarrow> u8) \<Rightarrow> nat \<Rightarrow> multiboot_mmap_entry" where
  "read_entry mem a =
     \<lparr>e_size = rd mem 4 a, e_addr = rd mem 8 (a + 4), e_len = rd mem 8 (a + 12), e_type = rd mem 4 (a + 20)\<rparr>"

definition MEM_REGION_READ :: u8 where "MEM_REGION_READ = 1"
definition MEM_REGION_WRITE :: u8 where "MEM_REGION_WRITE = 2"
definition MEM_REGION_PROTECTED :: u8 where "MEM_REGION_PROTECTED = 4"
definition MEM_REGION_MAPPED :: u8 where "MEM_REGION_MAPPED = 8"
definition MEM_REGION_BAD :: u8 where "MEM_REGION_BAD = 16"
definition MEM_REGION_PRESERVE :: u8 where "MEM_REGION_PRESERVE = 32"
definition MEM_REGION_AVAILABLE :: u8 where "MEM_REGION_AVAILABLE = 64"

lemmas mem_region_flags = MEM_REGION_READ_def MEM_REGION_WRITE_def MEM_REGION_PROTECTED_def
  MEM_REGION_MAPPED_def MEM_REGION_BAD_def MEM_REGION_PRESERVE_def MEM_REGION_AVAILABLE_def

text \<open>The switch over the type; an unknown type leaves what the heap block held.\<close>

definition type_attrib :: "nat \<Rightarrow> u8 \<Rightarrow> u8" where
  "type_attrib t old =
     (if t = 1 then MEM_REGION_AVAILABLE OR MEM_REGION_MAPPED OR MEM_REGION_READ OR MEM_REGION_WRITE
      else if t = 2 then MEM_REGION_PROTECTED
      else if t = 3 then MEM_REGION_PROTECTED OR MEM_REGION_MAPPED OR MEM_REGION_READ OR MEM_REGION_WRITE
      else if t = 4 then MEM_REGION_PRESERVE OR MEM_REGION_MAPPED OR MEM_REGION_READ OR MEM_REGION_WRITE
      else if t = 5 then MEM_REGION_BAD OR MEM_REGION_MAPPED OR MEM_REGION_PROTECTED
      else old)"

text \<open>The four fields that are set on every new region, and what an entry adds.\<close>

definition init_region :: "mregion \<Rightarrow> mregion" where
  "init_region r = r\<lparr>r_chain_length := 0, r_si_mapped := False, r_lock := 0\<rparr>"

definition set_entry :: "multiboot_mmap_entry \<Rightarrow> mregion \<Rightarrow> mregion" where
  "set_entry e r = r\<lparr>r_start := e_addr e, r_size := e_len e, r_attrib := type_attrib (e_type e) (r_attrib r)\<rparr>"

text \<open>
  The loop over the entries: the first one uses the head of the chain, block 0, which was set up before
  the loop in the same way, the others allocate a region of their own.
\<close>

function mmap_loop :: "(nat \<Rightarrow> u8) \<Rightarrow> (nat \<Rightarrow> mregion option) \<Rightarrow> nat \<Rightarrow> nat \<Rightarrow> mregion list \<Rightarrow> mregion list res" where
  "mmap_loop mem fresh limit ent regs =
     (if ent < limit then
        let e = read_entry mem ent
        in case fresh (length regs) of None \<Rightarrow> Inl NullDeref
           | Some r \<Rightarrow> mmap_loop mem fresh limit (ent + e_size e + 4) (regs @ [set_entry e (init_region r)])
      else Inr regs)"
  by pat_completeness auto
termination by (relation "measure (\<lambda>(_, _, limit, ent, _). limit - ent)") auto

declare mmap_loop.simps [simp del]

text \<open>
  The chain: its head is allocated before the loop, so it is there even when the map has no entry, and
  it counts the entries.
\<close>

definition mmap_chain :: "(nat \<Rightarrow> u8) \<Rightarrow> (nat \<Rightarrow> mregion option) \<Rightarrow> nat \<Rightarrow> nat \<Rightarrow> mregion list res" where
  "mmap_chain mem fresh mmap_addr mmap_length =
     (case fresh 0 of None \<Rightarrow> Inl NullDeref
      | Some head \<Rightarrow>
          and_then (mmap_loop mem fresh (mmap_addr + mmap_length) mmap_addr []) (\<lambda>regs.
            Inr (case regs of [] \<Rightarrow> [init_region head]
                 | r # rs \<Rightarrow> r\<lparr>r_chain_length := (length regs) mod 2 ^ 32\<rparr> # rs)))"

text \<open>
  \<open>struct multiboot_info\<close>, up to the description of the colours; of the union \<open>u\<close> the section header
  table, and the offsets the compiler gives the fields.
\<close>

record multiboot_info =
  mb_flags :: u32
  mem_lower :: nat
  mem_upper :: nat
  boot_device :: nat
  cmdline :: nat
  mods_count :: nat
  mods_addr :: nat
  elf_num :: nat
  elf_size :: nat
  elf_addr :: nat
  elf_shndx :: nat
  mmap_length :: nat
  mmap_addr :: nat
  drives_length :: nat
  drives_addr :: nat
  config_table :: nat
  boot_loader_name :: nat
  apm_table :: nat
  vbe_control_info :: nat
  vbe_mode_info :: nat
  vbe_mode :: nat
  vbe_interface_seg :: nat
  vbe_interface_off :: nat
  vbe_interface_len :: nat
  framebuffer_addr :: nat
  framebuffer_pitch :: nat
  framebuffer_width :: nat
  framebuffer_height :: nat
  framebuffer_bpp :: nat
  framebuffer_ty :: nat

definition read_info :: "(nat \<Rightarrow> u8) \<Rightarrow> nat \<Rightarrow> multiboot_info" where
  "read_info mem mbp =
     \<lparr>mb_flags = word_of_nat (rd mem 4 mbp),
      mem_lower = rd mem 4 (mbp + 4),
      mem_upper = rd mem 4 (mbp + 8),
      boot_device = rd mem 4 (mbp + 12),
      cmdline = rd mem 4 (mbp + 16),
      mods_count = rd mem 4 (mbp + 20),
      mods_addr = rd mem 4 (mbp + 24),
      elf_num = rd mem 4 (mbp + 28),
      elf_size = rd mem 4 (mbp + 32),
      elf_addr = rd mem 4 (mbp + 36),
      elf_shndx = rd mem 4 (mbp + 40),
      mmap_length = rd mem 4 (mbp + 44),
      mmap_addr = rd mem 4 (mbp + 48),
      drives_length = rd mem 4 (mbp + 52),
      drives_addr = rd mem 4 (mbp + 56),
      config_table = rd mem 4 (mbp + 60),
      boot_loader_name = rd mem 4 (mbp + 64),
      apm_table = rd mem 4 (mbp + 68),
      vbe_control_info = rd mem 4 (mbp + 72),
      vbe_mode_info = rd mem 4 (mbp + 76),
      vbe_mode = rd mem 2 (mbp + 80),
      vbe_interface_seg = rd mem 2 (mbp + 82),
      vbe_interface_off = rd mem 2 (mbp + 84),
      vbe_interface_len = rd mem 2 (mbp + 86),
      framebuffer_addr = rd mem 8 (mbp + 88),
      framebuffer_pitch = rd mem 4 (mbp + 96),
      framebuffer_width = rd mem 4 (mbp + 100),
      framebuffer_height = rd mem 4 (mbp + 104),
      framebuffer_bpp = rd mem 1 (mbp + 108),
      framebuffer_ty = rd mem 1 (mbp + 109)\<rparr>"

record boot_info =
  elf_sh :: "nat option"
  elf_sh_length :: nat
  fb_type :: framebuffer_type
  fb_address :: nat
  fb_width :: nat
  fb_height :: nat
  mmap :: "mregion list option"

definition fb_type_of :: "nat \<Rightarrow> framebuffer_type" where
  "fb_type_of t =
     (if t = 2 then EGA_TEXT else if t = 0 then INDEXED_COLOR else if t = 1 then DIRECT_RGB
      else FRAMEBUFFER_TYPE_LENGTH)"

definition boot_framebuffer :: "multiboot_info \<Rightarrow> boot_info \<Rightarrow> boot_info" where
  "boot_framebuffer i b =
     (if bit (mb_flags i) 12
      then b\<lparr>fb_type := fb_type_of (framebuffer_ty i), fb_address := framebuffer_addr i,
             fb_width := framebuffer_width i, fb_height := framebuffer_height i\<rparr>
      else b\<lparr>fb_type := FRAMEBUFFER_TYPE_LENGTH\<rparr>)"

definition MULTIBOOT_BOOTLOADER_MAGIC :: u32 where "MULTIBOOT_BOOTLOADER_MAGIC = 0x2BADB002"

text \<open>
  \<open>mbootInit\<close>; the search for the symbol tables that it starts on the section headers is in the theory
  Symbols, as \<open>boot_symbols\<close>.
\<close>

definition mbootInit :: "u32 \<Rightarrow> (nat \<Rightarrow> u8) \<Rightarrow> nat \<Rightarrow> (nat \<Rightarrow> mregion option) \<Rightarrow> boot_info \<Rightarrow> boot_info res" where
  "mbootInit mbm mem mbp fresh b =
     (if mbm \<noteq> MULTIBOOT_BOOTLOADER_MAGIC then Inl Panic
      else
        let i = read_info mem mbp;
            b = (if bit (mb_flags i) 5 then b\<lparr>elf_sh_length := elf_num i, elf_sh := Some (elf_addr i)\<rparr>
                 else b\<lparr>elf_sh := None, elf_sh_length := 0\<rparr>)
        in and_then (if bit (mb_flags i) 6
                     then and_then (mmap_chain mem fresh (mmap_addr i) (mmap_length i)) (\<lambda>c. Inr (b\<lparr>mmap := Some c\<rparr>))
                     else Inr (b\<lparr>mmap := None\<rparr>)) (\<lambda>b. Inr (boot_framebuffer i b)))"

text \<open>\<open>getMEMID\<close> of memory.c; a chain shorter than its count is a \<open>NULL\<close> pointer.\<close>

record MEMID =
  enabled :: bool
  nEntries :: nat
  totalSize :: nat

fun sum_sizes :: "mregion list \<Rightarrow> nat \<Rightarrow> nat \<Rightarrow> nat res" where
  "sum_sizes regs 0 t = Inr t"
| "sum_sizes [] (Suc n) t = Inl NullDeref"
| "sum_sizes (r # rs) (Suc n) t = sum_sizes rs n (add64 t (r_size r))"

definition getMEMID :: "mregion list option \<Rightarrow> MEMID \<Rightarrow> MEMID res" where
  "getMEMID regs m =
     (case regs of None \<Rightarrow> Inr (m\<lparr>enabled := False\<rparr>)
      | Some [] \<Rightarrow> Inl NullDeref
      | Some (r # rs) \<Rightarrow>
          and_then (sum_sizes (r # rs) (r_chain_length r) 0) (\<lambda>t.
            Inr (m\<lparr>nEntries := r_chain_length r, totalSize := t\<rparr>)))"

section \<open>The chain of regions\<close>

text \<open>The entries that lie between two addresses of the memory, one after the other.\<close>

fun entries_at :: "(nat \<Rightarrow> u8) \<Rightarrow> nat \<Rightarrow> multiboot_mmap_entry list \<Rightarrow> nat \<Rightarrow> bool" where
  "entries_at mem a [] limit = (limit \<le> a)"
| "entries_at mem a (e # es) limit = (a < limit \<and> read_entry mem a = e \<and> entries_at mem (a + e_size e + 4) es limit)"

text \<open>A region that says of an entry what the allocator has to know.\<close>

definition region_of :: "multiboot_mmap_entry \<Rightarrow> mregion \<Rightarrow> bool" where
  "region_of e r \<longleftrightarrow> r_start r = e_addr e \<and> r_size r = e_len e \<and> r_lock r = 0 \<and> \<not> r_si_mapped r \<and>
     (region_usable r \<longleftrightarrow> e_type e = 1 \<and> page_size \<le> e_len e)"

lemma region_of_chain [simp]: "region_of e (r\<lparr>r_chain_length := n\<rparr>) = region_of e r"
  by (simp add: region_of_def region_usable_def)

lemma region_of_entry:
  assumes "e_type e \<in> {1..5}"
  shows "region_of e (set_entry e (init_region r))"
proof -
  have "e_type e = 1 \<or> e_type e = 2 \<or> e_type e = 3 \<or> e_type e = 4 \<or> e_type e = 5"
    using assms by auto
  then show ?thesis
    by (auto simp: region_of_def set_entry_def init_region_def region_usable_def type_attrib_def mem_region_flags)
qed

lemma mmap_loop_ok:
  assumes "\<And>k. fresh k \<noteq> None" and "\<And>e. e \<in> set es \<Longrightarrow> e_type e \<in> {1..5}" and "entries_at mem a es limit"
  shows "\<exists>rs. mmap_loop mem fresh limit a regs = Inr (regs @ rs) \<and> list_all2 region_of es rs"
  using assms(2,3)
proof (induction es arbitrary: a regs)
  case Nil
  then show ?case by (subst mmap_loop.simps) simp
next
  case (Cons e es)
  obtain r where r: "fresh (length regs) = Some r" using assms(1) by blast
  let ?r = "set_entry e (init_region r)"
  obtain rs where rs: "mmap_loop mem fresh limit (a + e_size e + 4) (regs @ [?r]) = Inr ((regs @ [?r]) @ rs)"
    "list_all2 region_of es rs"
    using Cons.IH [of "a + e_size e + 4" "regs @ [?r]"] Cons.prems by auto
  have "mmap_loop mem fresh limit a regs = Inr (regs @ ?r # rs)"
    using Cons.prems(2) r rs(1) by (subst mmap_loop.simps) (simp add: Let_def)
  moreover have "region_of e ?r" using Cons.prems(1) by (intro region_of_entry) simp
  ultimately show ?case using rs(2) by (intro exI [of _ "?r # rs"]) simp
qed

lemma sum_sizes_all: "sum_sizes regs (length regs) t = Inr (fold (\<lambda>r t. add64 t (r_size r)) regs t)"
  by (induction regs arbitrary: t) simp_all

lemma fold_add64: "t < 2 ^ 64 \<Longrightarrow> fold (\<lambda>r t. add64 t (r_size r)) regs t = (t + sum_list (map r_size regs)) mod 2 ^ 64"
proof (induction regs arbitrary: t)
  case (Cons r regs)
  then show ?case using add64_less [of t "r_size r"] by (simp add: add64_def mod_add_left_eq add.assoc)
qed simp

lemma memory_map_chain:
  assumes "\<And>k. fresh k \<noteq> None" and "\<And>e. e \<in> set es \<Longrightarrow> e_type e \<in> {1..5}"
    and "entries_at mem addr es (addr + len)" and "es \<noteq> []" and "length es < 2 ^ 32"
  shows "\<exists>rs. mmap_chain mem fresh addr len = Inr rs \<and> list_all2 region_of es rs \<and>
    r_chain_length (hd rs) = length es \<and>
    getMEMID (Some rs) m = Inr (m\<lparr>nEntries := length es, totalSize := sum_list (map e_len es) mod 2 ^ 64\<rparr>)"
proof -
  obtain rs where rs: "mmap_loop mem fresh (addr + len) addr [] = Inr rs" "list_all2 region_of es rs"
    using mmap_loop_ok [where fresh = fresh and regs = "[]", OF assms(1,2,3)] by auto
  then obtain r rs' where cons: "rs = r # rs'" using assms(4) by (cases rs) auto
  obtain h where h: "fresh 0 = Some h" using assms(1) by blast
  have len: "length rs = length es" using rs(2) by (simp add: list_all2_lengthD)
  define cs where "cs = r\<lparr>r_chain_length := length es\<rparr> # rs'"
  have "mmap_chain mem fresh addr len = Inr cs"
    using rs(1) h cons len assms(5) by (simp add: mmap_chain_def cs_def)
  moreover have all: "list_all2 region_of es cs"
    using rs(2) cons by (cases es) (simp_all add: cs_def)
  moreover have "map r_size cs = map e_len es"
    using all by (induction rule: list_all2_induct) (simp_all add: region_of_def)
  moreover have "sum_sizes cs (length es) 0 = Inr (sum_list (map r_size cs) mod 2 ^ 64)"
  proof -
    have "length cs = length es" using all by (simp add: list_all2_lengthD)
    then show ?thesis using sum_sizes_all [of cs 0] fold_add64 [of 0 cs] by simp
  qed
  ultimately show ?thesis by (intro exI [of _ cs]) (simp add: cs_def getMEMID_def)
qed

text \<open>
  C24. The boot loader's memory map becomes the allocator's chain: one region for each entry, in order, with
  its start and size, usable exactly when the entry is available memory of at least a page; the
  head counts them, and \<open>getMEMID\<close> then reports their number and the sum of their sizes.
\<close>

theorem memory_map_becomes_chain:
  assumes "\<And>k. fresh k \<noteq> None" and "\<And>e. e \<in> set es \<Longrightarrow> e_type e \<in> {1..5}"
    and "entries_at mem addr es (addr + len)" and "es \<noteq> []" and "length es < 2 ^ 32"
  shows "\<exists>rs. mmap_chain mem fresh addr len = Inr rs \<and> list_all2 region_of es rs \<and>
    r_chain_length (hd rs) = length es \<and>
    getMEMID (Some rs) m = Inr (m\<lparr>nEntries := length es, totalSize := sum_list (map e_len es) mod 2 ^ 64\<rparr>)"
  by (rule memory_map_chain [OF assms])

text \<open>A map of one entry: 32 MiB of available memory from 1 MiB on.\<close>

definition demo_map :: "nat \<Rightarrow> u8" where
  "demo_map a =
     (if a < 24 then [20, 0, 0, 0, 0, 0, 16, 0, 0, 0, 0, 0, 0, 0, 0, 2, 0, 0, 0, 0, 1, 0, 0, 0] ! a else 0)"

definition demo_junk :: mregion where
  "demo_junk = \<lparr>r_start = 7, r_size = 7, r_attrib = 7, r_pages_total = 7, r_pages_free = 7, r_mem_full = True,
     r_si_mapped = True, r_page_alloc_si = undefined, r_chain_length = 7, r_lock = 7\<rparr>"

lemma demo_entry:
  "read_entry demo_map 0 = \<lparr>e_size = 20, e_addr = 0x100000, e_len = 0x2000000, e_type = 1\<rparr>"
  by (simp add: read_entry_def rd_def demo_map_def upt_conv_Cons)

theorem memory_map_becomes_chain_witness:
  "\<exists>r. mmap_chain demo_map (\<lambda>_. Some demo_junk) 0 24 = Inr [r] \<and> region_usable r \<and> r_start r = 0x100000"
proof -
  have "entries_at demo_map 0 [read_entry demo_map 0] (0 + 24)" by (simp add: demo_entry)
  from memory_map_becomes_chain [where fresh = "\<lambda>_. Some demo_junk", OF _ _ this] demo_entry
  obtain rs where rs: "mmap_chain demo_map (\<lambda>_. Some demo_junk) 0 24 = Inr rs"
    "list_all2 region_of [read_entry demo_map 0] rs" by auto
  then obtain r where "rs = [r]" "region_of (read_entry demo_map 0) r" by (auto simp: list_all2_Cons1)
  with rs(1) demo_entry show ?thesis by (simp add: region_of_def page_size_def)
qed

end
