(* ===== verification/Boot_Memory.thy ===== *)
theory Boot_Memory
  imports Buddy_Reserve Page_Allocator Log_Order Vpages Multiboot
begin

text \<open>
  How the page allocator starts: \<open>ppage_init\<close> of kernel/page.c chooses the region that holds the tables
  of all regions, maps every region, and has \<open>mem_p_protect\<close> of arch/X86_64/memory.c reserve
  the low memory and the boot loader's structure. \<open>tables j\<close> is what the memory for the table of
  region \<open>j\<close> holds before.
\<close>

section \<open>The code\<close>

definition mboot_info_size :: nat where "mboot_info_size = 116"
definition LM_SIZE :: nat where "LM_SIZE = 0x100000"
definition mm_sb_size :: nat where "mm_sb_size = 256"

definition page_count :: "nat \<Rightarrow> nat" where
  "page_count res_size = add64 res_size (page_size - 1) div page_size"

definition protect_low :: "mregion \<Rightarrow> mregion res" where
  "protect_low r =
     (if r_start r < 0x200000 then
        let res_size = 0x200000 - r_start r;
            res_size = (if res_size > r_size r then r_size r else res_size)
        in and_then (pages_reserve r (log_order (page_count res_size)) (r_start r div page_size)) (\<lambda>(r, _). Inr r)
      else Inr r)"

definition protect_boot_info :: "nat \<Rightarrow> mregion \<Rightarrow> mregion res" where
  "protect_boot_info mbp r =
     (if r_start r < mbp + mboot_info_size \<and> add64 (r_start r) (r_size r) > mbp then
        let start = (if r_start r > mbp then r_start r else mbp);
            res_size = mboot_info_size - (start - mbp);
            res_size = (if sub64 (r_size r) (start - r_start r) < res_size then sub64 (r_size r) (start - r_start r)
                        else res_size)
        in and_then (pages_reserve r (log_order (page_count res_size)) ((start - r_start r) div page_size)) (\<lambda>(r, _). Inr r)
      else Inr r)"

definition mem_p_protect :: "nat \<Rightarrow> mregion \<Rightarrow> mregion res" where
  "mem_p_protect mbp r = and_then (protect_low r) (protect_boot_info mbp)"

definition TOTAL_PAGE_TABLE_SIZE :: "nat \<Rightarrow> nat" where
  "TOTAL_PAGE_TABLE_SIZE msize = (msize div page_size * BITS_PER_PAGE) div 8"

text \<open>The loop \<open>regup\<close>; \<open>None\<close> where the code panics.\<close>

function choose_region :: "mregion list \<Rightarrow> nat \<Rightarrow> nat \<Rightarrow> nat option" where
  "choose_region rs msize i =
     (case findNextRegion rs (if i < length rs then Some i else None) of
        None \<Rightarrow> None
      | Some j \<Rightarrow>
          if r_size (rs ! j) < TOTAL_PAGE_TABLE_SIZE msize \<or> r_start (rs ! j) < LM_SIZE
          then (if i \<le> j \<and> j < length rs then choose_region rs msize (Suc j) else None)
          else Some j)"
  by pat_completeness auto
termination by (relation "measure (\<lambda>(rs, _, i). length rs - i)") auto

declare choose_region.simps [simp del]

definition region_pages :: "mregion \<Rightarrow> nat" where
  "region_pages r = r_size r div page_size"

definition map_and_protect :: "nat \<Rightarrow> mregion \<Rightarrow> (nat \<Rightarrow> u8) \<Rightarrow> mregion res" where
  "map_and_protect mbp r table = and_then (region_map r (region_pages r) table) (mem_p_protect mbp)"

text \<open>One of the other regions: its tables come from the region \<open>a\<close> chosen first.\<close>

definition map_other :: "nat \<Rightarrow> nat \<Rightarrow> (nat \<Rightarrow> u8) \<Rightarrow> nat \<Rightarrow> mregion list \<times> vpages \<Rightarrow> (mregion list \<times> vpages) res option" where
  "map_other mbp a table j s =
     (case s of (rs, v) \<Rightarrow>
      let pages = region_pages (rs ! j) in
      if j = a then Some (Inr (rs, v))
      else if pages = 0 then Some (Inr (rs[j := (rs ! j)\<lparr>r_mem_full := True\<rparr>], v))
      else
        let tbl_o = log_order (page_count ((pages * BITS_PER_PAGE + 7) div 8));
            sb_o = log_order (page_count mm_sb_size)
        in case and_then (pages_alloc (rs ! a) sb_o) (\<lambda>(ra, pa_sb).
                and_then (pages_alloc ra tbl_o) (\<lambda>(ra, pa_tbl). Inr (ra, pa_sb, pa_tbl))) of
             Inl e \<Rightarrow> Some (Inl e)
           | Inr (ra, pa_sb, pa_tbl) \<Rightarrow>
               let rs = rs[a := ra] in
               (case vpages_map v (word_of_nat pa_tbl) tbl_o 0 of None \<Rightarrow> None | Some (Inl e) \<Rightarrow> Some (Inl e)
                | Some (Inr (v, regst)) \<Rightarrow>
                   (case vpages_map v (word_of_nat pa_sb) sb_o 0 of None \<Rightarrow> None | Some (Inl e) \<Rightarrow> Some (Inl e)
                    | Some (Inr (v, regsb)) \<Rightarrow>
                        if regst = 0 \<or> regsb = 0 then Some (Inl NullDeref)
                        else (case map_and_protect mbp (rs ! j) table of Inl e \<Rightarrow> Some (Inl e)
                              | Inr r \<Rightarrow> Some (Inr (rs[j := r], v))))))"

fun map_others :: "nat \<Rightarrow> nat \<Rightarrow> (nat \<Rightarrow> nat \<Rightarrow> u8) \<Rightarrow> nat \<Rightarrow> nat \<Rightarrow> mregion list \<times> vpages \<Rightarrow> (mregion list \<times> vpages) res option" where
  "map_others mbp a tables j 0 s = Some (Inr s)"
| "map_others mbp a tables j (Suc n) s =
     (case map_other mbp a (tables j) j s of Some (Inr s) \<Rightarrow> map_others mbp a tables (Suc j) n s | r \<Rightarrow> r)"

text \<open>
  \<open>heap_serves\<close>: whether the two calls of \<open>kmalloc\<close> for the first region's tables succeed.
\<close>

definition ppage_init :: "nat \<Rightarrow> nat \<Rightarrow> bool \<Rightarrow> (nat \<Rightarrow> nat \<Rightarrow> u8) \<Rightarrow> mregion list \<Rightarrow> vpages \<Rightarrow> (pages_state \<times> vpages) res option" where
  "ppage_init mbp msize heap_serves tables rs v =
     (case choose_region rs msize 0 of None \<Rightarrow> Some (Inl Panic)
      | Some a \<Rightarrow>
          if \<not> heap_serves then Some (Inl Panic)
          else case map_and_protect mbp (rs ! a) (tables a) of Inl e \<Rightarrow> Some (Inl e)
          | Inr r \<Rightarrow>
              (case map_others mbp a tables 0 (length rs) (rs[a := r], v) of None \<Rightarrow> None | Some (Inl e) \<Rightarrow> Some (Inl e)
               | Some (Inr (rs, v)) \<Rightarrow>
                   let (s, n) = findFreeRegion \<lparr>regions = rs, next_region = Some a, outOfMem = False\<rparr> (head_ptr rs)
                   in Some (Inr (s\<lparr>next_region := n\<rparr>, v))))"

section \<open>Choosing the region for the tables\<close>

definition fits_tables :: "nat \<Rightarrow> mregion \<Rightarrow> bool" where
  "fits_tables msize r \<longleftrightarrow> region_usable r \<and> TOTAL_PAGE_TABLE_SIZE msize \<le> r_size r \<and> LM_SIZE \<le> r_start r"

lemma is_first_from:
  assumes "is_first P j n res" and "i \<le> j" and "\<And>l. i \<le> l \<Longrightarrow> l < j \<Longrightarrow> \<not> P l"
  shows "is_first P i n res"
proof (cases res)
  case None
  with assms(1) have n: "\<not> P l" if "j \<le> l" "l < n" for l using that by (simp add: is_first_def)
  have "\<not> P l" if "i \<le> l" "l < n" for l
    using that n [of l] assms(3) [of l] by (cases "l < j") simp_all
  with None show ?thesis by (simp add: is_first_def)
next
  case (Some x)
  with assms(1) have x: "j \<le> x" "x < n" "P x" and n: "\<And>l. j \<le> l \<Longrightarrow> l < x \<Longrightarrow> \<not> P l"
    by (simp_all add: is_first_def)
  have "\<not> P l" if "i \<le> l" "l < x" for l
    using that n [of l] assms(3) [of l] by (cases "l < j") simp_all
  with x assms(2) Some show ?thesis by (simp add: is_first_def)
qed

lemma choose_region_first:
  "is_first (\<lambda>l. fits_tables msize (rs ! l)) i (length rs) (choose_region rs msize i)"
proof (induction rs msize i rule: choose_region.induct)
  case (1 rs msize i)
  let ?next = "findNextRegion rs (if i < length rs then Some i else None)"
  show ?case
  proof (cases "i < length rs")
    case False
    then show ?thesis by (subst choose_region.simps) (simp add: findNextRegion_def is_first_end)
  next
    case True
    then have first: "is_first (\<lambda>l. region_usable (rs ! l)) i (length rs) ?next"
      using find_next_from_first by (simp add: findNextRegion_def)
    show ?thesis
    proof (cases ?next)
      case None
      with first show ?thesis by (subst choose_region.simps) (simp add: is_first_def fits_tables_def)
    next
      case (Some j)
      with first have j: "i \<le> j" "j < length rs" "region_usable (rs ! j)" "\<And>l. i \<le> l \<Longrightarrow> l < j \<Longrightarrow> \<not> region_usable (rs ! l)"
        by (auto simp: is_first_def)
      show ?thesis
      proof (cases "r_size (rs ! j) < TOTAL_PAGE_TABLE_SIZE msize \<or> r_start (rs ! j) < LM_SIZE")
        case True
        have later: "is_first (\<lambda>l. fits_tables msize (rs ! l)) (Suc j) (length rs) (choose_region rs msize (Suc j))"
          using "1.IH" [OF Some True] j(1,2) by simp
        have below: "\<not> fits_tables msize (rs ! l)" if "i \<le> l" "l < Suc j" for l
          using that j(4) True by (auto simp: fits_tables_def less_Suc_eq)
        have "is_first (\<lambda>l. fits_tables msize (rs ! l)) i (length rs) (choose_region rs msize (Suc j))"
          by (rule is_first_from [OF later le_SucI [OF j(1)] below])
        with Some True j(1,2) show ?thesis by (subst choose_region.simps) simp
      next
        case False
        with Some j show ?thesis by (subst choose_region.simps) (auto simp: is_first_def fits_tables_def)
      qed
    qed
  qed
qed

section \<open>What is protected\<close>

lemma half_free_pages:
  assumes "buddy_inv m" and "(Suc k, i) \<in> blocks_of m"
  defines "m2 \<equiv> reserve_bit k (2 * i) (zsplit_at (Suc k) i m)"
  shows "free_pages_of m2 = free_pages_of m - block_pages (k, 2 * i)"
    and "(j, b) \<in> blocks_of m \<Longrightarrow> (j, b) \<noteq> (Suc k, i) \<Longrightarrow> (j, b) \<in> blocks_of m2"
proof -
  have k: "Suc k < MAX_ORDER" "i \<in> free_blocks m (Suc k)" using assms(2) by simp_all
  note bits = reserve_half_bits(2) [OF assms(1,2), folded m2_def]
  have absent: "2 * i \<notin> free_blocks m k" using free_halves_absent(1) [OF assms(1) k] .
  have "blocks_of m2 = split_block (Suc k) i (blocks_of m) - {(k, 2 * i)}"
    using bits absent k(1) by (auto simp: split_block_def split: if_splits)
  moreover have "(k, 2 * i) \<in> split_block (Suc k) i (blocks_of m)" by (simp add: split_block_def)
  ultimately show "free_pages_of m2 = free_pages_of m - block_pages (k, 2 * i)"
    unfolding free_pages_of_def
    using split_block_ok [OF buddy_invD(3) [OF assms(1)] assms(2)] covered_remove by metis
  show "(j, b) \<in> blocks_of m \<Longrightarrow> (j, b) \<noteq> (Suc k, i) \<Longrightarrow> (j, b) \<in> blocks_of m2"
    using bits by auto
qed

lemma log_order_256: "log_order 256 = 8"
  using log_order_high [of 8 256] by simp

lemma mem_p_protect_at_1M:
  assumes "region_inv r" and "r_start r = 0x100000" and "0x100000 \<le> r_size r" and "mbp + mboot_info_size \<le> 0x100000"
    and "(9, 128) \<in> blocks_of (r_page_alloc_si r)"
  shows "\<exists>r'. mem_p_protect mbp r = Inr r' \<and>
    r_page_alloc_si r' = reserve_bit 8 256 (zsplit_at 9 128 (r_page_alloc_si r)) \<and> r_start r' = r_start r \<and>
    r_size r' = r_size r \<and> r_attrib r' = r_attrib r \<and> r_lock r' = 0 \<and> r_si_mapped r' \<and>
    r_mem_full r' = (r_mem_full r \<or> r_pages_free r \<le> 256)"
proof -
  have blk: "(Suc 8, 128) \<in> blocks_of (r_page_alloc_si r)" using assms(5) by (simp del: in_blocks_of)
  from pages_reserve_half [OF assms(1) blk] obtain r' where
    r': "pages_reserve r 8 256 = Inr (r', r_start r + page_size * (2 ^ 8 * 256))"
    "r_page_alloc_si r' = reserve_bit 8 256 (zsplit_at 9 128 (r_page_alloc_si r))"
    "r_start r' = r_start r" "r_size r' = r_size r" "r_attrib r' = r_attrib r" "r_lock r' = 0" "r_si_mapped r'"
    "r_mem_full r' = (r_mem_full r \<or> r_pages_free r \<le> 256)"
    by auto
  have "page_count 0x100000 = 256" by (simp add: page_count_def page_size_def wrap_simps)
  then have "protect_low r = Inr r'"
    using assms(2,3) r'(1) log_order_256 by (simp add: protect_low_def page_size_def)
  moreover have "protect_boot_info mbp r' = Inr r'"
    using assms(2,4) r'(3) by (simp add: protect_boot_info_def)
  ultimately show ?thesis using r' by (simp add: mem_p_protect_def)
qed

text \<open>The region \<open>r\<close> lies at 1 MiB, where the kernel is loaded, and reaches beyond 258 MiB.\<close>

definition kernel_region :: "mregion \<Rightarrow> nat \<Rightarrow> bool" where
  "kernel_region r pages \<longleftrightarrow> region_usable r \<and> r_lock r = 0 \<and> r_start r = 0x100000 \<and> r_size r = pages * page_size \<and>
     4096 dvd pages \<and> 66048 \<le> pages \<and> 0x100000 + page_size * pages < 2 ^ 64"

lemma kernel_region_blocks:
  assumes "kernel_region r pages"
  shows "(9, 128) \<in> low_blocks pages MAX_ORDER" and "(9, 0) \<in> low_blocks pages MAX_ORDER"
    and "j < 9 \<Longrightarrow> init_blocks pages j = {}"
proof -
  have "66048 div 2 ^ 9 \<le> pages div 2 ^ 9" using assms by (intro div_le_mono) (simp add: kernel_region_def)
  then show "(9, 128) \<in> low_blocks pages MAX_ORDER" "(9, 0) \<in> low_blocks pages MAX_ORDER"
    by (simp_all add: low_blocks_def init_blocks_def)
  assume j: "j < 9"
  obtain q where "pages = 4096 * q" using assms by (auto simp: kernel_region_def elim: dvdE)
  moreover have "(4096 :: nat) = 2 ^ (11 - j) * 2 * 2 ^ j"
    using j power_add [of "2 :: nat" j "11 - j"] by simp
  ultimately have "pages = 2 ^ (11 - j) * 2 * q * 2 ^ j" by simp
  then have "pages div 2 ^ j = 2 ^ (11 - j) * 2 * q" by (metis nonzero_mult_div_cancel_right power_not_zero zero_neq_numeral)
  then show "init_blocks pages j = {}" using j by (simp add: init_blocks_def)
qed

lemma ppage_init_at_1M:
  assumes r: "kernel_region r pages" and "mbp + 116 \<le> 0x100000" and "msize \<le> r_size r"
  shows "\<exists>m r'. ppage_init mbp msize True tables [r] v =
      Some (Inr (\<lparr>regions = [r'], next_region = Some 0, outOfMem = False\<rparr>, v)) \<and>
    buddy_inv m \<and> blocks_of m = low_blocks pages MAX_ORDER \<and> free_pages_of m = {..<pages} \<and>
    r_page_alloc_si r' = reserve_bit 8 256 (zsplit_at 9 128 m) \<and> r_start r' = 0x100000 \<and> r_lock r' = 0 \<and>
    r_si_mapped r' \<and> \<not> r_mem_full r' \<and> r_size r' = r_size r"
proof -
  have size: "page_size = 4096" by (simp add: page_size_def)
  have k: "region_usable r" "r_lock r = 0" "r_start r = 0x100000" "r_size r = pages * page_size"
    "4096 dvd pages" "66048 \<le> pages" "0x100000 + page_size * pages < 2 ^ 64"
    using r by (simp_all add: kernel_region_def)
  have "msize div page_size * BITS_PER_PAGE div 8 \<le> msize" by (simp add: size BITS_PER_PAGE_def)
  then have "TOTAL_PAGE_TABLE_SIZE msize \<le> r_size r" using assms(3) by (simp add: TOTAL_PAGE_TABLE_SIZE_def)
  then have "fits_tables msize r" using k(1,3) by (simp add: fits_tables_def LM_SIZE_def)
  then have choose: "choose_region [r] msize 0 = Some 0"
    using is_first_unique [OF choose_region_first [of msize "[r]" 0] is_first_here] by simp
  have pages: "region_pages r = pages" using k(4) by (simp add: region_pages_def size)
  obtain q where q: "region_map r pages (tables 0) = Inr q" "region_inv q"
    "free_pages_of (r_page_alloc_si q) = {..<pages}" "r_pages_free q = pages" "\<not> r_mem_full q"
    "r_start q = r_start r" "r_size q = r_size r" "r_attrib q = r_attrib r"
    "blocks_of (r_page_alloc_si q) = low_blocks pages MAX_ORDER"
    using region_map_ok [OF k(2) table_fits_dvd [OF k(5)], of "tables 0"] k(3,7) by auto
  obtain r' where r': "mem_p_protect mbp q = Inr r'"
    "r_page_alloc_si r' = reserve_bit 8 256 (zsplit_at 9 128 (r_page_alloc_si q))" "r_start r' = r_start q"
    "r_size r' = r_size q" "r_attrib r' = r_attrib q" "r_lock r' = 0" "r_si_mapped r'"
    "r_mem_full r' = (r_mem_full q \<or> r_pages_free q \<le> 256)"
    using mem_p_protect_at_1M [OF q(2), of mbp] q(6,7,9) k(3,4,6) assms(2) kernel_region_blocks(1) [OF r]
    by (auto simp: size mboot_info_size_def simp del: in_blocks_of)
  have "serving r'"
    using r'(4,5,8) q(4,5,7,8) k(1,6) by (simp add: serving_def region_usable_def)
  then have "find_free_from_region [r'] (Some 0) = Some 0"
    using is_first_unique [OF find_free_from_region_first [of "[r']" 0] is_first_here] by simp
  then have "ppage_init mbp msize True tables [r] v =
      Some (Inr (\<lparr>regions = [r'], next_region = Some 0, outOfMem = False\<rparr>, v))"
    using choose q(1) r'(1) pages
    by (simp add: ppage_init_def map_and_protect_def map_other_def findFreeRegion_def head_ptr_def)
  moreover have "buddy_inv (r_page_alloc_si q)" using q(2) by (simp add: region_inv_def)
  moreover have "\<not> r_mem_full r'" using r'(8) q(4,5) k(6) by simp
  ultimately show ?thesis using r' q(3,6,7,9) k(3) by (intro exI [of _ "r_page_alloc_si q"] exI [of _ r']) simp
qed

text \<open>
  C19. On the machine as it boots, with the kernel loaded at 1 MiB, \<open>ppage_init\<close> leaves the kernel's own
  memory free: for a region that starts at 1 MiB and reaches beyond 258 MiB it returns with exactly
  the pages 65536 to 65791 of the region reserved, one megabyte at 257 MiB, because the offset it
  hands to \<open>pages_reserve\<close> is the page's number from address 0 and not from the start of the
  region. The first 512 pages, where the kernel lies, are one free block.
\<close>

theorem ppage_init_leaves_kernel_free:
  assumes "kernel_region r pages" and "mbp + 116 \<le> 0x100000" and "msize \<le> r_size r"
  shows "\<exists>s' r'. ppage_init mbp msize True tables [r] v = Some (Inr (s', v)) \<and> regions s' = [r'] \<and>
    next_region s' = Some 0 \<and> r_start r' = 0x100000 \<and>
    free_pages_of (r_page_alloc_si r') = {..<pages} - {65536..<65792} \<and>
    (9, 0) \<in> blocks_of (r_page_alloc_si r') \<and> block_pages (9, 0) = {..<512}"
proof -
  obtain m r' where r': "ppage_init mbp msize True tables [r] v =
      Some (Inr (\<lparr>regions = [r'], next_region = Some 0, outOfMem = False\<rparr>, v))"
    "buddy_inv m" "blocks_of m = low_blocks pages MAX_ORDER" "free_pages_of m = {..<pages}"
    "r_page_alloc_si r' = reserve_bit 8 256 (zsplit_at 9 128 m)" "r_start r' = 0x100000"
    using ppage_init_at_1M [OF assms] by blast
  have blk: "(Suc 8, 128) \<in> blocks_of m" "(9, 0) \<in> blocks_of m"
    using kernel_region_blocks(1,2) [OF assms(1)] r'(3) by simp_all
  have "free_pages_of (r_page_alloc_si r') = {..<pages} - {65536..<65792}"
    using half_free_pages(1) [OF r'(2) blk(1)] r'(4,5) by simp
  moreover have "(9, 0) \<in> blocks_of (r_page_alloc_si r')"
    using half_free_pages(2) [OF r'(2) blk(1) blk(2)] r'(5) by (simp del: in_blocks_of)
  ultimately show ?thesis
    using r'(1,6) by (intro exI conjI) (auto simp del: in_blocks_of simp: lessThan_atLeast0)
qed

definition demo_vpages :: vpages where
  "demo_vpages = \<lparr>vp_vm = demo_vm, next_free_vpage = 0\<rparr>"

lemma demo_kernel_region: "kernel_region (blank_region 0x100000 69632) 69632"
  by (simp add: kernel_region_def region_usable_def blank_region_def page_size_def)

theorem ppage_init_leaves_kernel_free_witness:
  "\<exists>s' r'. ppage_init 0x9500 (69632 * page_size) True (\<lambda>_ _. 0) [blank_region 0x100000 69632] demo_vpages = Some (Inr (s', demo_vpages)) \<and>
     regions s' = [r'] \<and> (9, 0) \<in> blocks_of (r_page_alloc_si r')"
  using ppage_init_leaves_kernel_free [OF demo_kernel_region, of "0x9500" "69632 * page_size" "\<lambda>_ _. 0" demo_vpages]
  by (simp add: blank_region_def del: in_blocks_of) blast

end
