(* ===== verification/Cpu.thy ===== *)
theory Cpu
  imports Bytes Printk
begin

text \<open>
  The identification of the processor, \<open>getCPUINFO\<close> of arch/X86_64/cpu.c. What the instruction answers is an
  argument: whether it is there at all (\<open>CPUID_enabled\<close>), the registers of leaf 0 in the order in which
  \<open>CPUID_manufacturer\<close> stores them, and the three registers of leaf 1 that \<open>CPUID_Info\<close> stores.
\<close>

datatype Manufacturer =
  OLDAMD | AMD | INTEL | VIA | OLDTRANSMETA | TRANSMETA | CYRIX | CENTAUR | NEXGEN | UMC | SIS | NSC | RISE
  | VORTEX | HYGON | VMWARE | XENHVM | MICROSOFT_MV | PARALLELS | BHYVE | KVM | ACRN | UNKNOWN

text \<open>\<open>asp\<close>: the pointer to the properties of the architecture has been set to \<open>x64ID\<close>.\<close>

record CPUINFO =
  cpu_enabled :: bool
  asp :: bool
  vendor :: Manufacturer
  isVM :: bool

record X64_CPUID =
  vendor_string :: "u8 list"
  id_apic :: u8
  FI_EDX :: u32
  FI_ECX :: u32

text \<open>The bytes of a string literal, without its terminator.\<close>

definition bytes_of :: "string \<Rightarrow> u8 list" where
  "bytes_of s = map of_char s"

text \<open>The vendor strings of cpu.h; there is none for a vendor that is not known.\<close>

fun CPUID_VENDOR :: "Manufacturer \<Rightarrow> string" where
  "CPUID_VENDOR OLDAMD = ''AMDisbetter!''"
| "CPUID_VENDOR AMD = ''AuthenticAMD''"
| "CPUID_VENDOR INTEL = ''GenuineIntel''"
| "CPUID_VENDOR OLDTRANSMETA = ''TransmetaCPU''"
| "CPUID_VENDOR TRANSMETA = ''GenuineTMx86''"
| "CPUID_VENDOR CYRIX = ''CyrixInstead''"
| "CPUID_VENDOR CENTAUR = ''CentaurHauls''"
| "CPUID_VENDOR NEXGEN = ''NexGenDriven''"
| "CPUID_VENDOR UMC = ''UMC UMC UMC ''"
| "CPUID_VENDOR SIS = ''SiS SiS SiS ''"
| "CPUID_VENDOR NSC = ''Geode by NSC''"
| "CPUID_VENDOR RISE = ''RiseRiseRise''"
| "CPUID_VENDOR VORTEX = ''Vortex86 SoC''"
| "CPUID_VENDOR VIA = ''VIA VIA VIA ''"
| "CPUID_VENDOR HYGON = ''HygonGenuine''"
| "CPUID_VENDOR VMWARE = ''VMwareVMware''"
| "CPUID_VENDOR XENHVM = ''XenVMMXenVMM''"
| "CPUID_VENDOR MICROSOFT_MV = ''Microsoft Hv''"
| "CPUID_VENDOR PARALLELS = '' lrpepyh vr''"
| "CPUID_VENDOR BHYVE = ''bhyve bhyve ''"
| "CPUID_VENDOR KVM = ''KVMKVMKVMKVM''"
| "CPUID_VENDOR ACRN = ''ACRNACRNACRN''"
| "CPUID_VENDOR UNKNOWN = ''''"

text \<open>The comparisons in the order of the code, with the vendor each of them sets.\<close>

definition vendor_branches :: "(string \<times> Manufacturer \<times> bool) list" where
  "vendor_branches =
    [(CPUID_VENDOR OLDAMD, OLDAMD, False), (CPUID_VENDOR AMD, AMD, False), (CPUID_VENDOR INTEL, INTEL, False),
     (CPUID_VENDOR VIA, AMD, False), (CPUID_VENDOR OLDTRANSMETA, OLDTRANSMETA, False),
     (CPUID_VENDOR TRANSMETA, TRANSMETA, False), (CPUID_VENDOR CYRIX, CYRIX, False),
     (CPUID_VENDOR CENTAUR, CENTAUR, False), (CPUID_VENDOR NEXGEN, NEXGEN, False), (CPUID_VENDOR UMC, UMC, False),
     (CPUID_VENDOR SIS, SIS, False), (CPUID_VENDOR NSC, NSC, False), (CPUID_VENDOR RISE, RISE, False),
     (CPUID_VENDOR VORTEX, VORTEX, False), (CPUID_VENDOR HYGON, HYGON, False), (CPUID_VENDOR VMWARE, VMWARE, True),
     (CPUID_VENDOR XENHVM, XENHVM, True), (CPUID_VENDOR MICROSOFT_MV, MICROSOFT_MV, True),
     (CPUID_VENDOR PARALLELS, PARALLELS, True), (CPUID_VENDOR BHYVE, BHYVE, True), (CPUID_VENDOR KVM, KVM, True),
     (CPUID_VENDOR ACRN, ACRN, True)]"

fun vendor_match :: "cbuf \<Rightarrow> (string \<times> Manufacturer \<times> bool) list \<Rightarrow> (Manufacturer \<times> bool) res" where
  "vendor_match v [] = Inr (UNKNOWN, False)"
| "vendor_match v ((s, m, vm) # bs) =
     and_then (strcmp v (bytes_of s @ [0])) (\<lambda>c. if c = 0 then Inr (m, vm) else vendor_match v bs)"

text \<open>
  \<open>x64ID\<close> as the bytes behind its address: the vendor string has no room for a terminator, the next byte
  is the field \<open>APIC\<close>, then come three bytes that fill up to the next field and stay 0.
\<close>

definition x64_bytes :: "X64_CPUID \<Rightarrow> u8 list" where
  "x64_bytes x = vendor_string x @ id_apic x # [0, 0, 0] @ word_bytes 4 (FI_EDX x) @ word_bytes 4 (FI_ECX x)"

definition CPUID_manufacturer :: "u32 \<times> u32 \<times> u32 \<Rightarrow> u8 list" where
  "CPUID_manufacturer leaf0 =
     (case leaf0 of (ebx, edx, ecx) \<Rightarrow> word_bytes 4 ebx @ word_bytes 4 edx @ word_bytes 4 ecx)"

definition CPUID_FEAT_EDX_APIC :: u32 where "CPUID_FEAT_EDX_APIC = push_bit 9 1"

definition vendor_message :: cbuf where
  "vendor_message = bytes_of ''CPU vendor string: %s'' @ [0]"

definition getCPUINFO ::
  "(cbuf \<Rightarrow> va list \<Rightarrow> kernel_log \<Rightarrow> kernel_log res option) \<Rightarrow> bool \<Rightarrow> u32 \<times> u32 \<times> u32 \<Rightarrow> u32 \<times> u32 \<times> u32 \<Rightarrow>
     CPUINFO \<Rightarrow> X64_CPUID \<Rightarrow> kernel_log \<Rightarrow> (CPUINFO \<times> X64_CPUID \<times> kernel_log) res option" where
  "getCPUINFO printk_debug CPUID_enabled leaf0 leaf1 cpu x k =
     (if \<not> CPUID_enabled then Some (Inr (cpu\<lparr>cpu_enabled := False\<rparr>, x, k))
      else
        let cpu = cpu\<lparr>cpu_enabled := True, asp := True\<rparr>;
            name = CPUID_manufacturer leaf0;
            x = x\<lparr>vendor_string := name\<rparr>
        in case printk_debug vendor_message [Str (x64_bytes x)] k of
             None \<Rightarrow> None
           | Some (Inl e) \<Rightarrow> Some (Inl e)
           | Some (Inr k) \<Rightarrow> Some (and_then (vendor_match (name @ [0]) vendor_branches) (\<lambda>(m, vm).
               let cpu = cpu\<lparr>vendor := m, isVM := vm\<rparr>;
                   (eax, edx, ecx) = leaf1;
                   x = x\<lparr>FI_EDX := edx, FI_ECX := ecx\<rparr>;
                   x = x\<lparr>id_apic := ucast (drop_bit 9 (FI_EDX x AND CPUID_FEAT_EDX_APIC))\<rparr>
               in Inr (cpu, x, k))))"

section \<open>Which vendor is found\<close>

lemma vendor_match_lookup:
  assumes "\<And>s m vm. (s, m, vm) \<in> set bs \<Longrightarrow> 0 \<notin> set (bytes_of s)" and "terminated v"
  shows "vendor_match v bs =
    Inr (case find (\<lambda>(s, _). bytes_of s = cstr v) bs of None \<Rightarrow> (UNKNOWN, False) | Some (_, r) \<Rightarrow> r)"
  using assms(1)
proof (induction bs)
  case Nil
  then show ?case by simp
next
  case (Cons b bs)
  obtain s m vm where b: "b = (s, m, vm)" by (cases b)
  have "0 \<notin> set (bytes_of s)" using Cons.prems b by auto
  then have "strcmp v (bytes_of s @ [0]) = Inr (signed_cmp (cstr v) (bytes_of s))"
    using strcmp_eq [OF assms(2), of "bytes_of s @ [0]"] by (simp add: terminated_def cstr_append)
  with Cons b show ?case by (auto simp: signed_cmp_0)
qed

text \<open>The vendors of the comments and names of cpu.h, each with its string.\<close>

definition documented_vendor :: "u8 list \<Rightarrow> Manufacturer" where
  "documented_vendor v =
     (case find (\<lambda>m. bytes_of (CPUID_VENDOR m) = v)
        [OLDAMD, AMD, INTEL, OLDTRANSMETA, TRANSMETA, CYRIX, CENTAUR, NEXGEN, UMC, SIS, NSC, RISE, VORTEX, VIA, HYGON,
         VMWARE, XENHVM, MICROSOFT_MV, PARALLELS, BHYVE, KVM, ACRN]
      of None \<Rightarrow> UNKNOWN | Some m \<Rightarrow> m)"

definition virtual :: "Manufacturer \<Rightarrow> bool" where
  "virtual m \<longleftrightarrow> m \<in> {VMWARE, XENHVM, MICROSOFT_MV, PARALLELS, BHYVE, KVM, ACRN}"

lemma of_char_inj: "(of_char c :: u8) = of_char d \<longleftrightarrow> c = d"
proof
  assume "of_char c = (of_char d :: u8)"
  then have "word_of_nat (of_char c) = (word_of_nat (of_char d) :: u8)" by (simp add: of_nat_of_char)
  then have "(of_char c :: nat) mod 2 ^ 8 = of_char d mod 2 ^ 8"
    by (simp add: word_of_nat_eq_iff take_bit_eq_mod)
  then show "c = d" by simp
qed simp

lemma bytes_of_inj: "bytes_of s = bytes_of t \<longleftrightarrow> s = t"
  by (simp add: bytes_of_def inj_map_eq_map inj_def of_char_inj)

lemma of_char_zero: "(of_char c :: u8) = 0 \<longleftrightarrow> c = CHR 0x00"
  using of_char_inj [of c "CHR 0x00"] by simp

lemma branch_strings:
  "(s, m, vm) \<in> set vendor_branches \<Longrightarrow> 0 \<notin> set (bytes_of s)"
  by (auto simp: vendor_branches_def bytes_of_def of_char_zero)

lemma find_no_string:
  assumes "\<not> (\<exists>t. v = bytes_of t)"
  shows "find (\<lambda>(s, _). bytes_of s = v) bs = None" and "find (\<lambda>m. bytes_of (CPUID_VENDOR m) = v) ms = None"
  using assms by (auto simp: find_None_iff)

text \<open>What the chain of comparisons finds, for any string.\<close>

lemma vendor_found:
  assumes "terminated v"
  shows "vendor_match v vendor_branches =
    (let m = (if cstr v = bytes_of ''VIA VIA VIA '' then AMD else documented_vendor (cstr v)) in Inr (m, virtual m))"
proof (cases "\<exists>t. cstr v = bytes_of t")
  case True
  then obtain t where t: "cstr v = bytes_of t" by blast
  have "(case find (\<lambda>(s, _). s = t) vendor_branches of None \<Rightarrow> (UNKNOWN, False) | Some (_, r) \<Rightarrow> r) =
      (let m = (if t = ''VIA VIA VIA '' then AMD else documented_vendor (bytes_of t)) in (m, virtual m))"
    by (simp add: vendor_branches_def documented_vendor_def bytes_of_inj virtual_def)
  with vendor_match_lookup [OF branch_strings assms] show ?thesis
    by (simp add: t bytes_of_inj Let_def)
next
  case False
  have "documented_vendor (cstr v) = UNKNOWN"
    unfolding documented_vendor_def find_no_string(2) [OF False] by simp
  moreover have "cstr v \<noteq> bytes_of ''VIA VIA VIA ''" using False by blast
  moreover have "vendor_match v vendor_branches = Inr (UNKNOWN, False)"
    using vendor_match_lookup [OF branch_strings assms] unfolding find_no_string(1) [OF False] by simp
  ultimately show ?thesis by (simp add: virtual_def)
qed

lemma x64_bytes_cstr:
  assumes "id_apic x = 0"
  shows "cstr (x64_bytes x) = cstr (vendor_string x)" and "terminated (x64_bytes x)"
proof -
  show "cstr (x64_bytes x) = cstr (vendor_string x)"
  proof (cases "0 \<in> set (vendor_string x)")
    case True
    then show ?thesis by (simp add: cstr_def x64_bytes_def takeWhile_append1)
  next
    case False
    then have "cstr (vendor_string x) = vendor_string x" by (auto simp: cstr_def takeWhile_eq_all_conv)
    with False assms show ?thesis by (simp add: x64_bytes_def cstr_append)
  qed
  show "terminated (x64_bytes x)" by (simp add: terminated_def x64_bytes_def)
qed

lemma cstr_terminator: "cstr (xs @ [0]) = cstr xs" and terminated_terminator: "terminated (xs @ [0])"
  by (induction xs) (auto simp: cstr_def terminated_def)

lemma vendor_message_string:
  "cstr vendor_message = bytes_of ''CPU vendor string: %s''" "terminated vendor_message"
proof -
  have "0 \<notin> set (bytes_of ''CPU vendor string: %s'')" by (simp add: bytes_of_def of_char_zero)
  then show "cstr vendor_message = bytes_of ''CPU vendor string: %s''" "terminated vendor_message"
    by (simp_all add: vendor_message_def terminated_def cstr_append)
qed

lemma vendor_message_fits: "terminated t \<Longrightarrow> length (cstr t) \<le> 64 \<Longrightarrow> printable (cstr vendor_message) [Str t]"
  by (simp add: printable_def vendor_message_string bytes_of_def conv_fits_def conv_rest_def takes_arg_def)

lemma vendor_message_format: "format (cstr vendor_message) [Str t] = bytes_of ''CPU vendor string: '' @ cstr t"
  by (simp add: vendor_message_string bytes_of_def conv_out_def)

lemma length_cstr: "length (cstr s) \<le> length s"
  by (simp add: cstr_def length_takeWhile_le)

lemma getCPUINFO_ok:
  assumes "proper_alloc alloc" and "\<And>n. alloc n \<noteq> None" and "proper_cells calloc"
    and "printk_enabled k" and "console_ok (console_of k)" and "array_ok (logs k) xs" and "length xs + 1 < 2 ^ 60"
    and "id_apic x = 0" and "name = CPUID_manufacturer leaf"
  shows "\<exists>k' lstr cpu' x'. getCPUINFO (printk loglevel alloc calloc slot DEBUG) True leaf (eax, edx, ecx) cpu x k =
      Some (Inr (cpu', x', k')) \<and>
    (if DEBUG \<le> loglevel
     then shows_text (console_of k) (time_stamp @ bytes_of ''CPU vendor string: '' @ cstr name @ [10]) (console_of k')
     else console_of k' = console_of k) \<and> array_ok (logs k') (xs @ [slot]) \<and> printk_enabled k' \<and>
    entries k' = entries k @ [\<lparr>level = DEBUG, seconds = 0, microseconds = 0, message = s_str lstr\<rparr>] \<and>
    string_ok lstr (bytes_of ''CPU vendor string: '' @ cstr name) \<and>
    cpu_enabled cpu' \<and> asp cpu' \<and>
    vendor cpu' = (if cstr name = bytes_of ''VIA VIA VIA '' then AMD else documented_vendor (cstr name)) \<and>
    isVM cpu' = virtual (vendor cpu') \<and> (0 \<notin> set name \<longrightarrow> vendor cpu' \<noteq> PARALLELS) \<and>
    vendor_string x' = name \<and> FI_EDX x' = edx \<and> FI_ECX x' = ecx \<and> id_apic x' = (if bit edx 9 then 1 else 0)"
proof -
  let ?x = "x\<lparr>vendor_string := name\<rparr>"
  have len: "length name = 12" using assms(9) by (simp add: CPUID_manufacturer_def word_bytes_def split: prod.split)
  note str = x64_bytes_cstr [of ?x, simplified, OF assms(8)]
  have "length (cstr (x64_bytes ?x)) \<le> 64" using length_cstr [of name] len by (simp add: str(1))
  from printk_ok [OF assms(1-7) vendor_message_string(2) vendor_message_fits [OF str(2) this],
      of loglevel slot DEBUG] obtain k' lstr where
    k: "printk loglevel alloc calloc slot DEBUG vendor_message [Str (x64_bytes ?x)] k = Some (Inr k')"
    "string_ok lstr (bytes_of ''CPU vendor string: '' @ cstr name)"
    "entries k' = entries k @ [\<lparr>level = DEBUG, seconds = 0, microseconds = 0, message = s_str lstr\<rparr>]"
    "if DEBUG \<le> loglevel
     then shows_text (console_of k) (time_stamp @ (bytes_of ''CPU vendor string: '' @ cstr name) @ [10]) (console_of k')
     else console_of k' = console_of k" "array_ok (logs k') (xs @ [slot])" "printk_enabled k'"
    unfolding vendor_message_format str(1) by blast
  let ?m = "if cstr name = bytes_of ''VIA VIA VIA '' then AMD else documented_vendor (cstr name)"
  have v: "vendor_match (name @ [0]) vendor_branches = Inr (?m, virtual ?m)"
    using vendor_found [OF terminated_terminator, of name] by (simp add: cstr_terminator Let_def)
  have apic: "ucast (drop_bit 9 (edx AND CPUID_FEAT_EDX_APIC)) = (if bit edx 9 then 1 else 0 :: u8)"
  proof (rule bit_word_eqI)
    fix n
    show "bit (ucast (drop_bit 9 (edx AND CPUID_FEAT_EDX_APIC)) :: u8) n = bit (if bit edx 9 then 1 else 0 :: u8) n"
      by (cases n) (auto simp: CPUID_FEAT_EDX_APIC_def bit_simps)
  qed
  have "?m \<noteq> PARALLELS" if "0 \<notin> set name"
  proof -
    have "cstr name = name" using that by (auto simp: cstr_def takeWhile_eq_all_conv)
    then have "cstr name \<noteq> bytes_of '' lrpepyh vr''" using len by (auto simp: bytes_of_def)
    then show ?thesis by (auto simp: documented_vendor_def)
  qed
  with k(2-6) show ?thesis
    unfolding getCPUINFO_def Let_def assms(9) [symmetric]
    by (auto simp: k(1) v apic [simplified])
qed

text \<open>
  \<open>getCPUINFO\<close> on a processor with the instruction, called for the first time: it logs the vendor's
  string, which has no terminator of its own and ends at the next field, and sets the vendor that cpu.h
  documents for it, except that a VIA processor becomes an AMD; strings of no vendor give
  \<open>UNKNOWN\<close>, the machine is virtual exactly for the vendors of virtual machines, and the local controller is
  there exactly when bit 9 of \<open>edx\<close> is set. The string of Parallels has 11 characters, so no answer of
  12 characters is taken for it.
\<close>

theorem getCPUINFO_identifies:
  assumes "proper_alloc alloc" and "\<And>n. alloc n \<noteq> None" and "proper_cells calloc"
    and "printk_enabled k" and "console_ok (console_of k)" and "array_ok (logs k) xs" and "length xs + 1 < 2 ^ 60"
    and "id_apic x = 0" and "name = CPUID_manufacturer leaf"
  shows "\<exists>k' lstr cpu' x'. getCPUINFO (printk loglevel alloc calloc slot DEBUG) True leaf (eax, edx, ecx) cpu x k =
      Some (Inr (cpu', x', k')) \<and>
    entries k' = entries k @ [\<lparr>level = DEBUG, seconds = 0, microseconds = 0, message = s_str lstr\<rparr>] \<and>
    string_ok lstr (bytes_of ''CPU vendor string: '' @ cstr name) \<and>
    cpu_enabled cpu' \<and> asp cpu' \<and>
    vendor cpu' = (if cstr name = bytes_of ''VIA VIA VIA '' then AMD else documented_vendor (cstr name)) \<and>
    isVM cpu' = virtual (vendor cpu') \<and> (0 \<notin> set name \<longrightarrow> vendor cpu' \<noteq> PARALLELS) \<and>
    vendor_string x' = name \<and> FI_EDX x' = edx \<and> FI_ECX x' = ecx \<and> id_apic x' = (if bit edx 9 then 1 else 0)"
  using getCPUINFO_ok [where leaf = leaf, OF assms] by blast

text \<open>A VIA processor: each of the three registers holds the letters of "VIA ".\<close>

lemma via_name: "CPUID_manufacturer (0x20414956, 0x20414956, 0x20414956) = bytes_of ''VIA VIA VIA ''"
  by (simp add: CPUID_manufacturer_def word_bytes_def bytes_of_def upt_rec)

theorem getCPUINFO_identifies_witness:
  "\<exists>cpu x k. getCPUINFO (printk LOGLEVEL junk_alloc zero_cells 0x7000 DEBUG) True
      (0x20414956, 0x20414956, 0x20414956) (0x6FE, 0x200, 0)
      \<lparr>cpu_enabled = False, asp = False, vendor = OLDAMD, isVM = False\<rparr>
      \<lparr>vendor_string = replicate 12 0, id_apic = 0, FI_EDX = 0, FI_ECX = 0\<rparr> demo_log = Some (Inr (cpu, x, k)) \<and>
    vendor cpu = AMD \<and> \<not> isVM cpu \<and> id_apic x = 1"
proof -
  have log: "printk_enabled demo_log" "console_ok (console_of demo_log)" "array_ok (logs demo_log) []"
    using demo_console_ok by (simp_all add: demo_log_def array_ok_def)
  have name: "cstr (bytes_of ''VIA VIA VIA '') = bytes_of ''VIA VIA VIA ''"
    by (simp add: cstr_def bytes_of_def)
  have "bit (0x200 :: u32) 9" by simp
  with getCPUINFO_identifies [OF junk_alloc_proper zero_cells_proper log(1,2,3), where name = "bytes_of ''VIA VIA VIA ''"
      and x = "\<lparr>vendor_string = replicate 12 0, id_apic = 0, FI_EDX = 0, FI_ECX = 0\<rparr>"
      and eax = "0x6FE" and edx = "0x200" and ecx = 0 and loglevel = LOGLEVEL and slot = "0x7000"
      and leaf = "(0x20414956, 0x20414956, 0x20414956)"
      and cpu = "\<lparr>cpu_enabled = False, asp = False, vendor = OLDAMD, isVM = False\<rparr>"]
  show ?thesis unfolding via_name name by (fastforce simp: virtual_def)
qed

end
