(* ===== verification/Symbols.thy ===== *)
theory Symbols
  imports Heap Multiboot
begin

text \<open>
  The symbol tables: \<open>tab_search\<close> of arch/X86_64/arch.c, which copies the first symbol table and the first
  string table among the section headers of the kernel at boot, and \<open>TraceName\<close> and the walk of \<open>PrintStackTrace\<close>
  of arch/X86_64/stack.c, which name the functions of a stack trace. The memory is a function of the address.
  Blocks come from the allocator that serves \<open>kmalloc\<close> before the heap exists, \<open>memstck_malloc\<close>.
\<close>

record early_memory =
  ram :: "nat \<Rightarrow> u8"
  stk :: memstck

text \<open>\<open>kmalloc\<close> while \<open>System.MMU_enabled\<close> is not set; the block is followed by a zero byte.\<close>

definition kmalloc_early :: "nat \<Rightarrow> early_memory \<Rightarrow> nat \<Rightarrow> early_memory \<times> nat" where
  "kmalloc_early mem_end m n =
     (if n = 0 then (m, 0)
      else case memstck_malloc mem_end (stk m) n of (s, a) \<Rightarrow>
        (m\<lparr>stk := s, ram := if a = 0 then ram m else (ram m)(a + n := 0)\<rparr>, a))"

record ELF64_Shdr =
  sh_name :: nat
  sh_type :: nat
  sh_flags :: nat
  sh_addr :: nat
  sh_offset :: nat
  sh_size :: nat
  sh_link :: nat
  sh_info :: nat
  sh_addralign :: nat
  sh_entsize :: nat

definition read_shdr :: "(nat \<Rightarrow> u8) \<Rightarrow> nat \<Rightarrow> ELF64_Shdr" where
  "read_shdr mem a =
     \<lparr>sh_name = rd mem 4 a, sh_type = rd mem 4 (a + 4), sh_flags = rd mem 8 (a + 8), sh_addr = rd mem 8 (a + 16),
      sh_offset = rd mem 8 (a + 24), sh_size = rd mem 8 (a + 32), sh_link = rd mem 4 (a + 40),
      sh_info = rd mem 4 (a + 44), sh_addralign = rd mem 8 (a + 48), sh_entsize = rd mem 8 (a + 56)\<rparr>"

record elf_symbols =
  elf_sym :: nat
  elf_sym_size :: nat
  elf_str :: nat
  elf_str_size :: nat

definition SHT_SYMTAB :: nat where "SHT_SYMTAB = 2"
definition SHT_STRTAB :: nat where "SHT_STRTAB = 3"

text \<open>The size of a section is a 64-bit number and the field it goes to has 32 bits.\<close>

definition copy_table :: "nat \<Rightarrow> early_memory \<Rightarrow> ELF64_Shdr \<Rightarrow> (early_memory \<times> nat \<times> nat) res" where
  "copy_table mem_end m h =
     (let size = sh_size h mod 2 ^ 32 in
      case kmalloc_early mem_end m size of (m, a) \<Rightarrow>
        if a = 0 \<and> size > 0 then Inl NullDeref
        else Inr (m\<lparr>ram := memcpy (ram m) a (sh_addr h) size\<rparr>, a, size))"

function tab_loop :: "nat \<Rightarrow> nat \<Rightarrow> nat \<Rightarrow> nat \<Rightarrow> early_memory \<times> elf_symbols \<Rightarrow> (early_memory \<times> elf_symbols) res" where
  "tab_loop mem_end sh n i (m, s) =
     (if (elf_sym s = 0 \<or> elf_str s = 0) \<and> i < n then
        let h = read_shdr (ram m) (sh + 64 * i) in
        if elf_sym s = 0 \<and> sh_type h = SHT_SYMTAB then
          (case copy_table mem_end m h of Inl e \<Rightarrow> Inl e
           | Inr (m, a, sz) \<Rightarrow> tab_loop mem_end sh n (i + 1) (m, s\<lparr>elf_sym_size := sz, elf_sym := a\<rparr>))
        else if elf_str s = 0 \<and> sh_type h = SHT_STRTAB then
          (case copy_table mem_end m h of Inl e \<Rightarrow> Inl e
           | Inr (m, a, sz) \<Rightarrow> tab_loop mem_end sh n (i + 1) (m, s\<lparr>elf_str_size := sz, elf_str := a\<rparr>))
        else tab_loop mem_end sh n (i + 1) (m, s)
      else Inr (m, s))"
  by pat_completeness auto
termination by (relation "measure (\<lambda>(_, _, n, i, _). n - i)") auto

declare tab_loop.simps [simp del]

definition tab_search ::
  "nat \<Rightarrow> nat option \<Rightarrow> nat \<Rightarrow> early_memory \<times> elf_symbols \<Rightarrow> (early_memory \<times> elf_symbols) res" where
  "tab_search mem_end sections n ms =
     (case ms of (m, s) \<Rightarrow>
        if sections = None \<or> sections = Some 0 \<or> n = 0 then Inr (m, s)
        else tab_loop mem_end (the sections) n 1
          (m, s\<lparr>elf_sym := 0, elf_str := 0, elf_sym_size := 0, elf_str_size := 0\<rparr>))"

text \<open>What \<open>mbootInit\<close> does for the symbols: the search, or nothing to be found.\<close>

definition boot_symbols ::
  "nat \<Rightarrow> multiboot_info \<Rightarrow> early_memory \<times> elf_symbols \<Rightarrow> (early_memory \<times> elf_symbols) res" where
  "boot_symbols mem_end i ms =
     (if bit (mb_flags i) 5 then tab_search mem_end (Some (elf_addr i)) (elf_num i) ms
      else Inr (fst ms, (snd ms)\<lparr>elf_sym := 0, elf_str := 0, elf_sym_size := 0, elf_str_size := 0\<rparr>))"

section \<open>The names of functions\<close>

record ELF64_Sym =
  st_name :: nat
  st_info :: u8
  st_other :: u8
  st_shndx :: nat
  st_value :: nat
  st_size :: nat

text \<open>The structure is not packed: an entry has 24 bytes.\<close>

definition read_sym :: "(nat \<Rightarrow> u8) \<Rightarrow> nat \<Rightarrow> ELF64_Sym" where
  "read_sym mem a =
     \<lparr>st_name = rd mem 4 a, st_info = mem (a + 4), st_other = mem (a + 5), st_shndx = rd mem 2 (a + 6),
      st_value = rd mem 8 (a + 8), st_size = rd mem 4 (a + 16)\<rparr>"

definition ELF64_ST_TYPE :: "u8 \<Rightarrow> u8" where "ELF64_ST_TYPE info = info AND 0xF"
definition STT_NOTYPE :: u8 where "STT_NOTYPE = 0"
definition STT_FUNC :: u8 where "STT_FUNC = 2"

definition no_code :: "ELF64_Sym \<Rightarrow> bool" where
  "no_code y \<longleftrightarrow> ELF64_ST_TYPE (st_info y) \<noteq> STT_FUNC \<and> ELF64_ST_TYPE (st_info y) \<noteq> STT_NOTYPE"

text \<open>The loop, with its second test, which the first one has already decided.\<close>

function name_loop :: "(nat \<Rightarrow> u8) \<Rightarrow> nat \<Rightarrow> nat \<Rightarrow> nat \<Rightarrow> nat \<Rightarrow> nat \<Rightarrow> nat \<Rightarrow> nat" where
  "name_loop mem tab address n i cur diff =
     (if i < n then
        let y = read_sym mem (tab + 24 * i) in
        if st_value y > address \<or> no_code y then name_loop mem tab address n (i + 1) cur diff
        else if no_code y then name_loop mem tab address n (i + 1) i (sub64 address (st_value y))
        else if sub64 address (st_value y) < diff then
          if sub64 address (st_value y) = 0 then i
          else name_loop mem tab address n (i + 1) i (sub64 address (st_value y))
        else name_loop mem tab address n (i + 1) cur diff
      else cur)"
  by pat_completeness auto
termination by (relation "measure (\<lambda>(_, _, _, n, i, _, _). n - i)") auto

declare name_loop.simps [simp del]

text \<open>The address of the name; \<open>None\<close> is the address of \<open>func_noname\<close>, the empty string.\<close>

definition TraceName :: "(nat \<Rightarrow> u8) \<Rightarrow> elf_symbols \<Rightarrow> nat \<Rightarrow> nat option" where
  "TraceName mem s address =
     (if elf_sym s = 0 \<or> elf_sym_size s div 24 < 1 then None
      else
        let cur = name_loop mem (elf_sym s) address (elf_sym_size s div 24) 1 0
              (sub64 address (st_value (read_sym mem (elf_sym s))))
        in Some (elf_str s + st_name (read_sym mem (elf_sym s + 24 * cur))))"

text \<open>The walk over the frames, with the return address of each and its name; it may not end.\<close>

partial_function (option) stack_walk ::
  "(nat \<Rightarrow> u8) \<Rightarrow> elf_symbols \<Rightarrow> nat \<Rightarrow> (nat \<times> nat option) list option" where
  "stack_walk mem s frame =
     (if frame = 0 then Some []
      else Option.bind (stack_walk mem s (rd mem 8 frame)) (\<lambda>lines.
             Some ((rd mem 8 (frame + 8), TraceName mem s (rd mem 8 (frame + 8))) # lines)))"

section \<open>Copies\<close>

lemma read_shdr_cong:
  assumes "\<And>x. a \<le> x \<Longrightarrow> x < a + 64 \<Longrightarrow> mem x = mem' x"
  shows "read_shdr mem a = read_shdr mem' a"
proof -
  have "rd mem k (a + j) = rd mem' k (a + j)" if "j + k \<le> 64" for j k
    by (rule rd_moved) (rule assms; use that in simp)
  from this [of 0] this show ?thesis by (simp add: read_shdr_def)
qed

lemma read_sym_moved:
  assumes "\<And>d. d < 24 \<Longrightarrow> mem (a + d) = mem' (b + d)"
  shows "read_sym mem a = read_sym mem' b"
proof -
  have "rd mem k (a + j) = rd mem' k (b + j)" if "j + k \<le> 24" for j k
    by (rule rd_moved) (use assms [of "j + d" for d] that in \<open>simp add: add.assoc\<close>)
  from this [of 0] this have "rd mem 4 a = rd mem' 4 b" "rd mem 2 (a + 6) = rd mem' 2 (b + 6)"
    "rd mem 8 (a + 8) = rd mem' 8 (b + 8)" "rd mem 4 (a + 16) = rd mem' 4 (b + 16)" by simp_all
  with assms [of 4] assms [of 5] show ?thesis by (simp add: read_sym_def)
qed

text \<open>The early allocator stands at \<open>lo\<close>.\<close>

definition stack_at :: "nat \<Rightarrow> memstck \<Rightarrow> nat \<Rightarrow> bool" where
  "stack_at mem_end s lo \<longleftrightarrow> MemStack_enable s \<and> 0 < lo \<and> lo = (if MemStack_init s then MemStack s else mem_end + 64)"

lemma kmalloc_early_ok:
  assumes "stack_at e (stk m) lo" and "0 < n" and "lo + n < 0x200000"
  shows "\<exists>m'. kmalloc_early e m n = (m', lo) \<and> stack_at e (stk m') (lo + n + 1) \<and> ram m' = (ram m)(lo + n := 0)"
proof -
  have "add64 lo n = lo + n" "add64 n 1 = n + 1" "add64 lo (n + 1) = lo + n + 1"
    using assms(3) by (simp_all add: wrap_simps)
  with assms show ?thesis
    by (cases "MemStack_init (stk m)") (auto simp: kmalloc_early_def memstck_malloc_def stack_at_def Let_def)
qed

lemma copy_table_ok:
  assumes "stack_at e (stk m) lo" and "0 < sh_size h" and "lo + sh_size h < 0x200000"
    and "{sh_addr h..<sh_addr h + sh_size h} \<inter> {lo..<0x200000} = {}"
  shows "\<exists>m'. copy_table e m h = Inr (m', lo, sh_size h) \<and> stack_at e (stk m') (lo + sh_size h + 1) \<and>
    (\<forall>k < sh_size h. ram m' (lo + k) = ram m (sh_addr h + k)) \<and>
    (\<forall>x. x < lo \<or> lo + sh_size h < x \<longrightarrow> ram m' x = ram m x)"
proof -
  obtain m1 where m1: "kmalloc_early e m (sh_size h) = (m1, lo)" "stack_at e (stk m1) (lo + sh_size h + 1)"
    "ram m1 = (ram m)(lo + sh_size h := 0)"
    using kmalloc_early_ok [OF assms(1-3)] by blast
  have lo: "0 < lo" using assms(1) by (simp add: stack_at_def)
  have sub: "{lo..<lo + sh_size h + 1} \<subseteq> {lo..<0x200000}" using assms(3) by auto
  have apart: "{sh_addr h..<sh_addr h + sh_size h} \<inter> {lo..<lo + sh_size h} = {}" using assms(4) sub by force
  have "ram m (sh_addr h + k) = ram m1 (sh_addr h + k)" if "k < sh_size h" for k
  proof -
    have "sh_addr h + k \<in> {sh_addr h..<sh_addr h + sh_size h}" using that by simp
    then have "sh_addr h + k \<noteq> lo + sh_size h" using assms(3,4) by (force simp: disjoint_iff)
    then show ?thesis by (simp add: m1(3))
  qed
  with lo m1 assms(3) show ?thesis
    by (auto simp: copy_table_def Let_def memcpy_in [OF apart] memcpy_out)
qed

section \<open>What the search finds\<close>

definition wanted :: "elf_symbols \<Rightarrow> nat \<Rightarrow> bool" where
  "wanted s t \<longleftrightarrow> elf_sym s = 0 \<and> t = SHT_SYMTAB \<or> elf_str s = 0 \<and> t = SHT_STRTAB"

definition store_table :: "nat \<Rightarrow> nat \<Rightarrow> nat \<Rightarrow> elf_symbols \<Rightarrow> elf_symbols" where
  "store_table t a n s =
     (if t = SHT_SYMTAB then s\<lparr>elf_sym_size := n, elf_sym := a\<rparr> else s\<lparr>elf_str_size := n, elf_str := a\<rparr>)"

abbreviation header :: "early_memory \<Rightarrow> nat \<Rightarrow> nat \<Rightarrow> ELF64_Shdr" where
  "header m sh k \<equiv> read_shdr (ram m) (sh + 64 * k)"

lemma tab_loop_first:
  assumes "i \<le> j" and "j < n" and "wanted s (sh_type (header m sh j))"
    and "\<And>k. i \<le> k \<Longrightarrow> k < j \<Longrightarrow> \<not> wanted s (sh_type (header m sh k))"
  shows "tab_loop e sh n i (m, s) =
    (case copy_table e m (header m sh j) of Inl x \<Rightarrow> Inl x
     | Inr (m', a, z) \<Rightarrow> tab_loop e sh n (j + 1) (m', store_table (sh_type (header m sh j)) a z s))"
  using assms(1,4)
proof (induction rule: inc_induct)
  case base
  from assms(2,3) show ?case
    by (subst tab_loop.simps) (auto simp: wanted_def store_table_def Let_def SHT_SYMTAB_def SHT_STRTAB_def
        split: sum.split)
next
  case (step i)
  have "\<not> wanted s (sh_type (header m sh i))" using step.prems step.hyps by simp
  with assms(2,3) step.hyps have "tab_loop e sh n i (m, s) = tab_loop e sh n (Suc i) (m, s)"
    by (subst tab_loop.simps) (auto simp: wanted_def Let_def)
  with step show ?case by simp
qed

lemma tab_loop_done: "elf_sym s \<noteq> 0 \<Longrightarrow> elf_str s \<noteq> 0 \<Longrightarrow> tab_loop e sh n i (m, s) = Inr (m, s)"
  by (subst tab_loop.simps) simp

definition outside :: "nat \<Rightarrow> nat \<Rightarrow> nat \<Rightarrow> bool" where
  "outside lo a n \<longleftrightarrow> {a..<a + n} \<inter> {lo..<0x200000} = {}"

lemma outsideD: "outside lo a n \<Longrightarrow> a \<le> x \<Longrightarrow> x < a + n \<Longrightarrow> x < lo \<or> 0x200000 \<le> x"
  by (auto simp: outside_def disjoint_iff)

lemma outside_later: "outside lo a n \<Longrightarrow> lo \<le> lo' \<Longrightarrow> outside lo' a n"
  by (auto simp: outside_def)

definition cleared :: "elf_symbols \<Rightarrow> elf_symbols" where
  "cleared s = s\<lparr>elf_sym := 0, elf_str := 0, elf_sym_size := 0, elf_str_size := 0\<rparr>"

text \<open>The two tables in the order in which they come: \<open>p\<close> is the first of either kind, \<open>q\<close> the first of the other.\<close>

lemma tab_loop_two:
  assumes "sh_type (header m sh p) = tp" and "sh_type (header m sh q) = tq"
    and "(tp, tq) \<in> {(SHT_SYMTAB, SHT_STRTAB), (SHT_STRTAB, SHT_SYMTAB)}" and "1 \<le> p" "p < q" "q < n"
    and "\<And>k. 1 \<le> k \<Longrightarrow> k < p \<Longrightarrow> sh_type (header m sh k) \<notin> {tp, tq}"
    and "\<And>k. 1 \<le> k \<Longrightarrow> k < q \<Longrightarrow> sh_type (header m sh k) \<noteq> tq"
    and "hp = header m sh p" and "hq = header m sh q" and "0 < sh_size hp" and "0 < sh_size hq"
    and "stack_at e (stk m) lo" and "lo + sh_size hp + sh_size hq + 1 < 0x200000"
    and "outside lo (sh_addr hp) (sh_size hp)" and "outside lo (sh_addr hq) (sh_size hq)"
    and "outside lo sh (64 * n)" and "b = lo + sh_size hp + 1"
  shows "\<exists>m'. tab_loop e sh n 1 (m, cleared s) =
      Inr (m', store_table tq b (sh_size hq) (store_table tp lo (sh_size hp) (cleared s))) \<and>
    (\<forall>k < sh_size hp. ram m' (lo + k) = ram m (sh_addr hp + k)) \<and>
    (\<forall>k < sh_size hq. ram m' (b + k) = ram m (sh_addr hq + k)) \<and>
    (\<forall>x. x < lo \<or> 0x200000 \<le> x \<longrightarrow> ram m' x = ram m x)"
proof -
  let ?s = "cleared s" and ?s1 = "store_table tp lo (sh_size hp) (cleared s)"
  have lo: "0 < lo" using assms(13) by (simp add: stack_at_def)
  have tp: "sh_type hp = tp" using assms(1,9) by simp
  have room: "lo + sh_size hp < 0x200000" "b + sh_size hq < 0x200000" using assms(14,18) by simp_all
  from copy_table_ok [OF assms(13,11) room(1)] assms(15)
  obtain m1 where m1: "copy_table e m hp = Inr (m1, lo, sh_size hp)" "stack_at e (stk m1) b"
    "\<And>k. k < sh_size hp \<Longrightarrow> ram m1 (lo + k) = ram m (sh_addr hp + k)"
    "\<And>x. x < lo \<or> lo + sh_size hp < x \<Longrightarrow> ram m1 x = ram m x"
    unfolding outside_def [symmetric] assms(18) by auto
  have same: "header m1 sh k = header m sh k" if "k < n" for k
  proof (rule read_shdr_cong)
    fix x
    assume "sh + 64 * k \<le> x" "x < sh + 64 * k + 64"
    then have "sh \<le> x" "x < sh + 64 * n" using that by auto
    from outsideD [OF assms(17) this] room(1) show "ram m1 x = ram m x" by (intro m1(4)) auto
  qed
  have first: "tab_loop e sh n 1 (m, ?s) = tab_loop e sh n (p + 1) (m1, ?s1)"
  proof -
    have "wanted ?s (sh_type (header m sh p))" using assms(1,3) by (auto simp: wanted_def cleared_def)
    moreover have "\<not> wanted ?s (sh_type (header m sh k))" if "1 \<le> k" "k < p" for k
      using assms(3) assms(7) [OF that] by (auto simp: wanted_def)
    ultimately show ?thesis
      using tab_loop_first [of 1 p n ?s m sh e] assms(4-6) m1(1) by (simp add: tp assms(9) [symmetric])
  qed
  have hq: "header m1 sh q = hq" using same [OF assms(6)] assms(10) by simp
  from copy_table_ok [OF m1(2) assms(12) room(2)] outside_later [OF assms(16), of b] assms(18)
  obtain m2 where m2: "copy_table e m1 hq = Inr (m2, b, sh_size hq)"
    "\<And>k. k < sh_size hq \<Longrightarrow> ram m2 (b + k) = ram m1 (sh_addr hq + k)"
    "\<And>x. x < b \<or> b + sh_size hq < x \<Longrightarrow> ram m2 x = ram m1 x"
    unfolding outside_def [symmetric] by auto
  have second: "tab_loop e sh n (p + 1) (m1, ?s1) = Inr (m2, store_table tq b (sh_size hq) ?s1)"
  proof -
    have "wanted ?s1 (sh_type (header m1 sh q))"
      using assms(2,3) same [OF assms(6)]
      by (auto simp: wanted_def store_table_def cleared_def SHT_SYMTAB_def SHT_STRTAB_def)
    moreover have "\<not> wanted ?s1 (sh_type (header m1 sh k))" if "p + 1 \<le> k" "k < q" for k
      using assms(3) assms(8) [of k] same [of k] that assms(4,6) lo
      by (auto simp: wanted_def store_table_def cleared_def SHT_SYMTAB_def SHT_STRTAB_def)
    ultimately have "tab_loop e sh n (p + 1) (m1, ?s1) =
        tab_loop e sh n (q + 1) (m2, store_table tq b (sh_size hq) ?s1)"
      using tab_loop_first [of "p + 1" q n ?s1 m1 sh e] assms(2,5,6,10) m2(1) same [OF assms(6)] by (simp add: hq)
    also have "\<dots> = Inr (m2, store_table tq b (sh_size hq) ?s1)"
      by (rule tab_loop_done) (use assms(3,18) lo in \<open>auto simp: store_table_def SHT_SYMTAB_def SHT_STRTAB_def\<close>)
    finally show ?thesis .
  qed
  have src: "ram m1 (sh_addr hq + k) = ram m (sh_addr hq + k)" if "k < sh_size hq" for k
    using outsideD [OF assms(16), of "sh_addr hq + k"] that room(1) by (intro m1(4)) auto
  have "ram m2 (lo + k) = ram m (sh_addr hp + k)" if "k < sh_size hp" for k
    using m2(3) [of "lo + k"] m1(3) [OF that] that assms(18) by simp
  moreover have "ram m2 x = ram m x" if "x < lo \<or> 0x200000 \<le> x" for x
    using that m1(4) [of x] m2(3) [of x] room assms(18) by auto
  ultimately show ?thesis using first second m2(2) src by (intro exI [of _ m2]) simp
qed

text \<open>
  \<open>tab_search\<close> copies the first symbol table and the first string table behind the first section header, byte for
  byte, into blocks of the early allocator, and changes no memory outside the area of that allocator. The
  string table is the first one in the file, not the one the symbol table names in \<open>sh_link\<close>.
\<close>

theorem tab_search_copies:
  assumes "is_first (\<lambda>k. sh_type (header m sh k) = SHT_SYMTAB) 1 n (Some i)"
    and "is_first (\<lambda>k. sh_type (header m sh k) = SHT_STRTAB) 1 n (Some j)"
    and "hi = header m sh i" and "hj = header m sh j" and "0 < sh_size hi" and "0 < sh_size hj" and "sh \<noteq> 0"
    and "stack_at e (stk m) lo" and "lo + sh_size hi + sh_size hj + 1 < 0x200000"
    and "outside lo (sh_addr hi) (sh_size hi)" and "outside lo (sh_addr hj) (sh_size hj)" and "outside lo sh (64 * n)"
  shows "\<exists>m' s'. tab_search e (Some sh) n (m, s) = Inr (m', s') \<and>
    elf_sym s' \<noteq> 0 \<and> elf_sym_size s' = sh_size hi \<and> elf_str_size s' = sh_size hj \<and>
    (\<forall>k < sh_size hi. ram m' (elf_sym s' + k) = ram m (sh_addr hi + k)) \<and>
    (\<forall>k < sh_size hj. ram m' (elf_str s' + k) = ram m (sh_addr hj + k)) \<and>
    (\<forall>x. x < lo \<or> 0x200000 \<le> x \<longrightarrow> ram m' x = ram m x)"
proof -
  have i: "1 \<le> i" "i < n" "sh_type hi = SHT_SYMTAB" "\<And>k. 1 \<le> k \<Longrightarrow> k < i \<Longrightarrow> sh_type (header m sh k) \<noteq> SHT_SYMTAB"
    using assms(1) by (auto simp: is_first_def assms(3))
  have j: "1 \<le> j" "j < n" "sh_type hj = SHT_STRTAB" "\<And>k. 1 \<le> k \<Longrightarrow> k < j \<Longrightarrow> sh_type (header m sh k) \<noteq> SHT_STRTAB"
    using assms(2) by (auto simp: is_first_def assms(4))
  have lo: "0 < lo" using assms(8) by (simp add: stack_at_def)
  have search: "tab_search e (Some sh) n (m, s) = tab_loop e sh n 1 (m, cleared s)"
    using assms(7) i(2) by (simp add: tab_search_def cleared_def)
  have swap: "lo + sh_size hj + sh_size hi + 1 < 0x200000" using assms(9) by simp
  have "i \<noteq> j" using i(3) j(3) assms(3,4) by (auto simp: SHT_SYMTAB_def SHT_STRTAB_def)
  then consider "i < j" | "j < i" by linarith
  then show ?thesis
  proof cases
    case 1
    have "\<exists>m'. tab_loop e sh n 1 (m, cleared s) = Inr (m', store_table SHT_STRTAB (lo + sh_size hi + 1) (sh_size hj)
          (store_table SHT_SYMTAB lo (sh_size hi) (cleared s))) \<and>
        (\<forall>k < sh_size hi. ram m' (lo + k) = ram m (sh_addr hi + k)) \<and>
        (\<forall>k < sh_size hj. ram m' (lo + sh_size hi + 1 + k) = ram m (sh_addr hj + k)) \<and>
        (\<forall>x. x < lo \<or> 0x200000 \<le> x \<longrightarrow> ram m' x = ram m x)"
      by (rule tab_loop_two [where p = i and q = j]) (use assms i j 1 in auto)
    with search lo show ?thesis by (auto simp: store_table_def SHT_SYMTAB_def SHT_STRTAB_def)
  next
    case 2
    have "\<exists>m'. tab_loop e sh n 1 (m, cleared s) = Inr (m', store_table SHT_SYMTAB (lo + sh_size hj + 1) (sh_size hi)
          (store_table SHT_STRTAB lo (sh_size hj) (cleared s))) \<and>
        (\<forall>k < sh_size hj. ram m' (lo + k) = ram m (sh_addr hj + k)) \<and>
        (\<forall>k < sh_size hi. ram m' (lo + sh_size hj + 1 + k) = ram m (sh_addr hi + k)) \<and>
        (\<forall>x. x < lo \<or> 0x200000 \<le> x \<longrightarrow> ram m' x = ram m x)"
      by (rule tab_loop_two [where p = j and q = i]) (use assms i j 2 swap in auto)
    with search lo show ?thesis by (auto simp: store_table_def SHT_SYMTAB_def SHT_STRTAB_def)
  qed
qed

section \<open>The nearest symbol\<close>

text \<open>
  The symbols \<open>TraceName\<close> chooses from: the first entry, which the file format leaves empty, and every
  function or untyped symbol at or below the address; \<open>c\<close> is the nearest of them, the first one of several.
\<close>

definition candidates :: "(nat \<Rightarrow> u8) \<Rightarrow> nat \<Rightarrow> nat \<Rightarrow> nat \<Rightarrow> nat set" where
  "candidates mem tab address n =
     insert 0 {k. 0 < k \<and> k < n \<and> st_value (read_sym mem (tab + 24 * k)) \<le> address \<and> \<not> no_code (read_sym mem (tab + 24 * k))}"

definition nearest :: "(nat \<Rightarrow> u8) \<Rightarrow> nat \<Rightarrow> nat \<Rightarrow> nat \<Rightarrow> nat \<Rightarrow> bool" where
  "nearest mem tab address n c \<longleftrightarrow> c \<in> candidates mem tab address n \<and>
     (\<forall>k \<in> candidates mem tab address n. st_value (read_sym mem (tab + 24 * k)) \<le> st_value (read_sym mem (tab + 24 * c)) \<and>
       (st_value (read_sym mem (tab + 24 * k)) = st_value (read_sym mem (tab + 24 * c)) \<longrightarrow> c \<le> k))"

lemma candidates_step:
  "0 < i \<Longrightarrow> candidates mem tab address (Suc i) =
     (if st_value (read_sym mem (tab + 24 * i)) \<le> address \<and> \<not> no_code (read_sym mem (tab + 24 * i))
      then insert i (candidates mem tab address i) else candidates mem tab address i)"
  by (auto simp: candidates_def less_Suc_eq)

lemma candidates_below: "0 < i \<Longrightarrow> k \<in> candidates mem tab address i \<Longrightarrow> k < i"
  by (auto simp: candidates_def)

lemma name_loop_nearest:
  assumes "address < 2 ^ 64" and "st_value (read_sym mem tab) \<le> address"
  shows "0 < i \<Longrightarrow> i \<le> n \<Longrightarrow> nearest mem tab address i cur \<Longrightarrow>
    diff = address - st_value (read_sym mem (tab + 24 * cur)) \<Longrightarrow>
    nearest mem tab address n (name_loop mem tab address n i cur diff)"
proof (induction "n - i" arbitrary: i cur diff)
  case 0
  then show ?case by (subst name_loop.simps) simp
next
  case (Suc d)
  let ?v = "\<lambda>k. st_value (read_sym mem (tab + 24 * k))"
  have i: "i < n" "d = n - Suc i" using Suc.hyps(2) by simp_all
  have low: "?v k \<le> address" if "k \<in> candidates mem tab address m" for k m
    using that assms(2) by (auto simp: candidates_def)
  have cur: "cur \<in> candidates mem tab address i" using Suc.prems(3) by (simp add: nearest_def)
  consider (skip) "?v i > address \<or> no_code (read_sym mem (tab + 24 * i))"
    | (far) "?v i \<le> ?v cur" "?v i \<le> address" "\<not> no_code (read_sym mem (tab + 24 * i))"
    | (near) "?v cur < ?v i" "?v i \<le> address" "\<not> no_code (read_sym mem (tab + 24 * i))" by linarith
  then show ?case
  proof cases
    case skip
    then have "nearest mem tab address (Suc i) cur"
      using Suc.prems(1,3) by (auto simp: nearest_def candidates_step)
    with skip i Suc.hyps(1) [of "Suc i" cur diff] Suc.prems show ?thesis
      by (subst name_loop.simps) (auto simp: Let_def)
  next
    case far
    have "sub64 address (?v i) = address - ?v i" using far(2) assms(1) by (rule sub64_exact)
    moreover have "nearest mem tab address (Suc i) cur"
      using Suc.prems(1,3) far candidates_below [OF Suc.prems(1) cur]
      by (auto simp: nearest_def candidates_step)
    ultimately show ?thesis
      using far i Suc.hyps(1) [of "Suc i" cur diff] Suc.prems low [OF cur]
      by (subst name_loop.simps) (auto simp: Let_def)
  next
    case near
    have sub: "sub64 address (?v i) = address - ?v i" using near(2) assms(1) by (rule sub64_exact)
    have next_i: "nearest mem tab address (Suc i) i"
      using Suc.prems(1,3) near by (force simp: nearest_def candidates_step)
    show ?thesis
    proof (cases "address = ?v i")
      case True
      have "nearest mem tab address n i"
        using next_i i(1) Suc.prems(1) low [of _ n] True
        by (auto simp: nearest_def candidates_def not_less_eq less_Suc_eq_le)
      with True near i Suc.prems sub show ?thesis by (subst name_loop.simps) (auto simp: Let_def)
    next
      case False
      with near i Suc.hyps(1) [of "Suc i" i "address - ?v i"] Suc.prems sub next_i low [OF cur] show ?thesis
        by (subst name_loop.simps) (auto simp: Let_def)
    qed
  qed
qed

lemma candidates_less: "0 < n \<Longrightarrow> k \<in> candidates mem tab address n \<Longrightarrow> k < n"
  by (auto simp: candidates_def)

lemma nearest_cong:
  assumes "0 < n" and "\<And>k. k < n \<Longrightarrow> read_sym mem (tab + 24 * k) = read_sym mem' (tab' + 24 * k)"
  shows "nearest mem tab address n c = nearest mem' tab' address n c"
proof -
  have "candidates mem tab address n = candidates mem' tab' address n"
    using assms(2) by (auto simp: candidates_def)
  moreover have "st_value (read_sym mem (tab + 24 * k)) = st_value (read_sym mem' (tab' + 24 * k))"
    if "k \<in> candidates mem' tab' address n" for k
    using assms(2) candidates_less [OF assms(1) that] by simp
  ultimately show ?thesis unfolding nearest_def by auto
qed

lemma TraceName_nearest:
  assumes "elf_sym s \<noteq> 0" and "24 \<le> elf_sym_size s" and "address < 2 ^ 64"
    and "st_value (read_sym mem (elf_sym s)) \<le> address"
  shows "\<exists>c. nearest mem (elf_sym s) address (elf_sym_size s div 24) c \<and>
    TraceName mem s address = Some (elf_str s + st_name (read_sym mem (elf_sym s + 24 * c)))"
proof -
  let ?n = "elf_sym_size s div 24"
  have n: "1 \<le> ?n" using assms(2) by (simp add: div_le_mono [of 24, simplified])
  have "sub64 address (st_value (read_sym mem (elf_sym s))) = address - st_value (read_sym mem (elf_sym s))"
    using assms(3,4) by (intro sub64_exact)
  moreover have "nearest mem (elf_sym s) address 1 0" by (auto simp: nearest_def candidates_def)
  ultimately have "nearest mem (elf_sym s) address ?n (name_loop mem (elf_sym s) address ?n 1 0
      (sub64 address (st_value (read_sym mem (elf_sym s)))))"
    using name_loop_nearest [OF assms(3,4), of 1 ?n 0] n by simp
  with n assms(1) show ?thesis
    by (intro exI conjI) (assumption, simp add: TraceName_def Let_def)
qed

text \<open>
  C26. After \<open>tab_search\<close>, \<open>TraceName\<close> gives the address of the name, in the copy of the string table, of the nearest
  function or untyped symbol at or below the address, as the sections of the kernel themselves have
  it; symbols of data are passed over, and the size of a symbol plays no part.
\<close>

theorem trace_names_from_sections:
  assumes "is_first (\<lambda>k. sh_type (header m sh k) = SHT_SYMTAB) 1 n (Some i)"
    and "is_first (\<lambda>k. sh_type (header m sh k) = SHT_STRTAB) 1 n (Some j)"
    and "hi = header m sh i" and "hj = header m sh j" and "24 \<le> sh_size hi" and "0 < sh_size hj" and "sh \<noteq> 0"
    and "stack_at e (stk m) lo" and "lo + sh_size hi + sh_size hj + 1 < 0x200000"
    and "outside lo (sh_addr hi) (sh_size hi)" and "outside lo (sh_addr hj) (sh_size hj)" and "outside lo sh (64 * n)"
    and "address < 2 ^ 64" and "st_value (read_sym (ram m) (sh_addr hi)) \<le> address"
  shows "\<exists>m' s' c a y. tab_search e (Some sh) n (m, s) = Inr (m', s') \<and> TraceName (ram m') s' address = Some a \<and>
    nearest (ram m) (sh_addr hi) address (sh_size hi div 24) c \<and> y = read_sym (ram m) (sh_addr hi + 24 * c) \<and>
    a = elf_str s' + st_name y \<and>
    (\<forall>k. st_name y + k < sh_size hj \<longrightarrow> ram m' (a + k) = ram m (sh_addr hj + st_name y + k))"
proof -
  have "0 < sh_size hi" using assms(5) by simp
  from tab_search_copies [OF assms(1-4) this assms(6-12), of s] obtain m' s' where
    t: "tab_search e (Some sh) n (m, s) = Inr (m', s')" "elf_sym s' \<noteq> 0" "elf_sym_size s' = sh_size hi"
    "\<And>k. k < sh_size hi \<Longrightarrow> ram m' (elf_sym s' + k) = ram m (sh_addr hi + k)"
    "\<And>k. k < sh_size hj \<Longrightarrow> ram m' (elf_str s' + k) = ram m (sh_addr hj + k)"
    by blast
  let ?n = "sh_size hi div 24"
  have n: "0 < ?n" using assms(5) by (simp add: div_greater_zero_iff)
  have sym: "read_sym (ram m') (elf_sym s' + 24 * k) = read_sym (ram m) (sh_addr hi + 24 * k)" if "k < ?n" for k
  proof -
    have "24 * k + 24 \<le> sh_size hi" using that by (metis Suc_leI less_eq_div_iff_mult_less_eq mult.commute mult_Suc_right add.commute zero_less_numeral)
    then have "ram m' (elf_sym s' + 24 * k + d) = ram m (sh_addr hi + 24 * k + d)" if "d < 24" for d
      using t(4) [of "24 * k + d"] that by (simp add: add.assoc)
    then show ?thesis by (rule read_sym_moved)
  qed
  have "st_value (read_sym (ram m') (elf_sym s')) \<le> address" using sym [OF n] assms(14) by simp
  from TraceName_nearest [OF t(2) _ assms(13) this] assms(5) obtain c where
    c: "nearest (ram m') (elf_sym s') address ?n c"
    "TraceName (ram m') s' address = Some (elf_str s' + st_name (read_sym (ram m') (elf_sym s' + 24 * c)))"
    by (auto simp: t(3))
  have "c < ?n" using c(1) by (intro candidates_less [OF n]) (auto simp: nearest_def)
  from sym [OF this] c have "TraceName (ram m') s' address = Some (elf_str s' + st_name (read_sym (ram m) (sh_addr hi + 24 * c)))"
    by simp
  moreover have "nearest (ram m) (sh_addr hi) address ?n c" using c(1) nearest_cong [OF n sym] by simp
  ultimately show ?thesis
    using t(1,5) by - (rule exI [of _ m'], rule exI [of _ s'], rule exI [of _ c], simp add: add.assoc)
qed

section \<open>Stack traces\<close>

text \<open>A chain of frames that ends at \<open>NULL\<close>, with their return addresses.\<close>

fun frames :: "(nat \<Rightarrow> u8) \<Rightarrow> nat \<Rightarrow> nat list \<Rightarrow> bool" where
  "frames mem a [] = (a = 0)"
| "frames mem a (r # rs) = (a \<noteq> 0 \<and> rd mem 8 (a + 8) = r \<and> frames mem (rd mem 8 a) rs)"

text \<open>The trace of such a chain has one line for each frame; a frame that leads back to itself gives no end.\<close>

lemma stack_walk_aux:
  "frames mem a rs \<Longrightarrow> stack_walk mem s a = Some (map (\<lambda>r. (r, TraceName mem s r)) rs)"
proof (induction rs arbitrary: a)
  case Nil
  then show ?case by (simp add: stack_walk.simps)
next
  case (Cons r rs)
  then show ?case by (subst stack_walk.simps) simp
qed

theorem stack_walk_lines:
  "frames mem a rs \<Longrightarrow> stack_walk mem s a = Some (map (\<lambda>r. (r, TraceName mem s r)) rs)"
  by (rule stack_walk_aux)

theorem stack_walk_lines_witness: "stack_walk (\<lambda>a. if a = 16 then 5 else 0) s 8 = Some [(5, TraceName (\<lambda>a. if a = 16 then 5 else 0) s 5)]"
  using stack_walk_lines [of "\<lambda>a. if a = 16 then 5 else 0" 8 "[5]" s] by (simp add: rd_def upt_conv_Cons)

text \<open>
  A small kernel image: three section headers at 0x1000, the symbol table at 0x2000 with a function at
  0x100000 behind the empty entry, and the string table at 0x2100.
\<close>

definition demo_image :: "nat \<Rightarrow> u8" where
  "demo_image = (\<lambda>_. 0)(0x1044 := 2, 0x1051 := 0x20, 0x1060 := 48, 0x1084 := 3, 0x1090 := 0, 0x1091 := 0x21,
     0x10A0 := 6, 0x2018 := 1, 0x201C := 2, 0x2022 := 0x10, 0x2101 := 107, 0x2102 := 109)"

definition demo_early :: early_memory where
  "demo_early = \<lparr>ram = demo_image, stk = \<lparr>MemStack_init = False, MemStack_enable = True, MemStack = 0\<rparr>\<rparr>"

lemma demo_headers:
  "sh_type (header demo_early 0x1000 0) = 0" "sh_type (header demo_early 0x1000 1) = 2"
  "sh_type (header demo_early 0x1000 2) = 3"
  "sh_addr (header demo_early 0x1000 1) = 0x2000" "sh_addr (header demo_early 0x1000 2) = 0x2100"
  "sh_size (header demo_early 0x1000 1) = 48" "sh_size (header demo_early 0x1000 2) = 6"
  by (simp_all add: read_shdr_def rd_def demo_early_def demo_image_def upt_conv_Cons)

lemma demo_firsts:
  "is_first (\<lambda>k. sh_type (header demo_early 0x1000 k) = SHT_SYMTAB) 1 3 (Some 1)"
  "is_first (\<lambda>k. sh_type (header demo_early 0x1000 k) = SHT_STRTAB) 1 3 (Some 2)"
  using demo_headers by (auto simp: is_first_def SHT_SYMTAB_def SHT_STRTAB_def le_Suc_eq less_Suc_eq numeral_2_eq_2)

lemma demo_stack: "stack_at 0x180000 (stk demo_early) 0x180040"
  by (simp add: stack_at_def demo_early_def)

lemma demo_outside: "outside 0x180040 0x2000 48" "outside 0x180040 0x2100 6" "outside 0x180040 0x1000 (64 * 3)"
  by (auto simp: outside_def)

lemma demo_numbers:
  "0 < (48 :: nat)" "24 \<le> (48 :: nat)" "0 < (6 :: nat)" "0x1000 \<noteq> (0 :: nat)" "0x180040 + 48 + 6 + 1 < (0x200000 :: nat)"
  "0x100010 < (2 ^ 64 :: nat)" "0 \<le> (0x100010 :: nat)" "48 div 24 = (2 :: nat)"
  by simp_all

theorem tab_search_copies_witness:
  "\<exists>m s. tab_search 0x180000 (Some 0x1000) 3 (demo_early, \<lparr>elf_sym = 0, elf_sym_size = 0, elf_str = 0, elf_str_size = 0\<rparr>) =
     Inr (m, s) \<and> elf_sym_size s = 48 \<and> elf_str_size s = 6 \<and> ram m (elf_str s + 1) = 107"
proof -
  let ?s = "\<lparr>elf_sym = 0, elf_sym_size = 0, elf_str = 0, elf_str_size = 0\<rparr>"
  have mem: "ram demo_early (0x2100 + 1) = 107" by (simp add: demo_early_def demo_image_def)
  note t = tab_search_copies [OF demo_firsts refl refl, unfolded demo_headers, OF _ _ _ demo_stack _ demo_outside]
  obtain m s where ms: "tab_search 0x180000 (Some 0x1000) 3 (demo_early, ?s) = Inr (m, s)"
    "elf_sym_size s = 48" "elf_str_size s = 6" "\<forall>k < 6. ram m (elf_str s + k) = ram demo_early (0x2100 + k)"
    using t [of ?s, OF demo_numbers(1,3-5)] by blast
  have "ram m (elf_str s + 1) = 107" using ms(4) [rule_format, of 1] mem by simp
  with ms(1-3) show ?thesis by blast
qed

lemma demo_symbols:
  "st_value (read_sym (ram demo_early) 0x2000) = 0" "st_value (read_sym (ram demo_early) 0x2018) = 0x100000"
  "st_name (read_sym (ram demo_early) 0x2018) = 1" "\<not> no_code (read_sym (ram demo_early) 0x2018)"
  by (simp_all add: read_sym_def rd_def demo_early_def demo_image_def upt_conv_Cons no_code_def ELF64_ST_TYPE_def
      STT_FUNC_def STT_NOTYPE_def)

theorem trace_names_witness:
  "\<exists>m s a. tab_search 0x180000 (Some 0x1000) 3 (demo_early, \<lparr>elf_sym = 0, elf_sym_size = 0, elf_str = 0, elf_str_size = 0\<rparr>) =
     Inr (m, s) \<and> TraceName (ram m) s 0x100010 = Some a \<and> ram m a = 107 \<and> ram m (a + 1) = 109"
proof -
  let ?s = "\<lparr>elf_sym = 0, elf_sym_size = 0, elf_str = 0, elf_str_size = 0\<rparr>"
  have mem: "ram demo_early (0x2100 + 1) = 107" "ram demo_early (0x2100 + 1 + 1) = 109"
    by (simp_all add: demo_early_def demo_image_def)
  have two: "k \<in> candidates (ram demo_early) 0x2000 0x100010 2 \<longleftrightarrow> k = 0 \<or> k = 1" for k
  proof -
    have "0 < k \<and> k < 2 \<longleftrightarrow> k = 1" by auto
    then show ?thesis using demo_symbols by (auto simp: candidates_def)
  qed
  have "c = 1" if "nearest (ram demo_early) 0x2000 0x100010 2 c" for c
  proof (rule ccontr)
    assume "c \<noteq> 1"
    with that two have "c = 0" by (auto simp: nearest_def)
    with that have "st_value (read_sym (ram demo_early) (0x2000 + 24 * 1)) \<le> st_value (read_sym (ram demo_early) (0x2000 + 24 * 0))"
      using two [of 1] unfolding nearest_def by blast
    with demo_symbols show False by simp
  qed
  note n = this
  note t = trace_names_from_sections [OF demo_firsts refl refl, unfolded demo_headers demo_symbols,
      OF _ _ _ demo_stack _ demo_outside, of "0x100010" ?s]
  obtain m s c a y where ms: "tab_search 0x180000 (Some 0x1000) 3 (demo_early, ?s) = Inr (m, s)"
    "TraceName (ram m) s 0x100010 = Some a" "nearest (ram demo_early) 0x2000 0x100010 2 c"
    "y = read_sym (ram demo_early) (0x2000 + 24 * c)"
    "\<forall>k. st_name y + k < 6 \<longrightarrow> ram m (a + k) = ram demo_early (0x2100 + st_name y + k)"
    using t [OF demo_numbers(2-7)] unfolding demo_numbers(8)
    by (elim exE conjE) (rule that, assumption+)
  have "c = 1" by (rule n) (rule ms(3))
  then have "st_name y = 1" using ms(4) demo_symbols by simp
  with ms(5) [rule_format, of 0] ms(5) [rule_format, of 1] mem
  have "ram m a = 107" "ram m (a + 1) = 109" by simp_all
  with ms(1,2) show ?thesis by blast
qed

end
