(* ===== verification/Syscalls.thy ===== *)
theory Syscalls
  imports Byte_Memory Heap
begin

text \<open>
  The table of system calls, kernel/syscall.c, on top of the kernel heap. The table is a block of pointers,
  each to a block with one entry; both lie in the byte memory \<open>sc_ram\<close>, at addresses \<open>kmalloc\<close> gives. The
  headers and pointers of the heap itself lie between the blocks and are kept in \<open>sc_heap\<close>.
\<close>

record syscalls =
  sc_heap :: heap
  sc_ram :: "nat \<Rightarrow> u8"
  syscall_VT :: nat
  syscall_VT_length :: nat

definition SYC_RETURN_ACK :: int where "SYC_RETURN_ACK = 0"
definition SYSCALL_SYC :: u32 where "SYSCALL_SYC = 2"
definition DEFAULT_SYSCALL_INT :: u8 where "DEFAULT_SYSCALL_INT = 0x80"

text \<open>\<open>struct Syscall_Entry\<close>: the number, four bytes of padding, the function.\<close>

definition entry_at :: "(nat \<Rightarrow> u8) \<Rightarrow> nat \<Rightarrow> nat \<Rightarrow> nat" where
  "entry_at mem vt i = rd mem 8 (vt + 8 * i)"

definition entry_id :: "(nat \<Rightarrow> u8) \<Rightarrow> nat \<Rightarrow> u32" where
  "entry_id mem e = word_of_nat (rd mem 4 e)"

definition entry_function :: "(nat \<Rightarrow> u8) \<Rightarrow> nat \<Rightarrow> u64" where
  "entry_function mem e = word_of_nat (rd mem 8 (e + 8))"

function find_index_from :: "(nat \<Rightarrow> u8) \<Rightarrow> nat \<Rightarrow> nat \<Rightarrow> u32 \<Rightarrow> nat \<Rightarrow> int" where
  "find_index_from mem vt n nr i =
     (if i < n then if entry_id mem (entry_at mem vt i) = nr then int i else find_index_from mem vt n nr (i + 1)
      else - 1)"
  by pat_completeness auto
termination by (relation "measure (\<lambda>(_, _, n, _, i). n - i)") auto

declare find_index_from.simps [simp del]

definition syscall_find_index :: "syscalls \<Rightarrow> u32 \<Rightarrow> int" where
  "syscall_find_index s nr = find_index_from (sc_ram s) (syscall_VT s) (syscall_VT_length s) nr 0"

text \<open>The bytes that \<open>kfree\<close> sets to 0, counted from the address.\<close>

fun kfree_wiped :: "heap \<Rightarrow> nat \<Rightarrow> nat" where
  "kfree_wiped [] address = 0"
| "kfree_wiped (h # hs) address =
     (if address > h_addr h \<and> address < h_addr h + h_size h then
        (case free_pointer (h_ptrs h) address of None \<Rightarrow> 0 | Some (_, n) \<Rightarrow> n)
      else kfree_wiped hs address)"

definition kfree_ram :: "heap \<Rightarrow> nat \<Rightarrow> (nat \<Rightarrow> u8) \<Rightarrow> (nat \<Rightarrow> u8)" where
  "kfree_ram h address mem = memset mem address 0 (kfree_wiped h address)"

text \<open>A new entry: a longer table, the old one copied and given back, and a block for the entry.\<close>

definition syscall_add :: "(nat \<Rightarrow> nat) \<Rightarrow> syscalls \<Rightarrow> u32 \<Rightarrow> syscalls res" where
  "syscall_add newpages s nr =
     (let n = syscall_VT_length s; vt = syscall_VT s in
      and_then (kmalloc newpages (sc_heap s) (8 * (n + 1))) (\<lambda>(h, newSTR).
      if newSTR = 0 then Inl NullDeref
      else
        let mem = memcpy (sc_ram s) newSTR vt (8 * n) in
        and_then (kfree h vt) (\<lambda>h'.
        let mem = kfree_ram h vt mem in
        and_then (kmalloc newpages h' 16) (\<lambda>(h, e).
        if e = 0 then Inl NullDeref
        else
          let mem = wr mem 8 (newSTR + 8 * n) (word_of_nat e :: u64);
              mem = wr mem 4 (entry_at mem newSTR n) nr
          in Inr \<lparr>sc_heap = h, sc_ram = mem, syscall_VT = newSTR, syscall_VT_length = n + 1\<rparr>))))"

definition set_function :: "syscalls \<Rightarrow> nat \<Rightarrow> u64 \<Rightarrow> syscalls" where
  "set_function s index f =
     s\<lparr>sc_ram := wr (sc_ram s) 8 (entry_at (sc_ram s) (syscall_VT s) index + 8) f\<rparr>"

definition syscall_set :: "(nat \<Rightarrow> nat) \<Rightarrow> syscalls \<Rightarrow> u32 \<Rightarrow> u64 \<Rightarrow> (syscalls \<times> int) res" where
  "syscall_set newpages s nr f =
     (let index = syscall_find_index s nr in
      if index = - 1 then
        and_then (syscall_add newpages s nr) (\<lambda>s'. Inr (set_function s' (syscall_VT_length s) f, 0))
      else Inr (set_function s (nat index) f, 0))"

definition sc_fnc :: "u32 \<Rightarrow> int" where "sc_fnc nr = SYC_RETURN_ACK"

definition syscall_init :: "(nat \<Rightarrow> nat) \<Rightarrow> u64 \<Rightarrow> syscalls \<Rightarrow> (syscalls \<times> int) res" where
  "syscall_init newpages sc_fnc_address s =
     and_then (kmalloc newpages (sc_heap s) 1) (\<lambda>(h, a).
     and_then (syscall_set newpages (s\<lparr>sc_heap := h, syscall_VT := a\<rparr>) SYSCALL_SYC sc_fnc_address) (\<lambda>(s, _).
     Inr (s, 0)))"

text \<open>The two functions a call from a program would need: no function is ever resolved.\<close>

definition syscall_resolve_function :: "u32 \<Rightarrow> nat" where "syscall_resolve_function nr = 0"

definition syscall_c :: "syscalls \<Rightarrow> syscalls" where "syscall_c s = s"

section \<open>The table as a map\<close>

definition sc_entry :: "syscalls \<Rightarrow> nat \<Rightarrow> nat" where
  "sc_entry s i = entry_at (sc_ram s) (syscall_VT s) i"

definition sc_table :: "syscalls \<Rightarrow> (u32 \<times> u64) list" where
  "sc_table s = map (\<lambda>i. (entry_id (sc_ram s) (sc_entry s i), entry_function (sc_ram s) (sc_entry s i)))
     [0..<syscall_VT_length s]"

definition sc_map :: "syscalls \<Rightarrow> (u32 \<rightharpoonup> u64)" where
  "sc_map s = map_of (sc_table s)"

text \<open>The parts of the memory the table uses, as addresses with lengths.\<close>

definition sc_areas :: "syscalls \<Rightarrow> (nat \<times> nat) list" where
  "sc_areas s = (syscall_VT s, 8 * syscall_VT_length s) # map (\<lambda>i. (sc_entry s i, 16)) [0..<syscall_VT_length s]"

abbreviation in_use :: "heap \<Rightarrow> nat \<times> nat \<Rightarrow> bool" where
  "in_use h \<equiv> held (heap_taken h)"

definition sc_ok :: "syscalls \<Rightarrow> bool" where
  "sc_ok s \<longleftrightarrow> heap_ok (sc_heap s) \<and> (\<forall>r \<in> set (sc_areas s). in_use (sc_heap s) r) \<and>
     sorted_wrt (\<lambda>r q. area r \<inter> area q = {}) (sc_areas s) \<and> distinct (map fst (sc_table s))"

lemma map_of_list_update:
  "distinct (map fst xs) \<Longrightarrow> i < length xs \<Longrightarrow> fst (xs ! i) = k \<Longrightarrow> map_of (xs[i := (k, v)]) = (map_of xs)(k \<mapsto> v)"
proof (induction xs arbitrary: i)
  case (Cons x xs)
  show ?case
  proof (cases i)
    case 0
    with Cons.prems show ?thesis by (cases x) (auto intro!: ext)
  next
    case (Suc j)
    then have "fst x \<noteq> k" using Cons.prems by (metis fst_conv list.simps(9) distinct.simps(2) length_map nth_Cons_Suc nth_map nth_mem Suc_less_eq length_Cons)
    with Cons Suc show ?thesis by (cases x) (auto simp: fun_upd_twist)
  qed
qed simp

lemma find_index:
  "find_index_from mem vt n nr i = - 1 \<and> (\<forall>k. i \<le> k \<and> k < n \<longrightarrow> entry_id mem (entry_at mem vt k) \<noteq> nr) \<or>
   (\<exists>j. find_index_from mem vt n nr i = int j \<and> i \<le> j \<and> j < n \<and> entry_id mem (entry_at mem vt j) = nr)"
proof (induction mem vt n nr i rule: find_index_from.induct)
  case (1 mem vt n nr i)
  show ?case
  proof (cases "i < n \<and> entry_id mem (entry_at mem vt i) \<noteq> nr")
    case True
    with 1 consider "find_index_from mem vt n nr (i + 1) = - 1" "\<forall>k. i + 1 \<le> k \<and> k < n \<longrightarrow> entry_id mem (entry_at mem vt k) \<noteq> nr"
      | j where "find_index_from mem vt n nr (i + 1) = int j" "i + 1 \<le> j" "j < n" "entry_id mem (entry_at mem vt j) = nr"
      by blast
    then show ?thesis
    proof cases
      case 1
      with True show ?thesis
        by (subst (1 2) find_index_from.simps) (metis Suc_eq_plus1 Suc_leI le_neq_implies_less)
    next
      case 2
      with True show ?thesis by (subst (1 2) find_index_from.simps) auto
    qed
  next
    case False
    then show ?thesis by (subst (1 2) find_index_from.simps) auto
  qed
qed

lemma table_nth: "i < syscall_VT_length s \<Longrightarrow>
    sc_table s ! i = (entry_id (sc_ram s) (sc_entry s i), entry_function (sc_ram s) (sc_entry s i))"
  by (simp add: sc_table_def)

lemma length_table: "length (sc_table s) = syscall_VT_length s"
  by (simp add: sc_table_def)

text \<open>The search decides whether the number is in the table.\<close>

lemma syscall_find_index_spec:
  "syscall_find_index s nr = - 1 \<and> nr \<notin> dom (sc_map s) \<or>
   (\<exists>i < syscall_VT_length s. syscall_find_index s nr = int i \<and> fst (sc_table s ! i) = nr \<and> nr \<in> dom (sc_map s))"
proof -
  have dom: "dom (sc_map s) = (\<lambda>i. entry_id (sc_ram s) (sc_entry s i)) ` {0..<syscall_VT_length s}"
    by (auto simp: sc_map_def dom_map_of_conv_image_fst sc_table_def image_image)
  from find_index [of "sc_ram s" "syscall_VT s" "syscall_VT_length s" nr 0]
  show ?thesis
    unfolding syscall_find_index_def [symmetric] dom
    by (auto simp: table_nth sc_entry_def)
qed

section \<open>Setting a function\<close>

lemma areas_disjoint:
  assumes "sorted_wrt (\<lambda>r q. area r \<inter> area q = {}) (x # map f [0..<n])"
  shows "i < n \<Longrightarrow> area x \<inter> area (f i) = {}" and "i < n \<Longrightarrow> j < n \<Longrightarrow> i \<noteq> j \<Longrightarrow> area (f i) \<inter> area (f j) = {}"
proof -
  show "area x \<inter> area (f i) = {}" if "i < n" using assms that by simp
  have "area (f i) \<inter> area (f j) = {}" if "i < j" "j < n" for i j
  proof -
    have "sorted_wrt (\<lambda>r q. area r \<inter> area q = {}) (map f [0..<n])" using assms by simp
    from sorted_wrt_nth_less [OF this, of i j] that show ?thesis by simp
  qed
  then show "area (f i) \<inter> area (f j) = {}" if "i < n" "j < n" "i \<noteq> j"
    using that by (metis Int_commute linorder_neqE_nat)
qed

lemma rd_in_area: "{a..<a + k} \<subseteq> area r \<Longrightarrow> {b..<b + j} \<subseteq> area q \<Longrightarrow> area r \<inter> area q = {} \<Longrightarrow>
    rd (wr mem j b w) k a = rd mem k a"
  by (rule rd_wr_other) blast

text \<open>Writing the function of entry \<open>i\<close> when the entries are apart.\<close>

lemma set_function_table:
  assumes "sorted_wrt (\<lambda>r q. area r \<inter> area q = {}) (sc_areas s)" and "i < syscall_VT_length s"
  shows "sc_table (set_function s i f) = (sc_table s)[i := (fst (sc_table s ! i), f)]"
    and "sc_areas (set_function s i f) = sc_areas s" and "sc_heap (set_function s i f) = sc_heap s"
proof -
  let ?s = "set_function s i f"
  note apart = areas_disjoint [OF assms(1) [unfolded sc_areas_def]]
  have same: "syscall_VT ?s = syscall_VT s" "syscall_VT_length ?s = syscall_VT_length s"
    "sc_ram ?s = wr (sc_ram s) 8 (sc_entry s i + 8) f"
    by (simp_all add: set_function_def sc_entry_def)
  have here: "{sc_entry s i + 8..<sc_entry s i + 8 + 8} \<subseteq> area (sc_entry s i, 16)" by (auto simp: area_def)
  have entry: "sc_entry ?s j = sc_entry s j" if "j < syscall_VT_length s" for j
  proof -
    have "{syscall_VT s + 8 * j..<syscall_VT s + 8 * j + 8} \<subseteq> area (syscall_VT s, 8 * syscall_VT_length s)"
      using that by (auto simp: area_def)
    from rd_in_area [OF this here apart(1) [OF assms(2)], of "sc_ram s" f] show ?thesis
      by (simp add: sc_entry_def entry_at_def same)
  qed
  have number: "entry_id (sc_ram ?s) (sc_entry s j) = entry_id (sc_ram s) (sc_entry s j)" if "j < syscall_VT_length s" for j
  proof (cases "j = i")
    case True
    then show ?thesis by (simp add: entry_id_def same rd_wr_other)
  next
    case False
    have "{sc_entry s j..<sc_entry s j + 4} \<subseteq> area (sc_entry s j, 16)" by (auto simp: area_def)
    from rd_in_area [OF this here apart(2) [OF that assms(2) False], of "sc_ram s" f] show ?thesis
      by (simp add: entry_id_def same)
  qed
  have target: "entry_function (sc_ram ?s) (sc_entry s j) = (if j = i then f else entry_function (sc_ram s) (sc_entry s j))"
    if "j < syscall_VT_length s" for j
  proof (cases "j = i")
    case True
    then show ?thesis by (simp add: entry_function_def same rd_wr_same)
  next
    case False
    have "{sc_entry s j + 8..<sc_entry s j + 8 + 8} \<subseteq> area (sc_entry s j, 16)" by (auto simp: area_def)
    from rd_in_area [OF this here apart(2) [OF that assms(2) False], of "sc_ram s" f] False show ?thesis
      by (simp add: entry_function_def same)
  qed
  show "sc_table ?s = (sc_table s)[i := (fst (sc_table s ! i), f)]"
    by (rule nth_equalityI)
      (auto simp: length_table same table_nth entry number [unfolded same(3)] target [unfolded same(3)]
        nth_list_update assms(2))
  show "sc_areas ?s = sc_areas s" by (simp add: sc_areas_def same entry)
  show "sc_heap ?s = sc_heap s" by (simp add: set_function_def)
qed

lemma syscall_set_found:
  assumes "sc_ok s" and "nr \<in> dom (sc_map s)"
  shows "\<exists>s'. syscall_set newpages s nr f = Inr (s', 0) \<and> sc_ok s' \<and> sc_map s' = (sc_map s)(nr \<mapsto> f) \<and>
    sc_heap s' = sc_heap s"
proof -
  obtain i where i: "i < syscall_VT_length s" "syscall_find_index s nr = int i" "fst (sc_table s ! i) = nr"
    using syscall_find_index_spec [of s nr] assms(2) by auto
  have ok: "sorted_wrt (\<lambda>r q. area r \<inter> area q = {}) (sc_areas s)" "distinct (map fst (sc_table s))"
    using assms(1) by (simp_all add: sc_ok_def)
  note set = set_function_table [OF ok(1) i(1), of f]
  have "map fst (sc_table (set_function s i f)) = map fst (sc_table s)"
    unfolding set(1) using i(1) by (metis fst_conv length_table list_update_id map_update nth_map)
  then have "sc_ok (set_function s i f)" using assms(1) by (simp add: sc_ok_def set(2,3))
  moreover have "sc_map (set_function s i f) = (sc_map s)(nr \<mapsto> f)"
    unfolding sc_map_def set(1) i(3) using ok(2) i by (intro map_of_list_update) (simp_all add: length_table)
  moreover have "syscall_set newpages s nr f = Inr (set_function s i f, 0)"
    by (simp add: syscall_set_def i(2))
  ultimately show ?thesis using set(3) by blast
qed

section \<open>A new number\<close>

text \<open>
  What a new entry needs: room for the longer table and, after that, for the entry; and that the old table
  does not lie 256 bytes behind a pointer of the heap, where \<open>kfree\<close> would take it for another block.
\<close>

definition can_add :: "(nat \<Rightarrow> nat) \<Rightarrow> syscalls \<Rightarrow> bool" where
  "can_add newpages s \<longleftrightarrow>
     list_ex (\<lambda>h. 8 * (syscall_VT_length s + 1) \<le> h_size_max h) (sc_heap s) \<and>
     (case kmalloc newpages (sc_heap s) (8 * (syscall_VT_length s + 1)) of Inl _ \<Rightarrow> False
      | Inr (h1, _) \<Rightarrow> list_ex (\<lambda>h. 16 \<le> h_size_max h) h1 \<and>
          list_all (\<lambda>h. list_all (\<lambda>p. p_addr p + 256 \<noteq> syscall_VT s) (h_ptrs h)) h1)"

lemma kfree_wiped_leaks: "\<forall>h \<in> set hs. \<forall>p \<in> set (h_ptrs h). p_addr p + 256 \<noteq> a \<Longrightarrow> kfree_wiped hs a = 0"
  by (induction hs) (auto simp: free_pointer_none)

lemma syscall_add_ok:
  assumes "sc_ok s" and "can_add newpages s"
  shows "\<exists>s'. syscall_add newpages s nr = Inr s' \<and> heap_ok (sc_heap s') \<and> heap_taken (sc_heap s) \<subseteq> heap_taken (sc_heap s') \<and>
    syscall_VT_length s' = syscall_VT_length s + 1 \<and>
    (\<forall>r \<in> set (sc_areas s'). in_use (sc_heap s') r) \<and> sorted_wrt (\<lambda>r q. area r \<inter> area q = {}) (sc_areas s') \<and>
    (\<exists>g. sc_table s' = sc_table s @ [(nr, g)])"
proof -
  define n vt h where nvh: "n = syscall_VT_length s" "vt = syscall_VT s" "h = sc_heap s"
  let ?as = "sc_areas s"
  have h: "heap_ok h" and used: "\<And>r. r \<in> set ?as \<Longrightarrow> in_use h r" and apart: "sorted_wrt (\<lambda>r q. area r \<inter> area q = {}) ?as"
    using assms(1) by (simp_all add: sc_ok_def nvh)
  have "0 < 8 * (n + 1)" by simp
  moreover have "heap_room h (8 * (n + 1))"
    using assms(2) unfolding can_add_def nvh heap_room_def by (rule conjunct1)
  ultimately obtain h1 a where a: "kmalloc newpages h (8 * (n + 1)) = Inr (h1, a)" "heap_ok h1" "heap_taken h \<subseteq> heap_taken h1"
    "in_use h1 (a, 8 * (n + 1))" "0 < a" "\<And>r. in_use h r \<Longrightarrow> area (a, 8 * (n + 1)) \<inter> area r = {}"
    using heap_blocks.one_block [OF h, of "8 * (n + 1)" newpages] by blast
  have c: "heap_room h1 16" "\<forall>h \<in> set h1. \<forall>p \<in> set (h_ptrs h). p_addr p + 256 \<noteq> vt"
    using assms(2) a(1) by (simp_all add: can_add_def nvh [symmetric] list_all_iff heap_room_def)
  obtain h2 e where e: "kmalloc newpages h1 16 = Inr (h2, e)" "heap_ok h2" "heap_taken h1 \<subseteq> heap_taken h2"
    "in_use h2 (e, 16)" "0 < e" "e < 2 ^ 64" "\<And>r. in_use h1 r \<Longrightarrow> area (e, 16) \<inter> area r = {}"
    using heap_blocks.one_block [OF a(2) _ c(1), of newpages] by auto
  define m1 where "m1 = memcpy (sc_ram s) a vt (8 * n)"
  define m2 where "m2 = wr m1 8 (a + 8 * n) (word_of_nat e :: u64)"
  define m3 where "m3 = wr m2 4 e nr"
  define s' where "s' = \<lparr>sc_heap = h2, sc_ram = m3, syscall_VT = a, syscall_VT_length = n + 1\<rparr>"
  have fields: "sc_ram s' = m3" "syscall_VT s' = a" "syscall_VT_length s' = n + 1" "sc_heap s' = h2"
    by (simp_all add: s'_def)
  have free: "kfree h1 vt = Inr h1" "kfree_ram h1 vt m1 = m1"
    using kfree_leaks [OF c(2)] kfree_wiped_leaks [OF c(2)] by (auto simp: kfree_ram_def)
  have new: "{a + 8 * i..<a + 8 * i + 8} \<subseteq> area (a, 8 * (n + 1))" if "i < n + 1" for i
    using that by (rule area_part)
  have ee: "{e..<e + 4} \<subseteq> area (e, 16)" by (auto simp: area_def)
  have table_apart: "area (e, 16) \<inter> area (a, 8 * (n + 1)) = {}" by (rule e(7)) (rule a(4))
  have elsewhere: "rd m3 8 (a + 8 * i) = rd m2 8 (a + 8 * i)" if "i < n + 1" for i
  proof -
    have "{a + 8 * i..<a + 8 * i + 8} \<inter> {e..<e + 4} = {}" using new [OF that] ee table_apart by blast
    then show ?thesis unfolding m3_def by (rule rd_wr_other)
  qed
  have ptr: "unat (word_of_nat e :: u64) = e" using e(6) by (simp add: unat_of_nat take_bit_nat_eq_self)
  have last: "entry_at m2 a n = e" by (simp add: entry_at_def m2_def rd_wr_same ptr)
  have add: "syscall_add newpages s nr = Inr s'"
    unfolding syscall_add_def Let_def nvh [symmetric]
    using a(1,5) e(1,5) free last by (simp add: m1_def [symmetric] m2_def [symmetric] m3_def [symmetric] s'_def)
  have old: "rd m3 k x = rd (sc_ram s) k x" if "{x..<x + k} \<subseteq> area r" "r \<in> set ?as" for k x r
  proof -
    have "area (a, 8 * (n + 1)) \<inter> area r = {}" "area (e, 16) \<inter> area r = {}"
      using a(6) e(7) used [OF that(2)] held_mono [OF used [OF that(2)] a(3)] by blast+
    moreover have "{a..<a + 8 * n} \<subseteq> area (a, 8 * (n + 1))" by (auto simp: area_def)
    moreover have "{a + 8 * n..<a + 8 * n + 8} \<subseteq> area (a, 8 * (n + 1))" by (rule new) simp
    ultimately have "rd m3 k x = rd m2 k x" "rd m2 k x = rd m1 k x" "rd m1 k x = rd (sc_ram s) k x"
      unfolding m3_def m2_def m1_def using that(1) ee by (intro rd_wr_other rd_memcpy_other; blast)+
    then show ?thesis by simp
  qed
  have areas: "?as = (vt, 8 * n) # map (\<lambda>i. (sc_entry s i, 16)) [0..<n]" by (simp add: sc_areas_def nvh)
  have entry: "sc_entry s' i = sc_entry s i" if "i < n" for i
  proof -
    have "area (a, 8 * (n + 1)) \<inter> area (vt, 8 * n) = {}" by (rule a(6), rule used) (simp add: areas)
    then have src: "{vt..<vt + 8 * n} \<inter> {a..<a + 8 * n} = {}" by (auto simp: area_def disjoint_iff)
    have "rd m3 8 (a + 8 * i) = rd m2 8 (a + 8 * i)" using that by (intro elsewhere) simp
    also have "\<dots> = rd m1 8 (a + 8 * i)" unfolding m2_def using that by (intro rd_wr_other) auto
    also have "\<dots> = rd (sc_ram s) 8 (vt + 8 * i)" unfolding m1_def using that by (intro rd_memcpy_in [OF src]) simp
    finally show ?thesis by (simp add: sc_entry_def entry_at_def s'_def nvh)
  qed
  have entry_n: "sc_entry s' n = e"
  proof -
    have "rd m3 8 (a + 8 * n) = rd m2 8 (a + 8 * n)" by (intro elsewhere) simp
    with last show ?thesis by (simp add: sc_entry_def entry_at_def s'_def)
  qed
  have areas': "sc_areas s' = (a, 8 * (n + 1)) # map (\<lambda>i. (sc_entry s i, 16)) [0..<n] @ [(e, 16)]"
    by (simp add: sc_areas_def fields entry entry_n)
  have "in_use h2 r" if "r \<in> set (sc_areas s')" for r
    using that used held_mono [OF a(4) e(3)] e(3,4) a(3) held_mono [of "heap_taken h" r "heap_taken h2"]
    unfolding areas' areas by auto
  moreover have "sorted_wrt (\<lambda>r q. area r \<inter> area q = {}) (sc_areas s')"
  proof -
    have "area (a, 8 * (n + 1)) \<inter> area (sc_entry s i, 16) = {}" "area (sc_entry s i, 16) \<inter> area (e, 16) = {}" if "i < n" for i
    proof -
      have i: "in_use h (sc_entry s i, 16)" using that by (intro used) (auto simp: areas)
      show "area (a, 8 * (n + 1)) \<inter> area (sc_entry s i, 16) = {}" using a(6) [OF i] .
      show "area (sc_entry s i, 16) \<inter> area (e, 16) = {}" using e(7) [OF held_mono [OF i a(3)]] by blast
    qed
    then show ?thesis
      using apart table_apart unfolding areas' areas by (auto simp: sorted_wrt_append Int_commute)
  qed
  moreover have "sc_table s' = sc_table s @ [(nr, entry_function m3 e)]"
  proof (rule nth_equalityI)
    show "length (sc_table s') = length (sc_table s @ [(nr, entry_function m3 e)])"
      by (simp add: length_table s'_def nvh)
    fix i
    assume "i < length (sc_table s')"
    then have "i < n + 1" by (simp add: length_table s'_def)
    then consider "i < n" | "i = n" by linarith
    then show "sc_table s' ! i = (sc_table s @ [(nr, entry_function m3 e)]) ! i"
    proof cases
      case 1
      have r: "(sc_entry s i, 16) \<in> set ?as" using 1 by (auto simp: areas)
      have "{sc_entry s i..<sc_entry s i + 4} \<subseteq> area (sc_entry s i, 16)"
        "{sc_entry s i + 8..<sc_entry s i + 8 + 8} \<subseteq> area (sc_entry s i, 16)" by (auto simp: area_def)
      then have "rd m3 4 (sc_entry s i) = rd (sc_ram s) 4 (sc_entry s i)"
        "rd m3 8 (sc_entry s i + 8) = rd (sc_ram s) 8 (sc_entry s i + 8)" using old [OF _ r] by blast+
      then show ?thesis
        using 1 by (simp add: nth_append length_table nvh [symmetric] table_nth entry fields entry_id_def entry_function_def)
    next
      case 2
      have "entry_id m3 e = nr" by (simp add: entry_id_def m3_def rd_wr_same)
      then show ?thesis
        using 2 by (simp add: nth_append length_table nvh [symmetric] table_nth entry_n fields)
    qed
  qed
  ultimately show ?thesis using add e(2,3) a(3) by (intro exI [of _ s']) (auto simp: s'_def nvh)
qed

lemma syscall_set_new:
  assumes "sc_ok s" and "nr \<notin> dom (sc_map s)" and "can_add newpages s"
  shows "\<exists>s'. syscall_set newpages s nr f = Inr (s', 0) \<and> sc_ok s' \<and> sc_map s' = (sc_map s)(nr \<mapsto> f) \<and>
    heap_taken (sc_heap s) \<subseteq> heap_taken (sc_heap s')"
proof -
  from syscall_add_ok [OF assms(1,3), of nr] obtain s1 g where
    s1: "syscall_add newpages s nr = Inr s1" "heap_ok (sc_heap s1)" "heap_taken (sc_heap s) \<subseteq> heap_taken (sc_heap s1)"
    "syscall_VT_length s1 = syscall_VT_length s + 1" "\<forall>r \<in> set (sc_areas s1). in_use (sc_heap s1) r"
    "sorted_wrt (\<lambda>r q. area r \<inter> area q = {}) (sc_areas s1)" "sc_table s1 = sc_table s @ [(nr, g)]"
    by blast
  let ?n = "syscall_VT_length s"
  let ?s = "set_function s1 ?n f"
  have "?n < syscall_VT_length s1" using s1(4) by simp
  note set = set_function_table [OF s1(6) this, of f]
  have table: "sc_table ?s = sc_table s @ [(nr, f)]"
    unfolding set(1) s1(7) using length_table [of s] by (simp add: nth_append list_update_append)
  have new: "nr \<notin> fst ` set (sc_table s)" using assms(2) by (simp add: sc_map_def dom_map_of_conv_image_fst)
  have "sc_ok ?s"
    using assms(1) s1(2,5,6) new unfolding sc_ok_def set(2,3) table by simp
  moreover have "sc_map ?s = (sc_map s)(nr \<mapsto> f)"
  proof
    fix x
    have "map_of (sc_table s) nr = None" using new by (simp add: map_of_eq_None_iff)
    then show "sc_map ?s x = ((sc_map s)(nr \<mapsto> f)) x"
      by (simp add: sc_map_def table map_add_def split: option.split)
  qed
  moreover have "syscall_find_index s nr = - 1" using syscall_find_index_spec [of s nr] assms(2) by blast
  then have "syscall_set newpages s nr f = Inr (?s, 0)" by (simp add: syscall_set_def s1(1))
  ultimately show ?thesis using s1(3) unfolding set(3) [symmetric] by blast
qed


text \<open>The state \<open>syscall_init\<close> starts the table with: a block of one byte and no entry.\<close>

definition empty_table :: "heap \<Rightarrow> (nat \<Rightarrow> u8) \<Rightarrow> nat \<Rightarrow> syscalls" where
  "empty_table h mem a = \<lparr>sc_heap = h, sc_ram = mem, syscall_VT = a, syscall_VT_length = 0\<rparr>"

lemma empty_table_ok:
  assumes "heap_ok h" and "in_use h (a, 1)"
  shows "sc_ok (empty_table h mem a)" and "sc_map (empty_table h mem a) = Map.empty"
  using assms by (auto simp: sc_ok_def empty_table_def sc_areas_def sc_table_def sc_map_def held_def)

text \<open>At boot: the table holds the call that manages the others, and nothing else.\<close>

theorem syscall_init_table:
  assumes "heap_ok h" and "list_ex (\<lambda>k. 1 \<le> h_size_max k) h" and "syscall_VT_length s = 0" and "sc_heap s = h"
    and "\<And>h' a. kmalloc newpages h 1 = Inr (h', a) \<Longrightarrow> can_add newpages (empty_table h' (sc_ram s) a)"
  shows "\<exists>s'. syscall_init newpages f s = Inr (s', 0) \<and> sc_ok s' \<and> sc_map s' = [SYSCALL_SYC \<mapsto> f]"
proof -
  from heap_blocks.one_block [OF assms(1) _ assms(2) [folded heap_room_def], of newpages] obtain h' a where
    a: "kmalloc newpages h 1 = Inr (h', a)" "heap_ok h'" "in_use h' (a, 1)" by auto
  have "s\<lparr>sc_heap := h', syscall_VT := a\<rparr> = empty_table h' (sc_ram s) a"
    using assms(3) by (cases s) (simp add: empty_table_def)
  moreover note ok = empty_table_ok [OF a(2,3), of "sc_ram s"]
  moreover obtain s' where "syscall_set newpages (empty_table h' (sc_ram s) a) SYSCALL_SYC f = Inr (s', 0)" "sc_ok s'"
    "sc_map s' = (sc_map (empty_table h' (sc_ram s) a))(SYSCALL_SYC \<mapsto> f)"
    using syscall_set_new [OF ok(1) _ assms(5) [OF a(1)], of SYSCALL_SYC f] ok(2) by auto
  ultimately show ?thesis using a(1) assms(4) by (simp add: syscall_init_def)
qed

text \<open>The first page of the heap after the block of one byte, and a first number in the table.\<close>

definition demo_heap :: heap where
  "demo_heap = [\<lparr>h_addr = 0x200000, h_size = 4096, h_size_max = 4039,
     h_ptrs = [\<lparr>p_addr = 0x200018, p_size = 0\<rparr>, \<lparr>p_addr = 0x200029, p_size = 4039\<rparr>]\<rparr>]"

lemma demo_heap_is: "kmalloc newpages [first_header 0x200000] 1 = Inr (demo_heap, 0x200028)"
  by (simp add: kmalloc_def first_header_def header_alloc_def use_pointer_def findSize_max_def sub64_def Let_def demo_heap_def)

lemma demo_can_add: "can_add newpages (empty_table demo_heap mem 0x200028)"
  by (simp add: can_add_def empty_table_def demo_heap_def kmalloc_def header_alloc_def use_pointer_def findSize_max_def
      sub64_def Let_def)

lemma demo_table_ok: "sc_ok (empty_table demo_heap mem 0x200028)" "sc_map (empty_table demo_heap mem 0x200028) = Map.empty"
  by (rule empty_table_ok; simp add: demo_heap_def header_ok_def findSize_max_def held_def heap_taken_def header_taken_def)+


theorem syscall_init_table_witness:
  "\<exists>s'. syscall_init (\<lambda>_. 0) 0x101000 \<lparr>sc_heap = [first_header 0x200000], sc_ram = \<lambda>_. 0, syscall_VT = 0,
     syscall_VT_length = 0\<rparr> = Inr (s', 0) \<and> sc_map s' = [SYSCALL_SYC \<mapsto> 0x101000]"
proof -
  have room: "list_ex (\<lambda>k. 1 \<le> h_size_max k) [first_header 0x200000]" by (simp add: first_header_def)
  have add: "can_add (\<lambda>_. 0) (empty_table h' mem a)" if "kmalloc (\<lambda>_. 0) [first_header 0x200000] 1 = Inr (h', a)" for h' mem a
    using that demo_can_add by (simp only: demo_heap_is) simp
  from syscall_init_table [OF first_heap_ok room, where newpages = "\<lambda>_. 0" and f = "0x101000"
      and s = "\<lparr>sc_heap = [first_header 0x200000], sc_ram = \<lambda>_. 0, syscall_VT = 0, syscall_VT_length = 0\<rparr>"] add
  show ?thesis by (auto simp del: One_nat_def)
qed

end
