(* ===== verification/Segments.thy ===== *)
theory Segments
  imports Byte_Memory
begin

text \<open>
  The segment descriptors: \<open>initGDT\<close> of arch/X86_64/gdt.c, which fills in the descriptor of the task state segment
  in the table that boot32.asm left behind, and \<open>initTSS\<close> of tss.c. The table lies in the byte memory;
  \<open>sgdt\<close> gives its limit and address, the address of the structure \<open>sch_tss\<close> is an argument.
\<close>

definition GDT_LEN :: u16 where "GDT_LEN = 1 + 2 + 2 + 1"
definition GDT_TSS_SELECTOR :: u16 where "GDT_TSS_SELECTOR = 0x28"

text \<open>\<open>struct TSS\<close>, packed: the sizes of its fields in order.\<close>

definition TSS_fields :: "(string \<times> nat) list" where
  "TSS_fields =
    [(''resv0'', 4), (''rsp0'', 8), (''rsp1'', 8), (''rsp2'', 8), (''resv1'', 4), (''resv2'', 4), (''ist1'', 8),
     (''ist2'', 8), (''ist3'', 8), (''ist4'', 8), (''ist5'', 8), (''ist6'', 8), (''ist7'', 8), (''resv3'', 4),
     (''resv4'', 4), (''IOPB_offset'', 2), (''resv5'', 2)]"

definition sizeof_TSS :: nat where "sizeof_TSS = sum_list (map snd TSS_fields)"

text \<open>
  \<open>struct GDT_entry\<close>, packed: \<open>limit_low\<close> at 0, \<open>base_low\<close> at 2, \<open>base_middle\<close> at 4, \<open>access\<close> at 5, \<open>granularity\<close>
  at 6 and \<open>base_high\<close> at 7. An index outside the table gives \<open>NULL\<close>.
\<close>

definition get_gdt_entry :: "nat \<Rightarrow> u16 \<Rightarrow> nat option" where
  "get_gdt_entry GDT index = (if index \<ge> GDT_LEN then None else Some (GDT + 8 * unat index))"

definition gdt_entry_map :: "nat \<Rightarrow> u64 \<Rightarrow> (nat \<Rightarrow> u8) \<Rightarrow> (nat \<Rightarrow> u8) res" where
  "gdt_entry_map GDT tss_addr mem =
     (case get_gdt_entry GDT (GDT_TSS_SELECTOR div 8) of None \<Rightarrow> Inl Panic
      | Some gdt_ent \<Rightarrow>
          let mem = wr mem 2 (gdt_ent + 2) (ucast (tss_addr AND 0xFFFF) :: u16);
              mem = wr mem 1 (gdt_ent + 4) (ucast (drop_bit 16 (tss_addr AND 0xFF0000)) :: u8);
              mem = wr mem 1 (gdt_ent + 7) (ucast (drop_bit 24 (tss_addr AND 0xFF000000)) :: u8);
              mem = wr mem 2 gdt_ent (word_of_nat sizeof_TSS :: u16);
              mem = wr mem 1 (gdt_ent + 5) (0b10001001 :: u8);
              mem = wr mem 1 (gdt_ent + 6) (0b01000000 :: u8)
          in Inr mem)"

definition initGDT :: "nat \<times> nat \<Rightarrow> u64 \<Rightarrow> (nat \<Rightarrow> u8) \<Rightarrow> (nat \<Rightarrow> u8) res" where
  "initGDT gdtr proc_tss mem = gdt_entry_map (snd gdtr) proc_tss mem"

definition initTSS :: "(nat \<Rightarrow> u8) \<Rightarrow> (nat \<Rightarrow> u8)" where "initTSS mem = mem"

text \<open>The table of boot32.asm at address \<open>GDT\<close>, with the operand of \<open>lgdt\<close> that follows it.\<close>

definition boot_gdt :: "u64 \<Rightarrow> u8 list" where
  "boot_gdt GDT =
     [0xFF, 0xFF, 0, 0, 0, 0, 1, 0] @
     [0, 0, 0, 0, 0, 0b10011010, 0b10101111, 0] @
     [0, 0, 0, 0, 0, 0b10010010, 0, 0] @
     [0, 0, 0, 0, 0, 0b11111110, 0b10101111, 0] @
     [0, 0, 0, 0, 0, 0b11110010, 0, 0] @
     [0, 0, 0, 0, 0, 0, 0, 0] @
     word_bytes 2 (47 :: u16) @ word_bytes 8 GDT"

section \<open>What the processor reads\<close>

text \<open>
  In 64-bit mode the descriptor of a task state segment has 16 bytes, the upper eight of which hold the
  upper half of the base; loading it needs all of them inside the table.
\<close>

definition descriptor_base :: "(nat \<Rightarrow> u8) \<Rightarrow> nat \<Rightarrow> nat" where
  "descriptor_base mem d =
     rd mem 2 (d + 2) + 2 ^ 16 * rd mem 1 (d + 4) + 2 ^ 24 * rd mem 1 (d + 7) + 2 ^ 32 * rd mem 4 (d + 8)"

definition descriptor_limit :: "(nat \<Rightarrow> u8) \<Rightarrow> nat \<Rightarrow> nat" where
  "descriptor_limit mem d = rd mem 2 d + 2 ^ 16 * (rd mem 1 (d + 6) mod 16)"

definition available_tss :: "(nat \<Rightarrow> u8) \<Rightarrow> nat \<Rightarrow> bool" where
  "available_tss mem d \<longleftrightarrow> rd mem 1 (d + 5) = 0x89"

definition inside_table :: "nat \<times> nat \<Rightarrow> nat \<Rightarrow> bool" where
  "inside_table gdtr selector \<longleftrightarrow> selector + 15 \<le> fst gdtr"

lemma sizeof_TSS [simp]: "sizeof_TSS = 104"
  by (simp add: sizeof_TSS_def TSS_fields_def)

lemma tss_entry: "get_gdt_entry GDT (GDT_TSS_SELECTOR div 8) = Some (GDT + 40)"
  by (simp add: get_gdt_entry_def GDT_LEN_def GDT_TSS_SELECTOR_def)

text \<open>The three pieces of the address put together again.\<close>

lemma split_base:
  fixes w :: u64
  shows "unat (ucast (w AND 0xFFFF) :: u16) + 2 ^ 16 * unat (ucast (drop_bit 16 (w AND 0xFF0000)) :: u8) +
    2 ^ 24 * unat (ucast (drop_bit 24 (w AND 0xFF000000)) :: u8) = unat w mod 2 ^ 32"
proof -
  have low: "ucast (w AND 0xFFFF) = (ucast w :: u16)"
    and mid: "ucast (drop_bit 16 (w AND 0xFF0000)) = (ucast (drop_bit 16 w) :: u8)"
    and high: "ucast (drop_bit 24 (w AND 0xFF000000)) = (ucast (drop_bit 24 w) :: u8)"
  proof -
    have masks: "(0xFFFF :: u64) = mask 16" "(0xFF0000 :: u64) = push_bit 16 (mask 8)" "(0xFF000000 :: u64) = push_bit 24 (mask 8)"
      by (simp_all add: mask_eq_exp_minus_1 push_bit_eq_mult)
    show "ucast (w AND 0xFFFF) = (ucast w :: u16)" "ucast (drop_bit 16 (w AND 0xFF0000)) = (ucast (drop_bit 16 w) :: u8)"
      "ucast (drop_bit 24 (w AND 0xFF000000)) = (ucast (drop_bit 24 w) :: u8)"
      unfolding masks by (rule bit_word_eqI; auto simp: bit_simps)+
  qed
  have "unat (ucast w :: u16) = unat w mod 2 ^ 16" "unat (ucast (drop_bit 16 w) :: u8) = unat w div 2 ^ 16 mod 2 ^ 8"
    "unat (ucast (drop_bit 24 w) :: u8) = unat w div 2 ^ 24 mod 2 ^ 8"
    by (simp_all add: unsigned_ucast_eq take_bit_eq_mod unsigned_drop_bit_eq drop_bit_eq_div unat_div)
  moreover have "n mod 2 ^ 24 = 2 ^ 16 * (n div 2 ^ 16 mod 2 ^ 8) + n mod 2 ^ 16"
    "n mod 2 ^ 32 = 2 ^ 24 * (n div 2 ^ 24 mod 2 ^ 8) + n mod 2 ^ 24" for n :: nat
    using mod_mult2_eq [of n "2 ^ 16" "2 ^ 8"] mod_mult2_eq [of n "2 ^ 24" "2 ^ 8"] by simp_all
  ultimately show ?thesis unfolding low mid high by simp
qed

lemma wr_out: "x < a \<or> a + k \<le> x \<Longrightarrow> wr mem k a w x = mem x"
  by (auto simp: wr_def)

lemma initGDT_reads:
  assumes "initGDT gdtr tss mem = Inr mem'" and "d = snd gdtr + 40"
  shows "rd mem' 2 d = 104" and "rd mem' 2 (d + 2) = unat (ucast (tss AND 0xFFFF) :: u16)"
    and "rd mem' 1 (d + 4) = unat (ucast (drop_bit 16 (tss AND 0xFF0000)) :: u8)"
    and "rd mem' 1 (d + 5) = 0x89" and "rd mem' 1 (d + 6) = 0x40"
    and "rd mem' 1 (d + 7) = unat (ucast (drop_bit 24 (tss AND 0xFF000000)) :: u8)"
    and "x < d \<or> d + 8 \<le> x \<Longrightarrow> mem' x = mem x" and "rd mem' 4 (d + 8) = rd mem 4 (d + 8)"
proof -
  have m: "mem' = wr (wr (wr (wr (wr (wr mem 2 (d + 2) (ucast (tss AND 0xFFFF) :: u16))
      1 (d + 4) (ucast (drop_bit 16 (tss AND 0xFF0000)) :: u8)) 1 (d + 7) (ucast (drop_bit 24 (tss AND 0xFF000000)) :: u8))
      2 d (104 :: u16)) 1 (d + 5) (0x89 :: u8)) 1 (d + 6) (0x40 :: u8)"
    using assms by (simp add: initGDT_def gdt_entry_map_def tss_entry Let_def)
  show "rd mem' 2 d = 104" "rd mem' 2 (d + 2) = unat (ucast (tss AND 0xFFFF) :: u16)"
    "rd mem' 1 (d + 4) = unat (ucast (drop_bit 16 (tss AND 0xFF0000)) :: u8)"
    "rd mem' 1 (d + 5) = 0x89" "rd mem' 1 (d + 6) = 0x40"
    "rd mem' 1 (d + 7) = unat (ucast (drop_bit 24 (tss AND 0xFF000000)) :: u8)"
    "rd mem' 4 (d + 8) = rd mem 4 (d + 8)"
    unfolding m by (simp_all add: rd_wr_other rd_wr_same)
  show "x < d \<or> d + 8 \<le> x \<Longrightarrow> mem' x = mem x" unfolding m by (auto simp: wr_out)
qed

text \<open>
  \<open>initGDT\<close> on the table of boot32.asm: entry 5 becomes a present, available task state segment with the
  low half of the address of the structure as its base and the size of the structure as its limit, one more than the last offset;
  nothing else in memory changes. But the table ends with these eight bytes: what the processor takes for the upper
  half of the base is the operand of \<open>lgdt\<close>, so the base is never the structure's address, and
  the descriptor does not lie inside the table, which makes every load of the selector fault.
\<close>

theorem tss_descriptor_cut_off:
  assumes "snd gdtr = unat GDT" and "fst gdtr = 47" and "\<And>i. i < 58 \<Longrightarrow> mem (unat GDT + i) = boot_gdt GDT ! i"
    and "unat tss < 2 ^ 32" and "d = unat GDT + 40"
  shows "\<exists>mem'. initGDT gdtr tss mem = Inr mem' \<and> available_tss mem' d \<and> descriptor_limit mem' d = sizeof_TSS \<and>
    descriptor_base mem' d mod 2 ^ 32 = unat tss \<and> (\<forall>x. x < d \<or> d + 8 \<le> x \<longrightarrow> mem' x = mem x) \<and>
    descriptor_base mem' d \<noteq> unat tss \<and> \<not> inside_table gdtr (unat GDT_TSS_SELECTOR)"
proof -
  obtain mem' where i: "initGDT gdtr tss mem = Inr mem'"
    by (simp add: initGDT_def gdt_entry_map_def tss_entry Let_def)
  have d: "d = snd gdtr + 40" using assms(1,5) by simp
  note r = initGDT_reads [OF i d]
  have upper: "rd mem 4 (d + 8) mod 2 ^ 16 = 47"
  proof -
    have b: "mem (d + 8) = 47" "mem (d + 9) = 0"
    proof -
      have at: "d + 8 = unat GDT + 48" "d + 9 = unat GDT + 49" using assms(5) by simp_all
      have "boot_gdt GDT ! 48 = 47" "boot_gdt GDT ! 49 = 0" by (simp_all add: boot_gdt_def word_bytes_def nth_append)
      then show "mem (d + 8) = 47" "mem (d + 9) = 0"
        unfolding at using assms(3) [of 48] assms(3) [of 49] by simp_all
    qed
    have "take_bit 16 (le_word [mem (d + 8), mem (d + 9), mem (d + 10), mem (d + 11)] :: u64) = 47"
      unfolding b by (rule bit_word_eqI) (auto simp: bit_simps)
    then have "unat (le_word [mem (d + 8), mem (d + 9), mem (d + 10), mem (d + 11)] :: u64) mod 2 ^ 16 = 47"
      by (simp only: unsigned_take_bit_eq [symmetric] take_bit_eq_mod [symmetric]) simp
    moreover have "[d + 8..<d + 8 + 4] = [d + 8, d + 9, d + 10, d + 11]" by (simp add: upt_conv_Cons)
    ultimately show ?thesis by (simp only: rd_def list.map)
  qed
  have base: "descriptor_base mem' d = unat tss + 2 ^ 32 * rd mem 4 (d + 8)"
    unfolding descriptor_base_def r(2,3,6,8) using split_base [of tss] assms(4) by simp
  have "rd mem 4 (d + 8) \<noteq> 0" using upper by auto
  then have "descriptor_base mem' d \<noteq> unat tss" unfolding base by simp
  moreover have "descriptor_base mem' d mod 2 ^ 32 = unat tss" unfolding base using assms(4) by simp
  moreover have "available_tss mem' d" "descriptor_limit mem' d = sizeof_TSS"
    unfolding available_tss_def descriptor_limit_def r(1,4,5) by simp_all
  moreover have "\<not> inside_table gdtr (unat GDT_TSS_SELECTOR)"
    using assms(2) by (simp add: inside_table_def GDT_TSS_SELECTOR_def)
  ultimately show ?thesis using i r(7) by blast
qed

theorem tss_descriptor_cut_off_witness:
  "\<exists>mem'. initGDT (47, 0x105000) 0x107000 (\<lambda>x. if 0x105000 \<le> x \<and> x < 0x105000 + 58 then boot_gdt 0x105000 ! (x - 0x105000) else 0) =
     Inr mem' \<and> descriptor_base mem' 0x105028 \<noteq> 0x107000"
  using tss_descriptor_cut_off [of "(47, 0x105000)" "0x105000"
      "\<lambda>x. if 0x105000 \<le> x \<and> x < 0x105000 + 58 then boot_gdt 0x105000 ! (x - 0x105000) else 0" "0x107000" "0x105028"]
  by auto

end
