(* ===== verification/First_Page.thy ===== *)
theory First_Page
  imports Boot_Memory
begin

text \<open>
  The first page that the allocator hands out after \<open>ppage_init\<close>: the hints that the reservation of the low
  memory leaves at 0 send it to the start of the region, where the kernel lies.
\<close>

section \<open>Splitting down from a hint of 0\<close>

lemma advance_next_other:
  assumes "j \<noteq> k"
  shows "m_pages_free (advance_next k m) j = m_pages_free m j" and "m_next_free_page (advance_next k m) j = m_next_free_page m j"
  using assms by (simp_all add: advance_next_def Let_def split_beta find_next_other)

lemma split_first_zero:
  assumes "m_next_free_page m (Suc k) = 0" and "m_pages_free m k = 0"
  shows "m_pages_free (split_first (Suc k) m) k = 2" and "m_next_free_page (split_first (Suc k) m) k = 0"
    and "j < k \<Longrightarrow> m_pages_free (split_first (Suc k) m) j = m_pages_free m j"
    and "j < k \<Longrightarrow> m_next_free_page (split_first (Suc k) m) j = m_next_free_page m j"
  using assms by (simp_all add: split_first_unfold advance_next_other child_next_def Let_def wrap_simps)

text \<open>All orders from \<open>j\<close> to below \<open>k\<close> are without blocks, order \<open>k\<close> has one, and no hint is above 0.\<close>

definition zero_hints :: "bpa_map \<Rightarrow> nat \<Rightarrow> nat \<Rightarrow> bool" where
  "zero_hints m j k \<longleftrightarrow> (\<forall>l. j \<le> l \<and> l < k \<longrightarrow> m_pages_free m l = 0) \<and> 0 < m_pages_free m k \<and>
     (\<forall>l. j \<le> l \<and> l \<le> k \<longrightarrow> m_next_free_page m l = 0)"

lemma block_split_zero:
  assumes "Suc j \<le> k" and "k < MAX_ORDER" and "zero_hints (r_page_alloc_si r) j k"
  shows "r_start (block_split r (Suc j)) = r_start r \<and>
    m_pages_free (r_page_alloc_si (block_split r (Suc j))) j = 2 \<and>
    m_next_free_page (r_page_alloc_si (block_split r (Suc j))) j = 0 \<and>
    (\<forall>l < j. m_pages_free (r_page_alloc_si (block_split r (Suc j))) l = m_pages_free (r_page_alloc_si r) l \<and>
       m_next_free_page (r_page_alloc_si (block_split r (Suc j))) l = m_next_free_page (r_page_alloc_si r) l)"
  using assms
proof (induction "k - Suc j" arbitrary: j)
  case 0
  then have k: "k = Suc j" by simp
  with 0 have z: "m_next_free_page (r_page_alloc_si r) (Suc j) = 0" "m_pages_free (r_page_alloc_si r) j = 0"
    "0 < m_pages_free (r_page_alloc_si r) (Suc j)"
    by (simp_all add: zero_hints_def)
  then have "block_split r (Suc j) = upd_si (split_first (Suc j)) r"
    using 0 k by (subst block_split.simps) simp
  with split_first_zero [OF z(1,2)] show ?case by simp
next
  case (Suc d)
  then have lt: "Suc j < k" by simp
  let ?r = "block_split r (Suc (Suc j))"
  have "zero_hints (r_page_alloc_si r) (Suc j) k" using Suc.prems(3) by (simp add: zero_hints_def)
  with Suc lt have r1: "r_start ?r = r_start r" "m_pages_free (r_page_alloc_si ?r) (Suc j) = 2"
    "m_next_free_page (r_page_alloc_si ?r) (Suc j) = 0"
    "\<forall>l < Suc j. m_pages_free (r_page_alloc_si ?r) l = m_pages_free (r_page_alloc_si r) l \<and>
       m_next_free_page (r_page_alloc_si ?r) l = m_next_free_page (r_page_alloc_si r) l"
    by simp_all
  have z: "m_pages_free (r_page_alloc_si r) (Suc j) = 0" "m_pages_free (r_page_alloc_si r) j = 0"
    using Suc.prems(3) lt by (simp_all add: zero_hints_def)
  then have "block_split r (Suc j) = upd_si (split_first (Suc j)) ?r"
    using lt Suc.prems(2) r1(2) by (subst block_split.simps) simp
  moreover have "m_pages_free (r_page_alloc_si ?r) j = 0" using r1(4) z(2) by simp
  ultimately show ?case using split_first_zero [OF r1(3)] r1 by simp
qed

lemma pages_alloc_zero:
  assumes "k < MAX_ORDER" and "0 < k" and "zero_hints (r_page_alloc_si r) 0 k" and "r_lock r = 0" and "r_si_mapped r"
    and "r_start r < 2 ^ 64"
  shows "\<exists>r'. pages_alloc r 0 = Inr (r', r_start r)"
proof -
  let ?r = "r\<lparr>r_lock := 1\<rparr>"
  have "zero_hints (r_page_alloc_si ?r) 0 k" using assms(3) by simp
  from block_split_zero [OF _ assms(1) this] assms(2)
  have s: "r_start (block_split ?r 1) = r_start r" "m_pages_free (r_page_alloc_si (block_split ?r 1)) 0 = 2"
    "m_next_free_page (r_page_alloc_si (block_split ?r 1)) 0 = 0" by simp_all
  have "m_pages_free (r_page_alloc_si r) 0 = 0" using assms(2,3) by (simp add: zero_hints_def)
  then have "pages_alloc r 0 = Inr (alloc_take (block_split ?r 1) 0)"
    using assms(4,5) s(2) by (simp add: pages_alloc_def spinlock_lock_cases Let_def)
  moreover have "snd (alloc_take (block_split ?r 1) 0) = r_start r"
    using s(1,3) assms(6) by (simp add: alloc_take_def Let_def wrap_simps)
  ultimately show ?thesis by (metis prod.collapse)
qed

section \<open>After the reservation of the low memory\<close>

lemma reserve_bit_other:
  "j \<noteq> k \<Longrightarrow> m_pages_free (reserve_bit k n m) j = m_pages_free m j"
  "m_next_free_page m k \<noteq> n \<or> j \<noteq> k \<Longrightarrow> m_next_free_page (reserve_bit k n m) j = m_next_free_page m j"
  "m_next_free_page m k \<noteq> n \<Longrightarrow> m_pages_free (reserve_bit k n m) k = sub64 (m_pages_free m k) 1"
  by (simp_all add: reserve_bit_def Let_def split_beta find_next_other)

lemma zsplit_at_other:
  "j < k \<Longrightarrow> m_pages_free (zsplit_at (Suc k) i m) j = m_pages_free m j"
  "j < k \<Longrightarrow> m_next_free_page (zsplit_at (Suc k) i m) j = m_next_free_page m j"
  by (simp_all add: zsplit_at_def Let_def split_beta find_next_other)

lemma reserved_zero_hints:
  assumes "buddy_inv m" and "\<And>j. j < Suc k \<Longrightarrow> free_blocks m j = {}" and "Suc k < MAX_ORDER" and "0 < i"
  shows "zero_hints (reserve_bit k (2 * i) (zsplit_at (Suc k) i m)) 0 k"
proof -
  have e: "m_pages_free m j = 0" "m_next_free_page m j = 0" if "j < Suc k" for j
    using buddy_invD(2) [OF assms(1), of j] assms(2) [OF that] that assms(3) by (simp_all add: ord_ok_def)
  have z: "m_pages_free (zsplit_at (Suc k) i m) k = 2" "m_next_free_page (zsplit_at (Suc k) i m) k = 0"
    using zsplit_at_below [of k i m] e [of k] by (simp_all add: wrap_simps)
  then have "m_pages_free (reserve_bit k (2 * i) (zsplit_at (Suc k) i m)) k = 1"
    using reserve_bit_other(3) [of "zsplit_at (Suc k) i m" k "2 * i"] assms(4) by (simp add: wrap_simps)
  moreover have "m_pages_free (reserve_bit k (2 * i) (zsplit_at (Suc k) i m)) j = 0" if "j < k" for j
    using that e [of j] reserve_bit_other(1) [of j k] zsplit_at_other(1) [of j k] by simp
  moreover have "m_next_free_page (reserve_bit k (2 * i) (zsplit_at (Suc k) i m)) j = 0" if "j \<le> k" for j
    using that e [of j] z assms(4) reserve_bit_other(2) [of "zsplit_at (Suc k) i m" k "2 * i" j] zsplit_at_other(2) [of j k i m]
    by (cases "j = k") simp_all
  ultimately show ?thesis by (simp add: zero_hints_def)
qed

lemma block_split_size: "r_size (block_split r order) = r_size r"
  by (induction r order rule: block_split.induct)
    (subst block_split.simps, simp add: Let_def upd_si_def out_of_mem_def)

lemma pages_alloc_size: "pages_alloc r order = Inr (r', a) \<Longrightarrow> r_size r' = r_size r"
  by (auto simp: pages_alloc_def alloc_take_def alloc_fail_def block_split_size upd_si_def out_of_mem_def Let_def
      split: if_splits sum.splits)

lemma first_alloc_page:
  assumes "kernel_region r pages" and "mbp + 116 \<le> 0x100000" and "msize \<le> r_size r"
  shows "\<exists>s' ps. ppage_init mbp msize True tables [r] v = Some (Inr (s', v)) \<and> alloc_page s' = Inr (ps, 0x100000) \<and>
    map r_size (regions ps) = [r_size r]"
proof -
  obtain m r' where r': "ppage_init mbp msize True tables [r] v =
      Some (Inr (\<lparr>regions = [r'], next_region = Some 0, outOfMem = False\<rparr>, v))"
    "buddy_inv m" "blocks_of m = low_blocks pages MAX_ORDER"
    "r_page_alloc_si r' = reserve_bit 8 256 (zsplit_at 9 128 m)" "r_start r' = 0x100000" "r_lock r' = 0" "r_si_mapped r'"
    "\<not> r_mem_full r'" "r_size r' = r_size r"
    using ppage_init_at_1M [OF assms] by blast
  have "free_blocks m j = {}" if "j < 9" for j
  proof -
    have "(j, i) \<notin> blocks_of m" for i
      using r'(3) kernel_region_blocks(3) [OF assms(1) that] by (simp add: low_blocks_def del: in_blocks_of)
    then show ?thesis using that by auto
  qed
  from reserved_zero_hints [OF r'(2), of 8 128] this r'(4)
  have "zero_hints (r_page_alloc_si r') 0 8" by simp
  from pages_alloc_zero [OF _ _ this r'(6,7)] r'(5)
  obtain r2 where "pages_alloc r' 0 = Inr (r2, 0x100000)" by auto
  note r2 = this
  let ?s = "\<lparr>regions = [r'], next_region = Some 0, outOfMem = False\<rparr>"
  have "alloc_page ?s = Inr (region_put ?s 0 r2, 0x100000)"
    using r2 r'(8) by (subst alloc_page.simps) (simp add: page_alloc_def)
  moreover have "map r_size (regions (region_put ?s 0 r2)) = [r_size r]"
    using pages_alloc_size [OF r2] r'(9) by (simp add: region_put_def)
  ultimately show ?thesis using r'(1) by (intro exI conjI)
qed

text \<open>
  C20. The first page that \<open>__get_free_page\<close> takes after \<open>ppage_init\<close> is the first page of the kernel itself: on a machine
  whose memory starts at 1 MiB, where the kernel is loaded, it is the frame at 1 MiB that is mapped,
  because the reservation of the low memory leaves one free block of order 8 with a hint of 0 behind and every split
  on the way down takes block 0. In \<open>mm_init\<close> this is the page of the heap.
\<close>

theorem first_page_is_kernel:
  assumes "kernel_region r pages" and "mbp + 116 \<le> 0x100000" and "msize \<le> r_size r"
  shows "\<exists>s' ps. ppage_init mbp msize True tables [r] v = Some (Inr (s', v)) \<and>
    get_free_page_u (set_pages v s') = vpage_map (set_pages v ps) 0x100000 0"
  using first_alloc_page [OF assms] by (fastforce simp: get_free_page_u_def set_pages_def)

theorem first_page_is_kernel_witness:
  "\<exists>s' ps. ppage_init 0x9500 (69632 * page_size) True (\<lambda>_ _. 0) [blank_region 0x100000 69632] demo_vpages = Some (Inr (s', demo_vpages)) \<and>
     get_free_page_u (set_pages demo_vpages s') = vpage_map (set_pages demo_vpages ps) 0x100000 0"
  using first_page_is_kernel [OF demo_kernel_region, of "0x9500" "69632 * page_size" "\<lambda>_ _. 0" demo_vpages]
  by (simp add: blank_region_def)

end
