(* ===== verification/Memory_Init.thy ===== *)
theory Memory_Init
  imports First_Page Heap
begin

text \<open>
  How the parts of the memory management come together in kernel/mm.c: \<open>mm_init\<close>, and \<open>kmalloc\<close> and \<open>kfree\<close> with
  the test of \<open>System.MMU_enabled\<close> that chooses between the early allocator and the heap. The addresses of the
  heap are those of the virtual pages.
\<close>

record kernel_memory =
  MMU_enabled :: bool
  early :: memstck
  kheap :: heap
  kpages :: vpages

definition kmalloc_kernel :: "nat \<Rightarrow> (nat \<Rightarrow> nat) \<Rightarrow> kernel_memory \<Rightarrow> nat \<Rightarrow> (kernel_memory \<times> nat) res" where
  "kmalloc_kernel mem_end newpages k n =
     (if n = 0 then Inr (k, 0)
      else if \<not> MMU_enabled k then
        (case memstck_malloc mem_end (early k) n of (s, a) \<Rightarrow> Inr (k\<lparr>early := s\<rparr>, a))
      else and_then (kmalloc newpages (kheap k) n) (\<lambda>(h, a). Inr (k\<lparr>kheap := h\<rparr>, a)))"

definition kfree_kernel :: "kernel_memory \<Rightarrow> nat \<Rightarrow> kernel_memory res" where
  "kfree_kernel k a =
     (if \<not> MMU_enabled k then Inr k else and_then (kfree (kheap k) a) (\<lambda>h. Inr (k\<lparr>kheap := h\<rparr>)))"

text \<open>
  \<open>mm_init\<close>: the virtual pages, the physical pages, and the first page of the heap. \<open>None\<close> where a search
  for a free page does not end.
\<close>

definition mm_init ::
  "nat \<Rightarrow> nat \<Rightarrow> bool \<Rightarrow> (nat \<Rightarrow> nat \<Rightarrow> u8) \<Rightarrow> mregion list \<Rightarrow> vm \<Rightarrow> kernel_memory \<Rightarrow> (kernel_memory \<times> int) res option" where
  "mm_init mbp msize heap_serves tables rs s k =
     (case vpage_init s of None \<Rightarrow> None | Some (Inl e) \<Rightarrow> Some (Inl e)
      | Some (Inr v) \<Rightarrow>
         (case ppage_init mbp msize heap_serves tables rs v of None \<Rightarrow> None | Some (Inl e) \<Rightarrow> Some (Inl e)
          | Some (Inr (ps, v)) \<Rightarrow>
             (case get_free_page_u (set_pages v ps) of None \<Rightarrow> None | Some (Inl e) \<Rightarrow> Some (Inl e)
              | Some (Inr (v, heap_start)) \<Rightarrow>
                  if heap_start = 0 then Some (Inl Panic)
                  else Some (Inr (k\<lparr>kheap := [first_header (unat heap_start)], MMU_enabled := True,
                    early := memstck_disable (early k), kpages := v\<rparr>, 0)))))"

section \<open>The heap stays above the early blocks\<close>

definition high_header :: "nat \<Rightarrow> mheader_t \<Rightarrow> bool" where
  "high_header lo h \<longleftrightarrow> lo \<le> h_addr h \<and> (\<forall>p \<in> set (h_ptrs h). lo \<le> p_addr p)"

definition high_heap :: "nat \<Rightarrow> heap \<Rightarrow> bool" where
  "high_heap lo hs \<longleftrightarrow> (\<forall>h \<in> set hs. high_header lo h)"

lemma take_pointer_high:
  assumes "take_pointer ps n = Some (ps', a)" and "\<forall>p \<in> set ps. lo \<le> p_addr p"
  shows "(\<forall>p \<in> set ps'. lo \<le> p_addr p) \<and> lo \<le> a"
proof -
  from take_pointer_split [OF assms(1)] obtain xs p ys where
    "ps = xs @ p # ys" "ps' = xs @ use_pointer p n @ ys" "a = p_addr p + POINTER_SIZE" by blast
  with assms(2) show ?thesis by (auto simp: use_pointer_def Let_def)
qed

lemma header_alloc_high:
  "header_alloc h n = Inr (h', a) \<Longrightarrow> high_header lo h \<Longrightarrow> high_header lo h' \<and> lo \<le> a"
  using take_pointer_high by (auto simp: header_alloc_def high_header_def Let_def split: option.splits)

lemma kmalloc_walk_high:
  assumes "\<And>j. newpages j = 0 \<or> lo \<le> newpages j"
  shows "kmalloc_walk newpages hs n = Inr (hs', a) \<Longrightarrow> high_heap lo hs \<Longrightarrow> high_heap lo hs' \<and> (a = 0 \<or> lo \<le> a)"
proof (induction hs arbitrary: hs')
  case Nil
  let ?o = "log_order (pages_needed n)"
  have "high_header lo (new_header (newpages ?o) (2 ^ ?o))" if "newpages ?o \<noteq> 0"
    using assms [of ?o] that by (simp add: high_header_def new_header_def Let_def)
  with Nil show ?case
    by (auto simp: high_heap_def Let_def split: if_splits sum.splits dest: header_alloc_high)
next
  case (Cons h hs)
  then have h: "high_header lo h" "high_heap lo hs" by (simp_all add: high_heap_def)
  show ?case
  proof (cases "n \<le> h_size_max h")
    case True
    with Cons.prems(1) h show ?thesis
      by (auto simp: high_heap_def split: sum.splits dest: header_alloc_high)
  next
    case False
    with Cons.prems(1) obtain hs1 where "kmalloc_walk newpages hs n = Inr (hs1, a)" "hs' = h # hs1"
      by (auto split: sum.splits)
    with Cons.IH h show ?thesis by (auto simp: high_heap_def)
  qed
qed

lemma kmalloc_high:
  assumes "\<And>j. newpages j = 0 \<or> lo \<le> newpages j" and "kmalloc newpages hs n = Inr (hs', a)" and "high_heap lo hs"
  shows "high_heap lo hs' \<and> (a = 0 \<or> lo \<le> a)"
  using kmalloc_walk_high [OF assms(1)] assms(2,3) by (auto simp: kmalloc_def split: if_splits)

lemma free_pointer_addrs: "free_pointer ps a = Some (ps', n) \<Longrightarrow> map p_addr ps' = map p_addr ps"
  by (induction ps arbitrary: ps') (auto simp: Let_def split: if_splits option.splits)

lemma pointers_merge_addrs: "set (map p_addr (pointers_merge ps)) \<subseteq> set (map p_addr ps)"
  by (induction ps rule: pointers_merge.induct) auto

lemma kfree_walk_high: "kfree_walk all hs a = Inr hs' \<Longrightarrow> high_heap lo hs \<Longrightarrow> high_heap lo hs'"
proof (induction hs arbitrary: hs')
  case (Cons h hs)
  then have h: "high_header lo h" "high_heap lo hs" by (simp_all add: high_heap_def)
  have merged: "\<forall>p \<in> set (pointers_merge ps). lo \<le> p_addr p" if "free_pointer (h_ptrs h) a = Some (ps, n)" for ps n
  proof -
    have "set (map p_addr (pointers_merge ps)) \<subseteq> set (map p_addr (h_ptrs h))"
      using pointers_merge_addrs free_pointer_addrs [OF that] by metis
    with h(1) show ?thesis by (force simp: high_header_def)
  qed
  show ?case
  proof (cases "a > h_addr h \<and> a < h_addr h + h_size h")
    case True
    with Cons.prems h merged show ?thesis
      by (auto simp: high_heap_def high_header_def Let_def split: option.splits if_splits)
  next
    case False
    with Cons.prems(1) obtain hs1 where "kfree_walk all hs a = Inr hs1" "hs' = h # hs1"
      by (auto split: sum.splits)
    with Cons.IH h show ?thesis by (auto simp: high_heap_def)
  qed
qed simp

lemma kfree_walk_low: "high_heap lo hs \<Longrightarrow> a < lo \<Longrightarrow> kfree_walk all hs a = Inr hs"
  by (induction hs) (auto simp: high_heap_def high_header_def)

text \<open>A sequence of calls, with the addresses and sizes handed out.\<close>

datatype heap_call = Kmalloc nat | Kfree nat

fun run_calls :: "nat \<Rightarrow> (nat \<Rightarrow> nat) \<Rightarrow> kernel_memory \<Rightarrow> heap_call list \<Rightarrow> (kernel_memory \<times> (nat \<times> nat) list) res" where
  "run_calls e newpages k [] = Inr (k, [])"
| "run_calls e newpages k (Kmalloc n # cs) =
     and_then (kmalloc_kernel e newpages k n) (\<lambda>(k, a).
     and_then (run_calls e newpages k cs) (\<lambda>(k, bs). Inr (k, if a = 0 then bs else (a, n) # bs)))"
| "run_calls e newpages k (Kfree a # cs) =
     and_then (kfree_kernel k a) (\<lambda>k. run_calls e newpages k cs)"

lemma run_calls_high:
  assumes "\<And>j. newpages j = 0 \<or> lo \<le> newpages j"
  shows "run_calls e newpages k cs = Inr (k', bs) \<Longrightarrow> MMU_enabled k \<Longrightarrow> high_heap lo (kheap k) \<Longrightarrow>
    (\<forall>(a, n) \<in> set bs. lo \<le> a) \<and> high_heap lo (kheap k') \<and> MMU_enabled k' \<and> early k' = early k"
proof (induction cs arbitrary: k bs)
  case Nil
  then show ?case by simp
next
  case (Cons c cs)
  show ?case
  proof (cases c)
    case (Kmalloc n)
    with Cons.prems(1) obtain k1 a bs1 where
      k1: "kmalloc_kernel e newpages k n = Inr (k1, a)" "run_calls e newpages k1 cs = Inr (k', bs1)"
      "bs = (if a = 0 then bs1 else (a, n) # bs1)"
      by (auto simp: and_then_Inr)
    have "MMU_enabled k1 \<and> high_heap lo (kheap k1) \<and> early k1 = early k \<and> (a = 0 \<or> lo \<le> a)"
      using k1(1) Cons.prems(2,3) kmalloc_high [where newpages = newpages, OF assms]
      by (auto simp: kmalloc_kernel_def and_then_Inr split: if_splits)
    with Cons.IH [OF k1(2)] k1(3) show ?thesis by (auto split: if_splits)
  next
    case (Kfree a)
    with Cons.prems(1) obtain k1 where k1: "kfree_kernel k a = Inr k1" "run_calls e newpages k1 cs = Inr (k', bs)"
      by (auto simp: and_then_Inr)
    have "MMU_enabled k1 \<and> high_heap lo (kheap k1) \<and> early k1 = early k"
      using k1(1) Cons.prems(2,3) kfree_walk_high
      by (auto simp: kfree_kernel_def kfree_def and_then_Inr)
    with Cons.IH [OF k1(2)] show ?thesis by simp
  qed
qed

section \<open>Blocks from before the heap\<close>

lemma memstck_malloc_low:
  "memstck_malloc e s n = (s', a) \<Longrightarrow> a \<noteq> 0 \<Longrightarrow> n < 2 ^ 63 \<Longrightarrow> a + n < 0x200000"
  by (auto simp: memstck_malloc_def add64_def Let_def split: if_splits)

lemma run_calls_low:
  assumes "\<forall>n. Kmalloc n \<in> set cs \<longrightarrow> n < 2 ^ 63"
  shows "run_calls e newpages k cs = Inr (k', bs) \<Longrightarrow> \<not> MMU_enabled k \<Longrightarrow>
    (\<forall>(a, n) \<in> set bs. a + n < 0x200000) \<and> \<not> MMU_enabled k'"
  using assms
proof (induction cs arbitrary: k bs)
  case Nil
  then show ?case by simp
next
  case (Cons c cs)
  show ?case
  proof (cases c)
    case (Kmalloc n)
    with Cons.prems(1) obtain k1 a bs1 where
      k1: "kmalloc_kernel e newpages k n = Inr (k1, a)" "run_calls e newpages k1 cs = Inr (k', bs1)"
      "bs = (if a = 0 then bs1 else (a, n) # bs1)"
      by (auto simp: and_then_Inr)
    have "\<not> MMU_enabled k1 \<and> (a = 0 \<or> a + n < 0x200000)"
      using k1(1) Cons.prems(2,3) Kmalloc memstck_malloc_low [of e "early k" n]
      by (auto simp: kmalloc_kernel_def split: if_splits prod.splits)
    with Cons.IH [OF k1(2)] Cons.prems(3) k1(3) show ?thesis by (auto split: if_splits)
  next
    case (Kfree a)
    with Cons show ?thesis by (simp add: kfree_kernel_def)
  qed
qed

lemma first_header_ok: "a + page_size < 2 ^ 64 \<Longrightarrow> heap_ok [first_header a]"
  by (simp add: first_header_def header_ok_def findSize_max_def page_size_def)


section \<open>A machine on which it runs\<close>

text \<open>The tables of the boot code for the first 2 MiB, and an empty table for the next 2 MiB.\<close>

definition start_mem :: phys where
  "start_mem = (boot_mem 0x10000 (\<lambda>_. - 1))(0x12008 := 0x14003, 0x14000 := 0, 0x14008 := 0)"

definition start_vm :: vm where
  "start_vm = \<lparr>vm_pages = demo_system, vm_root = 0x10000, vm_mem = start_mem\<rparr>"

definition started_vm :: vm where
  "started_vm = start_vm\<lparr>vm_mem := start_mem(0x10FF8 := 0x10003,
     0x13000 := make_entry 0 (entry_flags (VPAGE_NOT_WRITABLE OR VPAGE_NO_EXECUTE)))\<rparr>"

definition started_vpages :: vpages where
  "started_vpages = \<lparr>vp_vm = started_vm, next_free_vpage = 0x200000\<rparr>"

lemma table_index_low:
  assumes "drop_bit 21 va = 0" and "2 \<le> l"
  shows "table_index va l = 0"
proof -
  have "12 + 9 * (l - 1) = 9 * (l - 2) + 21" using assms(2) by simp
  then have "table_index va l = drop_bit (9 * (l - 2)) (drop_bit 21 va) AND 511"
    by (simp only: table_index_def drop_bit_drop_bit)
  with assms(1) show ?thesis by simp
qed

lemma started_present:
  assumes "j < 256"
  shows "descend (vm_mem started_vm) 4 4 (vm_root started_vm) (0x100000 + word_of_nat (virt_page_size * j)) \<noteq> None"
proof -
  let ?va = "0x100000 + word_of_nat (virt_page_size * j) :: u64"
  have "unat ?va = 0x100000 + 4096 * j"
    using assms unfolding virt_page_size_def by (simp add: unat_word_ariths unat_of_nat)
  then have "unat (drop_bit 21 ?va) = 0"
    using assms unfolding unat_drop_bit_eq by (simp add: drop_bit_nat_def)
  then have "drop_bit 21 ?va = 0" by (rule unat_eq_zero [THEN iffD1])
  then have low: "table_index ?va l = 0" if "2 \<le> l" for l
    using that table_index_low by blast
  let ?a = "entry_addr 0x13000 ?va 1"
  have f: "frame ?a = 0x13000" by (rule frame_entry_addr) (simp add: frame_def)
  then have ge: "0x13000 \<le> ?a" by (metis frame_def word_and_le2)
  have ne: "?a \<notin> {0x14000, 0x14008}" using f by (auto simp: frame_def)
  have three: "bit (w OR 3 :: u64) 0" for w by (simp add: bit_or_iff)
  have "x < 0x13000 \<Longrightarrow> ?a \<noteq> x" for x using ge by auto
  then have "bit (vm_mem started_vm ?a) 0"
    using ne ge three
    by (auto simp: started_vm_def start_mem_def boot_mem_def present_make_entry present_entry_flags
        VPAGE_NOT_WRITABLE_def VPAGE_NO_EXECUTE_def VPAGE_NOT_PRESENT_def)
  then show ?thesis
    using low by (simp add: started_vm_def start_vm_def start_mem_def boot_mem_def walk_numeral entry_addr_def frame_def Let_def)
qed

lemma vpage_init_start: "vpage_init start_vm = Some (Inr started_vpages)"
proof -
  define s1 where "s1 = start_vm\<lparr>vm_mem := start_mem(0x10FF8 := 0x10003)\<rparr>"
  have pga: "pga_init start_vm = Inr s1"
    by (simp add: pga_init_def write64_def translate_def s1_def start_vm_def start_mem_def boot_mem_def walk_eval)
  have s1: "self_mapped s1" "own_entry s1 0 0x13000"
    by (simp_all add: self_mapped_def self_map_def own_entry_def entry_at_def s1_def start_vm_def start_mem_def boot_mem_def walk_eval)
  have eq: "started_vm = s1\<lparr>vm_mem := (vm_mem s1)(0x13000 := make_entry 0 (entry_flags (VPAGE_NOT_WRITABLE OR VPAGE_NO_EXECUTE)))\<rparr>"
    by (simp add: started_vm_def s1_def)
  have "canonical 0" by (simp add: canonical_def)
  note w = own_entry_write [OF s1 this eq]
  have map: "pga_map s1 0 0 0 (VPAGE_NOT_WRITABLE OR VPAGE_NO_EXECUTE) = Inr started_vm"
    using w(1,3) by (simp add: pga_map_def Let_def)
  have "descend (vm_mem started_vm) 4 4 (vm_root started_vm) 0x200000 = None"
    by (simp add: started_vm_def start_vm_def start_mem_def boot_mem_def walk_eval)
  then have "fnfp started_vm 0x100000 = Some (Inr 0x200000)"
    using fnfp_first [OF w(4) started_present, of 256] by (simp add: virt_page_size_def)
  with pga map show ?thesis by (simp add: vpage_init_def set_next_def started_vpages_def)
qed

lemma started_ok:
  "self_mapped started_vm" "own_entry started_vm 0x200000 0x14000" "next_absent started_vm 0x200000 0x14000 0"
  by (simp_all add: self_mapped_def self_map_def own_entry_def entry_at_def next_absent_def virt_page_size_def
      started_vm_def start_vm_def start_mem_def boot_mem_def walk_eval)

lemma started_heap_page:
  assumes "alloc_page s' = Inr (ps, 0x100000)"
  shows "\<exists>v. get_free_page_u (set_pages started_vpages s') = Some (Inr (v, 0x200000))"
proof -
  let ?v = "set_pages started_vpages s'"
  have "self_mapped (vp_vm ?v)" "own_entry (vp_vm ?v) (next_free_vpage ?v) 0x14000" "canonical (next_free_vpage ?v)"
    "next_absent (vp_vm ?v) (next_free_vpage ?v) 0x14000 0" "alloc_page (vm_pages (vp_vm ?v)) = Inr (ps, 4096 * 256)"
    using started_ok assms
    by (simp_all add: set_pages_def started_vpages_def self_mapped_def own_entry_def next_absent_def canonical_def)
  from get_free_page_contract_aux [OF this] show ?thesis by (auto simp: set_pages_def started_vpages_def)
qed

definition started_kernel :: kernel_memory where
  "started_kernel = \<lparr>MMU_enabled = False, early = \<lparr>MemStack_init = False, MemStack_enable = True, MemStack = 0\<rparr>,
     kheap = [], kpages = started_vpages\<rparr>"


end
