(* ===== verification/Startup.thy ===== *)
theory Startup
  imports Clock Cpu Symbols Segments
begin

text \<open>
  What the kernel says while it starts and when it stops: the report of \<open>startup\<close> and \<open>panic\<close> of
  kernel/system.c, the stack trace of arch/X86_64/stack.c, the handler of exceptions.c and kernel/time.c. A logger is \<open>printk\<close> with
  what it depends on; \<open>panic\<close> ends in \<open>halt\<close>, its value is the log at that moment.
\<close>

section \<open>The code\<close>

type_synonym log_message = "Log_Level \<times> cbuf \<times> va list"
type_synonym logger = "Log_Level \<Rightarrow> cbuf \<Rightarrow> va list \<Rightarrow> kernel_log \<Rightarrow> kernel_log res option"

definition literal :: "string \<Rightarrow> cbuf" where "literal s = bytes_of s @ [0]"

definition then_log :: "kernel_log res option \<Rightarrow> (kernel_log \<Rightarrow> 'a res option) \<Rightarrow> 'a res option" where
  "then_log r f = (case r of None \<Rightarrow> None | Some (Inl e) \<Rightarrow> Some (Inl e) | Some (Inr k) \<Rightarrow> f k)"

fun log_all :: "logger \<Rightarrow> log_message list \<Rightarrow> kernel_log \<Rightarrow> kernel_log res option" where
  "log_all pk [] k = Some (Inr k)"
| "log_all pk ((lv, str, vl) # ms) k = then_log (pk lv str vl k) (log_all pk ms)"

text \<open>
  \<open>PrintStackTrace\<close>; \<open>kdebug\<close> is the option of the build. The name of a function is the rest of the string table
  from its place on; \<open>None\<close> where the chain of frames has no end.
\<close>

definition trace_name :: "(nat \<Rightarrow> u8) \<Rightarrow> elf_symbols \<Rightarrow> nat option \<Rightarrow> cbuf" where
  "trace_name mem s a = (case a of None \<Rightarrow> [0] | Some a \<Rightarrow> map mem [a ..< elf_str s + elf_str_size s])"

definition trace_line :: "(nat \<Rightarrow> u8) \<Rightarrow> elf_symbols \<Rightarrow> nat \<times> nat option \<Rightarrow> log_message" where
  "trace_line mem s l =
     (case l of (rip, a) \<Rightarrow> (FATAL, 9 # literal ''0x%X    %s'', [Num (word_of_nat rip), Str (trace_name mem s a)]))"

definition PrintStackTrace :: "bool \<Rightarrow> logger \<Rightarrow> (nat \<Rightarrow> u8) \<Rightarrow> elf_symbols \<Rightarrow> nat \<Rightarrow> kernel_log \<Rightarrow> kernel_log res option" where
  "PrintStackTrace kdebug pk mem s frame k =
     (if kdebug then
        then_log (pk FATAL (literal ''Stack trace (most recent call first):'') [] k) (\<lambda>k.
          case stack_walk mem s frame of None \<Rightarrow> None
          | Some ls \<Rightarrow> log_all pk (map (trace_line mem s) ls) k)
      else pk DEBUG (9 # literal ''Stack trace not shown (debugging disabled)'') [] k)"

definition panic :: "bool \<Rightarrow> logger \<Rightarrow> (nat \<Rightarrow> u8) \<Rightarrow> elf_symbols \<Rightarrow> nat \<Rightarrow> cbuf \<Rightarrow> kernel_log \<Rightarrow> kernel_log res option" where
  "panic kdebug pk mem s frame text k =
     then_log (log_all pk
       [(FATAL, literal ''The system kernel has encountered a panic!'', []),
        (FATAL, literal ''Error message: %s'', [Str text])] k) (\<lambda>k.
     then_log (PrintStackTrace kdebug pk mem s frame k)
     (log_all pk
       [(DEBUG, literal ''Suspending all processes...'', []),
        (DEBUG, literal ''Shutting down cores...'', []),
        (DEBUG, literal ''All cores except core 0 disabled.'', []),
        (DEBUG, literal ''Process scheduler disabled, core passed to kernel.'', []),
        (WARNING, literal ''System suspended'', [])]))"

definition gpf :: "bool \<Rightarrow> logger \<Rightarrow> (nat \<Rightarrow> u8) \<Rightarrow> elf_symbols \<Rightarrow> nat \<Rightarrow> kernel_log \<Rightarrow> kernel_log res option" where
  "gpf kdebug pk mem s frame k = panic kdebug pk mem s frame (literal ''General protection fault'') k"

text \<open>
  The report of \<open>startup\<close>, from the version of the kernel, three strings of the build, to the list of regions. The
  first component of the result says whether the start goes on; \<open>stop\<close> is \<open>panic\<close>.
\<close>

definition region_message :: "mregion \<Rightarrow> log_message" where
  "region_message r =
     (DEBUG, 9 # literal ''0x%X-0x%X %u KiB'',
      [Num (word_of_nat (r_start r)), Num (word_of_nat (r_start r + r_size r) - 1), Num (word_of_nat (r_size r div 1024))])"

definition memory_message :: "MEMID \<Rightarrow> log_message" where
  "memory_message m =
     (INFO, literal ''Detected memory: %u sections, %u MiB total'',
      [Num (word_of_nat (nEntries m)), Num (word_of_nat (totalSize m div 1048576))])"

definition startup_report ::
  "cbuf \<times> cbuf \<times> cbuf \<Rightarrow> logger \<Rightarrow> (cbuf \<Rightarrow> kernel_log \<Rightarrow> kernel_log res option) \<Rightarrow>
     bool \<Rightarrow> u32 \<times> u32 \<times> u32 \<Rightarrow> u32 \<times> u32 \<times> u32 \<Rightarrow> MEMID \<Rightarrow> mregion list \<Rightarrow>
     CPUINFO \<Rightarrow> X64_CPUID \<Rightarrow> kernel_log \<Rightarrow> (bool \<times> CPUINFO \<times> X64_CPUID \<times> kernel_log) res option" where
  "startup_report build pk stop CPUID_enabled leaf0 leaf1 memid rs cpu x k =
     (case build of (version, name, domain) \<Rightarrow>
      then_log (pk INFO (literal ''Starting version %s %s-%s'') [Str version, Str name, Str domain] k) (\<lambda>k.
        case getCPUINFO (pk DEBUG) CPUID_enabled leaf0 leaf1 cpu x k of None \<Rightarrow> None | Some (Inl e) \<Rightarrow> Some (Inl e)
        | Some (Inr (cpu, x, k)) \<Rightarrow>
            if \<not> cpu_enabled cpu then
              then_log (stop (literal ''CPUID not supported on target system!'') k) (\<lambda>k. Some (Inr (False, cpu, x, k)))
            else
              then_log (log_all pk ((if vendor cpu = UNKNOWN
                  then [(WARNING, literal ''Couldn't detect CPU vendor! Disabling all vendor specific features.'', [])]
                  else []) @ memory_message memid # map region_message rs) k)
                (\<lambda>k. Some (Inr (True, cpu, x, k)))))"

text \<open>
  \<open>arch_init\<close>: \<open>mbootInit\<close> with the search for the symbol tables, which comes before the memory map, then the task
  state segment and the descriptors. \<open>mbm\<close> and \<open>mbp\<close> are what the boot loader left in registers, \<open>gdtr\<close> what
  \<open>sgdt\<close> stores.
\<close>

definition load_sys_detect ::
  "nat \<Rightarrow> u32 \<Rightarrow> nat \<Rightarrow> (nat \<Rightarrow> mregion option) \<Rightarrow> boot_info \<times> early_memory \<times> elf_symbols \<Rightarrow>
     (boot_info \<times> early_memory \<times> elf_symbols) res" where
  "load_sys_detect mem_end mbm mbp fresh st =
     (case st of (b, m, s) \<Rightarrow>
      if mbm = MULTIBOOT_BOOTLOADER_MAGIC then
        and_then (boot_symbols mem_end (read_info (ram m) mbp) (m, s)) (\<lambda>(m, s).
        and_then (mbootInit mbm (ram m) mbp fresh b) (\<lambda>b. Inr (b, m, s)))
      else Inl Panic)"

definition arch_init ::
  "nat \<Rightarrow> u32 \<Rightarrow> nat \<Rightarrow> (nat \<Rightarrow> mregion option) \<Rightarrow> nat \<times> nat \<Rightarrow> u64 \<Rightarrow> boot_info \<times> early_memory \<times> elf_symbols \<Rightarrow>
     ((boot_info \<times> early_memory \<times> elf_symbols) \<times> int) res" where
  "arch_init mem_end mbm mbp fresh gdtr tss st =
     and_then (load_sys_detect mem_end mbm mbp fresh st) (\<lambda>(b, m, s).
     and_then (initGDT gdtr tss (initTSS (ram m))) (\<lambda>mem. Inr ((b, m\<lparr>ram := mem\<rparr>, s), 0)))"

text \<open>
  \<open>ktime\<close> gives the address of its static \<open>t\<close>, which nothing writes: \<open>t_update\<close> is empty, and \<open>ktime_init\<close> starts the
  clock of cmos.c and lets go of its time.
\<close>

definition t_update :: "time_t \<Rightarrow> time_t" where "t_update t = t"

definition ktime :: "time_t \<Rightarrow> time_t" where "ktime t = t_update t"

definition ktime_init :: "rtc \<Rightarrow> log_env \<Rightarrow> u8 \<Rightarrow> clock \<Rightarrow> (clock \<times> int) res option" where
  "ktime_init rtc e port70 c =
     (case arch_time_init rtc e port70 c of Some (Inr (c, _)) \<Rightarrow> Some (Inr (c, 0)) | r \<Rightarrow> r)"

section \<open>What appears on the screen\<close>

definition line :: "u8 list \<Rightarrow> u8 list" where "line out = time_stamp @ out @ [10]"

definition shown :: "Log_Level \<Rightarrow> log_message list \<Rightarrow> u8 list" where
  "shown ll ms = concat (map (\<lambda>(lv, str, vl). if lv \<le> ll then line (format (cstr str) vl) else []) ms)"

definition message_ok :: "log_message \<Rightarrow> bool" where
  "message_ok m \<longleftrightarrow> (case m of (lv, str, vl) \<Rightarrow> terminated str \<and> printable (cstr str) vl)"

definition logger_of :: "log_env \<Rightarrow> logger" where
  "logger_of e lv str vl = printk (max_level e) (bytes_alloc e) (cells_alloc e) (log_slot e) lv str vl"

text \<open>The log after some messages: what they show, and that it takes further ones.\<close>

definition logged :: "log_env \<Rightarrow> nat \<Rightarrow> kernel_log \<Rightarrow> log_message list \<Rightarrow> kernel_log \<Rightarrow> bool" where
  "logged e n k ms k' \<longleftrightarrow> shows_text (console_of k) (shown (max_level e) ms) (console_of k') \<and>
     log_ready e k' (n + length ms)"

lemma shown_simps [simp]:
  "shown ll [] = []"
  "shown ll ((lv, str, vl) # ms) = (if lv \<le> ll then line (format (cstr str) vl) else []) @ shown ll ms"
  "shown ll (ms @ ms') = shown ll ms @ shown ll ms'"
  by (simp_all add: shown_def)

lemma logged_append:
  assumes "logged e n k ms k1" and "logged e (n + length ms) k1 ms' k2"
  shows "logged e n k (ms @ ms') k2"
  using assms shows_text_trans by (auto simp: logged_def add.assoc)

lemma log_one:
  assumes "log_ready e k n" and "n + 1 < 2 ^ 60" and "message_ok (lv, str, vl)"
  shows "\<exists>k'. logger_of e lv str vl k = Some (Inr k') \<and> logged e n k [(lv, str, vl)] k'"
proof -
  obtain xs where xs: "array_ok (logs k) xs" "length xs = n" using assms(1) by (auto simp: log_ready_def)
  have "\<exists>k' lstr. printk (max_level e) (bytes_alloc e) (cells_alloc e) (log_slot e) lv str vl k = Some (Inr k') \<and>
    (if lv \<le> max_level e
     then shows_text (console_of k) (time_stamp @ format (cstr str) vl @ [10]) (console_of k')
     else console_of k' = console_of k) \<and>
    string_ok lstr (format (cstr str) vl) \<and>
    entries k' = entries k @ [\<lparr>level = lv, seconds = 0, microseconds = 0, message = s_str lstr\<rparr>] \<and>
    array_ok (logs k') (xs @ [log_slot e]) \<and> printk_enabled k'"
    by (rule printk_ok) (use assms xs in \<open>auto simp: log_ready_def message_ok_def\<close>)
  then obtain k' where k': "logger_of e lv str vl k = Some (Inr k')" "array_ok (logs k') (xs @ [log_slot e])"
    "printk_enabled k'" "if lv \<le> max_level e
     then shows_text (console_of k) (line (format (cstr str) vl)) (console_of k')
     else console_of k' = console_of k"
    unfolding logger_of_def line_def by blast
  have sh: "shows_text (console_of k) (shown (max_level e) [(lv, str, vl)]) (console_of k')"
    using k'(4) assms(1) by (simp add: shows_text_def log_ready_def screen_print_def split: if_splits)
  moreover have "\<exists>ys. array_ok (logs k') ys \<and> length ys = n + 1"
    using k'(2) xs(2) by (intro exI [of _ "xs @ [log_slot e]"]) simp
  ultimately have "logged e n k [(lv, str, vl)] k'"
    using k'(3) assms(1) by (auto simp: logged_def log_ready_def shows_text_def)
  with k'(1) show ?thesis by blast
qed

lemma log_all_ok:
  assumes "log_ready e k n" and "n + length ms < 2 ^ 60" and "\<forall>m \<in> set ms. message_ok m"
  shows "\<exists>k'. log_all (logger_of e) ms k = Some (Inr k') \<and> logged e n k ms k'"
  using assms
proof (induction ms arbitrary: k n)
  case Nil
  then show ?case by (auto simp: logged_def shows_text_def log_ready_def screen_print_def)
next
  case (Cons m ms)
  obtain lv str vl where m: "m = (lv, str, vl)" by (cases m)
  obtain k1 where k1: "logger_of e lv str vl k = Some (Inr k1)" "logged e n k [(lv, str, vl)] k1"
    using log_one [OF Cons.prems(1), of lv str vl] Cons.prems(2,3) m by auto
  then have "log_ready e k1 (n + 1)" by (simp add: logged_def)
  with Cons.IH [of k1 "n + 1"] Cons.prems obtain k2 where
    "log_all (logger_of e) ms k1 = Some (Inr k2)" "logged e (n + 1) k1 ms k2" by auto
  with k1 m logged_append [OF k1(2), of ms k2] show ?case by (auto simp: then_log_def)
qed

lemma log_disabled: "\<not> printk_enabled k \<Longrightarrow> log_all (logger_of e) ms k = Some (Inr k)"
  by (induction ms) (auto simp: then_log_def logger_of_def printk_def)

section \<open>Panic\<close>

lemma literal_string:
  assumes "CHR 0x00 \<notin> set s"
  shows "cstr (literal s) = bytes_of s" and "terminated (literal s)"
    and "cstr (9 # literal s) = 9 # bytes_of s" and "terminated (9 # literal s)"
proof -
  have no: "0 \<notin> set (bytes_of s)" using assms by (auto simp: bytes_of_def of_char_zero)
  then show "cstr (literal s) = bytes_of s" "terminated (literal s)" "terminated (9 # literal s)"
    by (simp_all add: literal_def terminated_def cstr_append)
  from no show "cstr (9 # literal s) = 9 # bytes_of s"
    using cstr_append [of "9 # bytes_of s" "[]"] by (simp add: literal_def)
qed

lemma percent_byte: "37 \<in> set (bytes_of s) \<longleftrightarrow> CHR ''%'' \<in> set s"
  using of_char_inj [of "CHR ''%''"] by (auto simp: bytes_of_def image_iff)

lemma plain_message:
  assumes "CHR 0x00 \<notin> set s" and "CHR ''%'' \<notin> set s" and "length s \<le> 126"
  shows "message_ok (lv, literal s, [])" and "format (cstr (literal s)) [] = bytes_of s"
    and "message_ok (lv, 9 # literal s, [])" and "format (cstr (9 # literal s)) [] = 9 # bytes_of s"
  using assms percent_byte [of s]
  by (simp_all add: message_ok_def printable_def literal_string [OF assms(1)] format_plain) (simp_all add: bytes_of_def)

lemma error_message:
  assumes "terminated t" and "length (cstr t) \<le> 64"
  shows "message_ok (lv, literal ''Error message: %s'', [Str t])"
    and "format (cstr (literal ''Error message: %s'')) [Str t] = bytes_of ''Error message: '' @ cstr t"
  using assms
  by (simp_all add: message_ok_def printable_def literal_string conv_fits_def conv_rest_def takes_arg_def conv_out_def)
    (simp_all add: bytes_of_def conv_fits_def conv_rest_def takes_arg_def conv_out_def)

lemma trace_message:
  assumes "terminated (trace_name mem s a)" and "length (cstr (trace_name mem s a)) \<le> 64"
  shows "message_ok (trace_line mem s (r, a))"
  using assms
  by (simp add: message_ok_def trace_line_def printable_def literal_string)
    (simp add: bytes_of_def conv_fits_def conv_rest_def takes_arg_def)

lemma trace_format:
  "format (cstr (9 # literal ''0x%X    %s'')) [Num w, Str t] =
     9 # bytes_of ''0x'' @ hex_string (unat (ucast w :: u32)) @ bytes_of ''    '' @ cstr t"
  by (simp add: literal_string) (simp add: bytes_of_def conv_rest_def takes_arg_def conv_out_def)

text \<open>The lines of a trace at a level that is always printed.\<close>

definition trace_text :: "(nat \<Rightarrow> u8) \<Rightarrow> elf_symbols \<Rightarrow> nat \<Rightarrow> u8 list" where
  "trace_text mem s r = line (9 # bytes_of ''0x'' @ hex_string (unat (ucast (word_of_nat r :: u64) :: u32)) @
     bytes_of ''    '' @ cstr (trace_name mem s (TraceName mem s r)))"

lemma FATAL_least: "FATAL \<le> ll"
  by (cases ll) (simp_all add: less_eq_Log_Level_def)

lemma shown_trace: "shown ll (map (trace_line mem s) (map (\<lambda>r. (r, TraceName mem s r)) rs)) = concat (map (trace_text mem s) rs)"
  by (induction rs) (simp_all add: trace_line_def trace_text_def trace_format FATAL_least)

text \<open>All messages of a panic, with those of the trace.\<close>

definition trace_messages :: "bool \<Rightarrow> (nat \<Rightarrow> u8) \<Rightarrow> elf_symbols \<Rightarrow> nat list \<Rightarrow> log_message list" where
  "trace_messages kdebug mem s rs =
     (if kdebug then (FATAL, literal ''Stack trace (most recent call first):'', []) #
        map (trace_line mem s) (map (\<lambda>r. (r, TraceName mem s r)) rs)
      else [(DEBUG, 9 # literal ''Stack trace not shown (debugging disabled)'', [])])"

definition panic_messages :: "cbuf \<Rightarrow> log_message list \<Rightarrow> log_message list" where
  "panic_messages msg trace =
     [(FATAL, literal ''The system kernel has encountered a panic!'', []), (FATAL, literal ''Error message: %s'', [Str msg])] @ trace @
     [(DEBUG, literal ''Suspending all processes...'', []), (DEBUG, literal ''Shutting down cores...'', []),
      (DEBUG, literal ''All cores except core 0 disabled.'', []),
      (DEBUG, literal ''Process scheduler disabled, core passed to kernel.'', []), (WARNING, literal ''System suspended'', [])]"

lemma log_all_append: "log_all pk (ms @ ms') k = then_log (log_all pk ms k) (log_all pk ms')"
  by (induction ms arbitrary: k) (auto simp: then_log_def split: option.splits sum.splits)

lemma PrintStackTrace_messages:
  "frames mem frame rs \<Longrightarrow> PrintStackTrace kdebug pk mem s frame = log_all pk (trace_messages kdebug mem s rs)"
  by (rule ext) (auto simp: PrintStackTrace_def trace_messages_def stack_walk_aux then_log_def split: option.splits sum.splits)

lemma panic_messages_eq:
  assumes "frames mem frame rs"
  shows "panic kdebug pk mem s frame msg k = log_all pk (panic_messages msg (trace_messages kdebug mem s rs)) k"
  unfolding panic_messages_def log_all_append panic_def PrintStackTrace_messages [OF assms] ..

lemma shown_panic:
  assumes "terminated msg" and "length (cstr msg) \<le> 64"
  shows "shown INFO (panic_messages msg (trace_messages kdebug mem s rs)) =
    line (bytes_of ''The system kernel has encountered a panic!'') @ line (bytes_of ''Error message: '' @ cstr msg) @
    (if kdebug then line (bytes_of ''Stack trace (most recent call first):'') @ concat (map (trace_text mem s) rs) else []) @
    line (bytes_of ''System suspended'')"
  using error_message [OF assms] shown_trace [of INFO mem s rs]
  by (simp add: panic_messages_def trace_messages_def plain_message less_eq_Log_Level_def del: map_map)

lemma panic_text:
  assumes "terminated msg" and "length (cstr msg) \<le> 64" and "frames mem frame rs"
    and "\<forall>r \<in> set rs. terminated (trace_name mem s (TraceName mem s r)) \<and> length (cstr (trace_name mem s (TraceName mem s r))) \<le> 64"
    and "max_level e = INFO" and "n + length rs + 8 < 2 ^ 60" and ready: "log_ready e k n"
  shows "\<exists>k'. panic kdebug (logger_of e) mem s frame msg k = Some (Inr k') \<and>
      log_ready e k' (n + 8 + (if kdebug then length rs else 0)) \<and>
      shows_text (console_of k)
        (line (bytes_of ''The system kernel has encountered a panic!'') @ line (bytes_of ''Error message: '' @ cstr msg) @
         (if kdebug then line (bytes_of ''Stack trace (most recent call first):'') @ concat (map (trace_text mem s) rs) else []) @
         line (bytes_of ''System suspended'')) (console_of k')"
proof -
  let ?ms = "panic_messages msg (trace_messages kdebug mem s rs)"
  note eq = panic_messages_eq [OF assms(3), of kdebug "logger_of e" s msg k]
  have len: "length ?ms = 8 + (if kdebug then length rs else 0)" by (simp add: panic_messages_def trace_messages_def)
  have "\<forall>m \<in> set ?ms. message_ok m"
    using assms(1,2,4) by (auto simp: panic_messages_def trace_messages_def plain_message error_message trace_message)
  moreover have "n + length ?ms < 2 ^ 60" using assms(6) by (simp add: len)
  ultimately obtain k' where "log_all (logger_of e) ?ms k = Some (Inr k')" "logged e n k ?ms k'"
    using log_all_ok [OF ready] by blast
  then show ?thesis
    unfolding eq logged_def len assms(5) shown_panic [OF assms(1,2)] by (simp add: add.assoc)
qed

text \<open>
  C31. \<open>panic\<close> reaches its halt. What it shows at the level of the build, whatever is on the screen: that there was a
  panic, its message, with the option KDEBUG one line for each frame of the stack with the return address and the
  name of its function, and that the system is suspended. Before \<open>printk_init\<close>, where the panics of the memory
  management lie, it shows nothing.
\<close>

theorem panic_shows:
  assumes "terminated msg" and "length (cstr msg) \<le> 64" and "frames mem frame rs"
    and "\<forall>r \<in> set rs. terminated (trace_name mem s (TraceName mem s r)) \<and> length (cstr (trace_name mem s (TraceName mem s r))) \<le> 64"
    and "max_level e = INFO" and "n + length rs + 8 < 2 ^ 60"
  shows "(log_ready e k n \<longrightarrow> (\<exists>k'. panic kdebug (logger_of e) mem s frame msg k = Some (Inr k') \<and>
      log_ready e k' (n + 8 + (if kdebug then length rs else 0)) \<and>
      shows_text (console_of k)
        (line (bytes_of ''The system kernel has encountered a panic!'') @ line (bytes_of ''Error message: '' @ cstr msg) @
         (if kdebug then line (bytes_of ''Stack trace (most recent call first):'') @ concat (map (trace_text mem s) rs) else []) @
         line (bytes_of ''System suspended'')) (console_of k'))) \<and>
    (\<not> printk_enabled k \<longrightarrow> panic kdebug (logger_of e) mem s frame msg k = Some (Inr k))"
proof (intro conjI impI)
  show "panic kdebug (logger_of e) mem s frame msg k = Some (Inr k)" if "\<not> printk_enabled k"
    using panic_messages_eq [OF assms(3), of kdebug "logger_of e" s msg k] log_disabled [OF that] by simp
qed (rule panic_text [OF assms])

definition demo_env :: log_env where
  "demo_env = \<lparr>max_level = INFO, bytes_alloc = junk_alloc, cells_alloc = zero_cells, log_slot = 0x7000\<rparr>"

lemma report_ready: "log_ready demo_env demo_log 0"
  using junk_alloc_proper zero_cells_proper demo_console_ok
  by (auto simp: log_ready_def demo_env_def demo_log_def array_ok_def junk_alloc_def)

text \<open>A trace of one frame, without symbols.\<close>

theorem panic_shows_witness:
  "\<exists>k'. panic True (logger_of demo_env) (\<lambda>a. if a = 16 then 5 else 0)
      \<lparr>elf_sym = 0, elf_sym_size = 0, elf_str = 0, elf_str_size = 0\<rparr> 8 (literal ''no memory'') demo_log = Some (Inr k') \<and>
     shows_text demo_console
      (line (bytes_of ''The system kernel has encountered a panic!'') @ line (bytes_of ''Error message: '' @ bytes_of ''no memory'') @
       line (bytes_of ''Stack trace (most recent call first):'') @ line (9 # bytes_of ''0x'' @ hex_string 5 @ bytes_of ''    '') @
       line (bytes_of ''System suspended'')) (console_of k')"
proof -
  let ?mem = "\<lambda>a. if a = 16 then 5 else 0 :: u8"
  let ?s = "\<lparr>elf_sym = 0, elf_sym_size = 0, elf_str = 0, elf_str_size = 0\<rparr>"
  have msg: "terminated (literal ''no memory'')" "cstr (literal ''no memory'') = bytes_of ''no memory''"
    by (simp_all add: literal_string)
  have len: "length (cstr (literal ''no memory'')) \<le> 64" by (simp add: msg(2)) (simp add: bytes_of_def)
  have fr: "frames ?mem 8 [5]" by (simp add: rd_def upt_conv_Cons)
  have name: "trace_name ?mem ?s (TraceName ?mem ?s 5) = [0]" by (simp add: TraceName_def trace_name_def)
  have zero: "terminated [0]" "cstr [0] = []" by (simp_all add: terminated_def cstr_def)
  have log: "console_of demo_log = demo_console" by (simp add: demo_log_def)
  have "trace_text ?mem ?s 5 = line (9 # bytes_of ''0x'' @ hex_string 5 @ bytes_of ''    '')"
    by (simp add: trace_text_def name zero)
  with panic_shows [OF msg(1) len fr, where s = ?s and e = demo_env and n = 0 and k = demo_log and kdebug = True]
    name zero report_ready log msg(2) show ?thesis by (auto simp: demo_env_def)
qed

section \<open>The report of the start\<close>

lemma low_number: "unat (ucast (word_of_nat n :: u64) :: u32) = n mod 2 ^ 32"
  by (simp add: unsigned_ucast_eq unsigned_of_nat take_bit_eq_mod mod_mod_cancel)

lemma low_zero: "(ucast (word_of_nat n :: u64) :: u32) = 0 \<longleftrightarrow> n mod 2 ^ 32 = 0"
  using low_number [of n] by (metis unat_eq_zero)

lemma version_message:
  assumes "terminated a" and "length (cstr a) \<le> 64" and "terminated b" and "length (cstr b) \<le> 64"
    and "terminated c" and "length (cstr c) \<le> 64"
  shows "message_ok (INFO, literal ''Starting version %s %s-%s'', [Str a, Str b, Str c])"
    and "format (cstr (literal ''Starting version %s %s-%s'')) [Str a, Str b, Str c] =
      bytes_of ''Starting version '' @ cstr a @ [32] @ cstr b @ [45] @ cstr c"
  using assms
  by (simp_all add: message_ok_def printable_def literal_string)
    (simp_all add: bytes_of_def conv_fits_def conv_rest_def takes_arg_def conv_out_def)

definition memory_text :: "MEMID \<Rightarrow> u8 list" where
  "memory_text m = bytes_of ''Detected memory: '' @ dec_string (nEntries m mod 2 ^ 32) @ bytes_of '' sections, '' @
     dec_string (totalSize m div 1048576 mod 2 ^ 32) @ bytes_of '' MiB total''"

lemma memory_message_ok:
  assumes "nEntries m mod 2 ^ 32 \<noteq> 0" and "totalSize m div 1048576 mod 2 ^ 32 \<noteq> 0"
  shows "message_ok (memory_message m)" and "shown INFO [memory_message m] = line (memory_text m)"
proof -
  show "message_ok (memory_message m)"
    using assms
    by (simp add: message_ok_def memory_message_def printable_def literal_string)
      (simp add: bytes_of_def conv_fits_def conv_rest_def takes_arg_def low_zero)
  show "shown INFO [memory_message m] = line (memory_text m)"
    by (simp add: memory_message_def literal_string less_eq_Log_Level_def memory_text_def)
      (simp add: bytes_of_def conv_rest_def takes_arg_def conv_out_def low_number)
qed

lemma region_message_ok:
  assumes "r_size r div 1024 mod 2 ^ 32 \<noteq> 0"
  shows "message_ok (region_message r)"
  using assms
  by (simp add: message_ok_def region_message_def printable_def literal_string)
    (simp add: bytes_of_def conv_fits_def conv_rest_def takes_arg_def low_zero)

lemma region_hidden: "shown INFO (map region_message rs) = []"
  by (induction rs) (simp_all add: region_message_def less_eq_Log_Level_def)

text \<open>
  The report of \<open>startup\<close> on a processor with CPUID, at the level INFO of the build: it returns, the start goes on, and
  the screen shows the version of the kernel, a warning when the vendor is unknown, and the number of memory
  regions with the size of the memory, each modulo \<open>2^32\<close>. No number that it prints in decimal may be 0, for a level
  that is not shown either: the lines of the regions are expanded like the others.
\<close>

theorem startup_report_shows:
  assumes "log_ready e k n" and "max_level e = INFO" and "n + length rs + 4 < 2 ^ 60"
    and "\<forall>t \<in> {version, name, domain}. terminated t \<and> length (cstr t) \<le> 64" and "id_apic x = 0"
    and "nEntries m mod 2 ^ 32 \<noteq> 0" and "totalSize m div 1048576 mod 2 ^ 32 \<noteq> 0"
    and "\<forall>r \<in> set rs. r_size r div 1024 mod 2 ^ 32 \<noteq> 0" and "features = (eax, edx, ecx)"
  shows "\<exists>cpu' x' k'. startup_report (version, name, domain) (logger_of e) stop True name_leaf features m rs cpu x k =
      Some (Inr (True, cpu', x', k')) \<and> (vendor cpu' = UNKNOWN \<longleftrightarrow> documented_vendor (cstr (CPUID_manufacturer name_leaf)) = UNKNOWN) \<and>
    shows_text (console_of k)
      (line (bytes_of ''Starting version '' @ cstr version @ [32] @ cstr name @ [45] @ cstr domain) @
       (if vendor cpu' = UNKNOWN
        then line (bytes_of ''Couldn't detect CPU vendor! Disabling all vendor specific features.'') else []) @
       line (memory_text m)) (console_of k') \<and>
    (\<exists>j \<le> n + length rs + 4. log_ready e k' j)"
proof -
  let ?lg = "logger_of e" and ?name = "CPUID_manufacturer name_leaf"
  let ?ver = "literal ''Starting version %s %s-%s''" and ?warn = "''Couldn't detect CPU vendor! Disabling all vendor specific features.''"
  have lg: "?lg = printk (max_level e) (bytes_alloc e) (cells_alloc e) (log_slot e)"
    by (intro ext) (simp add: logger_of_def)
  have "message_ok (INFO, ?ver, [Str version, Str name, Str domain])" by (rule version_message(1)) (use assms(4) in auto)
  from log_one [OF assms(1) _ this] assms(3) obtain k1 where
    k1: "?lg INFO ?ver [Str version, Str name, Str domain] k = Some (Inr k1)"
      "logged e n k [(INFO, ?ver, [Str version, Str name, Str domain])] k1" by auto
  then have "log_ready e k1 (n + 1)" by (simp add: logged_def)
  then obtain xs where r1: "proper_alloc (bytes_alloc e)" "\<And>j. bytes_alloc e j \<noteq> None" "proper_cells (cells_alloc e)"
    "printk_enabled k1" "console_ok (console_of k1)" "array_ok (logs k1) xs" "length xs = n + 1"
    by (auto simp: log_ready_def)
  have "length xs + 1 < 2 ^ 60" using r1(7) assms(3) by simp
  from getCPUINFO_ok [OF r1(1-6) this assms(5) refl, of "max_level e" "log_slot e" name_leaf eax edx ecx cpu]
  obtain k2 cpu2 x2 where k2: "getCPUINFO (?lg DEBUG) True name_leaf features cpu x k1 = Some (Inr (cpu2, x2, k2))"
    "console_of k2 = console_of k1" "array_ok (logs k2) (xs @ [log_slot e])" "printk_enabled k2" "cpu_enabled cpu2"
    "vendor cpu2 = (if cstr ?name = bytes_of ''VIA VIA VIA '' then AMD else documented_vendor (cstr ?name))"
    unfolding lg assms(9) by (auto simp: assms(2) less_eq_Log_Level_def)
  have via: "vendor cpu2 = UNKNOWN \<longleftrightarrow> documented_vendor (cstr ?name) = UNKNOWN"
    by (simp add: k2(6) documented_vendor_def bytes_of_inj)
  have ready2: "log_ready e k2 (n + 2)"
    using k2(2-4) r1 by (auto simp: log_ready_def intro!: exI [of _ "xs @ [log_slot e]"])
  define ms where "ms = (if vendor cpu2 = UNKNOWN then [(WARNING, literal ?warn, [])] else []) @ memory_message m # map region_message rs"
  have ok: "\<forall>m \<in> set ms. message_ok m"
    using assms(6-8) by (auto simp: ms_def plain_message memory_message_ok region_message_ok)
  have "length ms \<le> length rs + 2" by (simp add: ms_def)
  then obtain k3 where k3: "log_all ?lg ms k2 = Some (Inr k3)" "logged e (n + 2) k2 ms k3"
    using log_all_ok [OF ready2 _ ok] assms(3) by auto
  have rep: "startup_report (version, name, domain) ?lg stop True name_leaf features m rs cpu x k = Some (Inr (True, cpu2, x2, k3))"
    using k1(1) k2(1,5) k3(1) by (simp add: startup_report_def then_log_def ms_def)
  have sh: "shown INFO ms = (if vendor cpu2 = UNKNOWN then line (bytes_of ?warn) else []) @ line (memory_text m)"
    using memory_message_ok(2) [OF assms(6,7)] region_hidden [of rs]
    by (simp add: ms_def plain_message less_eq_Log_Level_def memory_message_def)
  have v: "shown INFO [(INFO, ?ver, [Str version, Str name, Str domain])] =
      line (bytes_of ''Starting version '' @ cstr version @ [32] @ cstr name @ [45] @ cstr domain)"
    using version_message(2) [of version name domain] assms(4) by (simp add: less_eq_Log_Level_def)
  have "shows_text (console_of k) (shown INFO [(INFO, ?ver, [Str version, Str name, Str domain])] @ shown INFO ms) (console_of k3)"
    using k1(2) k3(2) k2(2) assms(2) by (intro shows_text_trans [of _ _ "console_of k1"]) (simp_all add: logged_def)
  moreover have "log_ready e k3 (n + 2 + length ms)" using k3(2) by (simp add: logged_def)
  then have "\<exists>j \<le> n + length rs + 4. log_ready e k3 j" using \<open>length ms \<le> length rs + 2\<close>
    by (intro exI [of _ "n + 2 + length ms"]) simp
  ultimately show ?thesis using rep via unfolding sh v by blast
qed

text \<open>A processor that answers with zeros, and 272 MiB in one region.\<close>

theorem startup_report_shows_witness:
  "\<exists>cpu' x' k'. startup_report (literal ''1'', literal ''a'', literal ''b'') (logger_of demo_env) (\<lambda>_ k. Some (Inr k)) True (0, 0, 0) (0, 0, 0)
      \<lparr>enabled = True, nEntries = 1, totalSize = 0x11000000\<rparr> [blank_region 0x100000 69632]
      \<lparr>cpu_enabled = False, asp = False, vendor = AMD, isVM = False\<rparr>
      \<lparr>vendor_string = replicate 12 0, id_apic = 0, FI_EDX = 0, FI_ECX = 0\<rparr> demo_log = Some (Inr (True, cpu', x', k')) \<and>
    vendor cpu' = UNKNOWN \<and>
    shows_text demo_console
      (line (bytes_of ''Starting version 1 a-b'') @
       line (bytes_of ''Couldn't detect CPU vendor! Disabling all vendor specific features.'') @
       line (bytes_of ''Detected memory: 1 sections, 272 MiB total'')) (console_of k')"
proof -
  let ?m = "\<lparr>enabled = True, nEntries = 1, totalSize = 0x11000000\<rparr>"
  have args: "\<forall>t \<in> {literal ''1'', literal ''a'', literal ''b''}. terminated t \<and> length (cstr t) \<le> 64"
    by (simp add: literal_string) (simp add: bytes_of_def)
  have size: "\<forall>r \<in> set [blank_region 0x100000 69632]. r_size r div 1024 mod 2 ^ 32 \<noteq> 0"
    by (simp add: blank_region_def page_size_def)
  have mem: "nEntries ?m mod 2 ^ 32 \<noteq> 0" "totalSize ?m div 1048576 mod 2 ^ 32 \<noteq> 0" by simp_all
  have name: "documented_vendor (cstr (CPUID_manufacturer (0, 0, 0))) = UNKNOWN"
    by (simp add: CPUID_manufacturer_def word_bytes_def upt_rec cstr_def documented_vendor_def bytes_of_def)
  have out: "memory_text ?m = bytes_of ''Detected memory: 1 sections, 272 MiB total''"
    by (simp add: memory_text_def dec_string_def digits_numeral digits_Cons [of "Suc 0" 10] digit_char_def bytes_of_def)
  have ver: "bytes_of ''Starting version '' @ cstr (literal ''1'') @ [32] @ cstr (literal ''a'') @ [45] @ cstr (literal ''b'') =
      bytes_of ''Starting version 1 a-b''"
    by (simp add: literal_string) (simp add: bytes_of_def)
  have env: "max_level demo_env = INFO" "console_of demo_log = demo_console" by (simp_all add: demo_env_def demo_log_def)
  have x: "id_apic \<lparr>vendor_string = replicate 12 0, id_apic = 0, FI_EDX = 0, FI_ECX = 0\<rparr> = 0" by simp
  from startup_report_shows [OF report_ready env(1) _ args x mem size refl, where stop = "\<lambda>_ k. Some (Inr k)"
      and name_leaf = "(0, 0, 0)" and cpu = "\<lparr>cpu_enabled = False, asp = False, vendor = AMD, isVM = False\<rparr>"
      and eax = 0 and edx = 0 and ecx = 0] name
  show ?thesis unfolding out ver env(2) by fastforce
qed

end
