(* ===== verification/Heap_Memory.thy ===== *)
theory Heap_Memory
  imports Heap Byte_Memory
begin

text \<open>
  \<open>kmalloc\<close> of kernel/mm.c once more, on the memory itself: headers and pointers are bytes at addresses, the
  chains are followed through their \<open>next\<close> fields, and a loop that runs round a cycle does not return
  (\<open>None\<close>). On a memory that holds a well-formed heap it does what \<open>kmalloc\<close> of the theory Heap does on the
  lists; this model has in addition the states in between, where an interrupt can come in.
\<close>

section \<open>Fields of eight bytes\<close>

type_synonym memory = "nat \<Rightarrow> u8"

definition field :: "memory \<Rightarrow> nat \<Rightarrow> nat" where
  "field mem a = rd mem 8 a"

definition put :: "memory \<Rightarrow> nat \<Rightarrow> nat \<Rightarrow> memory" where
  "put mem a n = wr mem 8 a (word_of_nat n :: u64)"

lemma field_put_same [simp]: "n < 2 ^ 64 \<Longrightarrow> field (put mem a n) a = n"
  by (simp add: field_def put_def rd_wr_same unat_of_nat)

lemma field_put_other [simp]: "b + 8 \<le> a \<or> a + 8 \<le> b \<Longrightarrow> field (put mem b n) a = field mem a"
  unfolding field_def put_def by (rule rd_wr_other) auto

lemma put_other [simp]: "x < a \<or> a + 8 \<le> x \<Longrightarrow> put mem a n x = mem x"
  by (auto simp: put_def wr_def)

lemma field_less: "field mem a < 2 ^ 64"
  using rd_bound [of 8 mem a] by (simp add: field_def)

lemma field_cong: "(\<And>x. a \<le> x \<Longrightarrow> x < a + 8 \<Longrightarrow> mem' x = mem x) \<Longrightarrow> field mem' a = field mem a"
  unfolding field_def by (rule rd_moved) simp

section \<open>The code\<close>

text \<open>
  A header is \<open>size\<close>, \<open>size_max\<close> and \<open>next\<close>, a pointer \<open>size\<close> and \<open>next\<close>, eight bytes each. The loop over the
  headers gives the header it stops at, 0 for \<open>NULL\<close>, and \<open>hl\<close>, the one before it.
\<close>

partial_function (option) header_with_room :: "memory \<Rightarrow> nat \<Rightarrow> nat \<Rightarrow> nat \<Rightarrow> (nat \<times> nat) option" where
  "header_with_room mem bytes h hl =
     (if h = 0 then Some (0, hl)
      else if field mem (h + 8) \<ge> bytes then Some (h, hl)
      else header_with_room mem bytes (field mem (h + 16)) h)"

partial_function (option) pointer_with_room :: "memory \<Rightarrow> nat \<Rightarrow> nat \<Rightarrow> nat option" where
  "pointer_with_room mem bytes p =
     (if p = 0 then Some 0
      else if field mem p \<ge> bytes then Some p
      else pointer_with_room mem bytes (field mem (p + 8)))"

partial_function (option) max_from :: "memory \<Rightarrow> nat \<Rightarrow> nat \<Rightarrow> nat option" where
  "max_from mem p m =
     (if p = 0 then Some m
      else max_from mem (field mem (p + 8)) (if field mem p > m then field mem p else m))"

definition max_in_header :: "memory \<Rightarrow> nat \<Rightarrow> nat option" where
  "max_in_header mem h = max_from mem (h + HEADER_SIZE) 0"

text \<open>A new header behind \<open>hl\<close>; 0 where there is no memory for it.\<close>

definition append_header :: "(nat \<Rightarrow> nat) \<Rightarrow> memory \<Rightarrow> nat \<Rightarrow> nat \<Rightarrow> (memory \<times> nat) res" where
  "append_header newpages mem hl bytes =
     (let order = log_order (pages_needed bytes);
          addr = newpages order;
          size = 2 ^ order * page_size
      in if hl = 0 then Inl NullDeref
         else if addr = 0 then Inr (put mem (hl + 16) 0, 0)
         else
           let mem = put mem (hl + 16) addr;
               mem = put mem addr size;
               mem = put mem (addr + 8) (sub64 (sub64 size HEADER_SIZE) POINTER_SIZE);
               mem = put mem (addr + 16) 0;
               p = addr + HEADER_SIZE;
               mem = put mem p size;
               mem = put mem (p + 8) 0
           in Inr (mem, addr))"

text \<open>The first half of \<open>kmalloc\<close>, up to the pointer \<open>p\<close> that will be used.\<close>

definition kmalloc_find ::
  "(nat \<Rightarrow> nat) \<Rightarrow> memory \<Rightarrow> nat \<Rightarrow> nat \<Rightarrow> (memory \<times> nat \<times> nat) res option" where
  "kmalloc_find newpages mem header_start bytes =
     (case header_with_room mem bytes header_start 0 of None \<Rightarrow> None
      | Some (h, hl) \<Rightarrow>
          (case if h = 0 then append_header newpages mem hl bytes else Inr (mem, h) of Inl e \<Rightarrow> Some (Inl e)
           | Inr (mem, h) \<Rightarrow>
               if h = 0 then Some (Inr (mem, 0, 0))
               else case pointer_with_room mem bytes (h + HEADER_SIZE) of None \<Rightarrow> None
               | Some p \<Rightarrow> Some (Inr (mem, h, p))))"

text \<open>The second half: the rest of the segment becomes a pointer, \<open>p\<close> is marked, \<open>size_max\<close> found again.\<close>

definition cut_segment :: "memory \<Rightarrow> nat \<Rightarrow> nat \<Rightarrow> memory" where
  "cut_segment mem p bytes =
     (if sub64 (field mem p) bytes > POINTER_SIZE then
        let newp = add64 (p + POINTER_SIZE) bytes;
            mem = put mem (newp + 8) (field mem (p + 8));
            mem = put mem newp (sub64 (sub64 (field mem p) bytes) POINTER_SIZE)
        in put mem (p + 8) newp
      else mem)"

definition kmalloc_use :: "memory \<Rightarrow> nat \<Rightarrow> nat \<Rightarrow> nat \<Rightarrow> (memory \<times> nat) res option" where
  "kmalloc_use mem h p bytes =
     (if p = 0 then Some (Inl NullDeref)
      else
        let address = p + POINTER_SIZE;
            mem = cut_segment mem p bytes;
            mem = put mem p 0
        in case max_in_header mem h of None \<Rightarrow> None
           | Some m \<Rightarrow> Some (Inr (put mem (h + 8) m, address)))"

definition kmalloc_mem :: "(nat \<Rightarrow> nat) \<Rightarrow> memory \<Rightarrow> nat \<Rightarrow> nat \<Rightarrow> (memory \<times> nat) res option" where
  "kmalloc_mem newpages mem header_start bytes =
     (if bytes = 0 then Some (Inr (mem, 0))
      else case kmalloc_find newpages mem header_start bytes of None \<Rightarrow> None
      | Some (Inl e) \<Rightarrow> Some (Inl e)
      | Some (Inr (mem, h, p)) \<Rightarrow>
          if h = 0 then Some (Inr (mem, 0)) else kmalloc_use mem h p bytes)"

section \<open>Chains in memory\<close>

fun ptrs_at :: "memory \<Rightarrow> nat \<Rightarrow> mpointer_t list \<Rightarrow> bool" where
  "ptrs_at mem a [] = (a = 0)"
| "ptrs_at mem a (p # ps) =
     (a = p_addr p \<and> a \<noteq> 0 \<and> field mem a = p_size p \<and> ptrs_at mem (field mem (a + 8)) ps)"

fun headers_at :: "memory \<Rightarrow> nat \<Rightarrow> heap \<Rightarrow> bool" where
  "headers_at mem a [] = (a = 0)"
| "headers_at mem a (h # hs) =
     (a = h_addr h \<and> a \<noteq> 0 \<and> field mem a = h_size h \<and> field mem (a + 8) = h_size_max h \<and>
      ptrs_at mem (a + HEADER_SIZE) (h_ptrs h) \<and> headers_at mem (field mem (a + 16)) hs)"

text \<open>The bytes that the structures of a header occupy.\<close>

definition ptr_bytes :: "mpointer_t list \<Rightarrow> nat set" where
  "ptr_bytes ps = (\<Union>p \<in> set ps. {p_addr p ..< p_addr p + POINTER_SIZE})"

definition header_bytes :: "mheader_t \<Rightarrow> nat set" where
  "header_bytes h = {h_addr h ..< h_addr h + HEADER_SIZE} \<union> ptr_bytes (h_ptrs h)"

lemma ptr_bytes_simps [simp]:
  "ptr_bytes [] = {}"
  "ptr_bytes (p # ps) = {p_addr p ..< p_addr p + POINTER_SIZE} \<union> ptr_bytes ps"
  "ptr_bytes (ps @ qs) = ptr_bytes ps \<union> ptr_bytes qs"
  by (simp_all add: ptr_bytes_def)

lemma ptrs_at_cong:
  "ptrs_at mem a ps \<Longrightarrow> (\<And>x. x \<in> ptr_bytes ps \<Longrightarrow> mem' x = mem x) \<Longrightarrow> ptrs_at mem' a ps"
proof (induction ps arbitrary: a)
  case (Cons p ps)
  have "field mem' a = field mem a" "field mem' (a + 8) = field mem (a + 8)"
    by (rule field_cong, rule Cons.prems(2), use Cons.prems(1) in simp)+
  moreover have "ptrs_at mem' (field mem (a + 8)) ps"
    using Cons.prems by (intro Cons.IH) auto
  ultimately show ?case using Cons.prems(1) by auto
qed simp

lemma headers_at_cong:
  "headers_at mem a hs \<Longrightarrow> (\<And>h x. h \<in> set hs \<Longrightarrow> x \<in> header_bytes h \<Longrightarrow> mem' x = mem x) \<Longrightarrow> headers_at mem' a hs"
proof (induction hs arbitrary: a)
  case (Cons h hs)
  have same: "mem' x = mem x" if "x \<in> header_bytes h" for x by (rule Cons.prems(2) [of h]) (simp_all add: that)
  have f: "field mem' (a + k) = field mem (a + k)" if "k \<le> 16" for k
    by (rule field_cong, rule same) (use Cons.prems(1) that in \<open>simp add: header_bytes_def\<close>)
  have "ptrs_at mem' (a + HEADER_SIZE) (h_ptrs h)"
    by (rule ptrs_at_cong [where mem = mem], use Cons.prems(1) in auto, rule same) (simp add: header_bytes_def)
  moreover have "headers_at mem' (field mem (a + 16)) hs"
    using Cons.prems by (intro Cons.IH) auto
  ultimately show ?case using Cons.prems(1) f [of 0] f [of 8] f [of 16] by auto
qed simp

text \<open>Where the structures of a well-formed header lie.\<close>

lemma chain_bytes:
  "chain_ok e (p # ps) \<Longrightarrow> ptr_bytes (p # ps) \<subseteq> {p_addr p ..< e}"
proof (induction ps arbitrary: p)
  case (Cons q ps)
  then have "p_addr p + POINTER_SIZE \<le> p_addr q" "ptr_bytes (q # ps) \<subseteq> {p_addr q ..< e}" by auto
  moreover have "p_addr q + POINTER_SIZE \<le> e" using chain_ok_end [of e q ps] Cons.prems by simp
  ultimately show ?case by (auto 0 3)
qed auto

lemma header_bytes_range: "header_ok h \<Longrightarrow> header_bytes h \<subseteq> header_range h"
proof -
  assume ok: "header_ok h"
  then obtain p ps where p: "h_ptrs h = p # ps" by (cases "h_ptrs h") (auto simp: header_ok_def)
  with ok have chain: "chain_ok (h_addr h + h_size h) (p # ps)" "p_addr p = h_addr h + HEADER_SIZE"
    by (simp_all add: header_ok_def)
  from chain_bytes [OF chain(1)] chain_ok_end [OF chain(1)] chain(2) show ?thesis
    by (fastforce simp: header_bytes_def p header_range_def)
qed

section \<open>The loops on a chain\<close>

lemma pointer_with_room_list:
  "ptrs_at mem a (xs @ p # ys) \<Longrightarrow> \<forall>x \<in> set xs. p_size x < bytes \<Longrightarrow> bytes \<le> p_size p \<Longrightarrow>
     pointer_with_room mem bytes a = Some (p_addr p)"
proof (induction xs arbitrary: a)
  case Nil
  then show ?case by (subst pointer_with_room.simps) auto
next
  case (Cons x xs)
  then show ?case by (subst pointer_with_room.simps) auto
qed

lemma max_from_list: "ptrs_at mem a ps \<Longrightarrow> max_from mem a m = Some (findSize_max_from ps m)"
proof (induction ps arbitrary: a m)
  case Nil
  then show ?case by (subst max_from.simps) simp
next
  case (Cons p ps)
  then show ?case by (subst max_from.simps) auto
qed

lemma header_with_room_list:
  "headers_at mem a (hs @ h # gs) \<Longrightarrow> \<forall>k \<in> set hs. h_size_max k < bytes \<Longrightarrow> bytes \<le> h_size_max h \<Longrightarrow>
     \<exists>l. header_with_room mem bytes a hl = Some (h_addr h, l)"
proof (induction hs arbitrary: a hl)
  case Nil
  then show ?case by (subst header_with_room.simps) auto
next
  case (Cons k hs)
  then show ?case by (subst header_with_room.simps) auto
qed

lemma headers_at_member:
  "headers_at mem a (hs @ h # gs) \<Longrightarrow> headers_at mem (h_addr h) (h # gs)"
  by (induction hs arbitrary: a) auto

lemma ptrs_at_member: "ptrs_at mem a (xs @ p # ys) \<Longrightarrow> ptrs_at mem (p_addr p) (p # ys)"
  by (induction xs arbitrary: a) auto

lemma ptrs_at_replace:
  "ptrs_at mem a (xs @ p # ys) \<Longrightarrow> (\<And>x. x \<in> ptr_bytes xs \<Longrightarrow> mem' x = mem x) \<Longrightarrow>
     ptrs_at mem' (p_addr p) (q # zs) \<Longrightarrow> ptrs_at mem' a (xs @ q # zs)"
proof (induction xs arbitrary: a)
  case (Cons x xs)
  have "field mem' a = field mem a" "field mem' (a + 8) = field mem (a + 8)"
    by (rule field_cong, rule Cons.prems(2), use Cons.prems(1) in simp)+
  moreover have "ptrs_at mem' (field mem (a + 8)) (xs @ q # zs)"
    using Cons.prems by (intro Cons.IH) auto
  ultimately show ?case using Cons.prems(1) by auto
qed auto

lemma headers_at_replace:
  "headers_at mem a (hs @ h # gs) \<Longrightarrow> (\<And>k x. k \<in> set hs \<Longrightarrow> x \<in> header_bytes k \<Longrightarrow> mem' x = mem x) \<Longrightarrow>
     headers_at mem' (h_addr h) (h' # fs) \<Longrightarrow> headers_at mem' a (hs @ h' # fs)"
proof (induction hs arbitrary: a)
  case (Cons k hs)
  have same: "mem' x = mem x" if "x \<in> header_bytes k" for x by (rule Cons.prems(2) [of k]) (simp_all add: that)
  have f: "field mem' (a + i) = field mem (a + i)" if "i \<le> 16" for i
    by (rule field_cong, rule same) (use Cons.prems(1) that in \<open>simp add: header_bytes_def\<close>)
  have "ptrs_at mem' (a + HEADER_SIZE) (h_ptrs k)"
    by (rule ptrs_at_cong [where mem = mem], use Cons.prems(1) in auto, rule same) (simp add: header_bytes_def)
  moreover have "headers_at mem' (field mem (a + 16)) (hs @ h' # fs)"
    using Cons.prems by (intro Cons.IH) auto
  ultimately show ?case using Cons.prems(1) f [of 0] f [of 8] f [of 16] by auto
qed auto

section \<open>Using a pointer\<close>

lemma take_pointer_first:
  "\<forall>x \<in> set xs. p_size x < bytes \<Longrightarrow> bytes \<le> p_size p \<Longrightarrow>
     take_pointer (xs @ p # ys) bytes = Some (xs @ use_pointer p bytes @ ys, p_addr p + POINTER_SIZE)"
  by (induction xs) auto

text \<open>The segment of a pointer: itself and what is free behind it.\<close>

definition segment :: "mpointer_t \<Rightarrow> nat set" where
  "segment p = {p_addr p ..< p_addr p + POINTER_SIZE + p_size p}"

lemma use_pointer_segment:
  assumes "bytes \<le> p_size p" and "p_addr p + POINTER_SIZE + p_size p \<le> e" and "e < 2 ^ 64"
  shows "ptr_bytes (use_pointer p bytes) \<subseteq> segment p"
proof -
  have "sub64 (p_size p) bytes = p_size p - bytes" using assms by (intro sub64_exact) auto
  then show ?thesis using assms(1) by (auto simp: use_pointer_def segment_def Let_def)
qed

lemma use_pointer_mem:
  assumes at: "ptrs_at mem a (xs @ p # ys)" and ok: "chain_ok e (xs @ p # ys)"
    and e: "e < 2 ^ 64" and bytes: "bytes \<le> p_size p"
    and mem': "mem' = put (cut_segment mem (p_addr p) bytes) (p_addr p) 0"
  shows "ptrs_at mem' a (xs @ use_pointer p bytes @ ys) \<and>
    (\<forall>x. x \<notin> ptr_bytes (use_pointer p bytes) \<longrightarrow> mem' x = mem x)"
proof -
  from ok have chain: "chain_ok (p_addr p) xs" "chain_ok e (p # ys)" unfolding chain_ok_append by auto
  have p: "p_addr p \<noteq> 0" "field mem (p_addr p) = p_size p" "ptrs_at mem (field mem (p_addr p + 8)) ys"
    using ptrs_at_member [OF at] by simp_all
  note pe = chain_ok_end [OF chain(2)]
  note seg = use_pointer_segment [OF bytes, of e] 
  have left: "x \<notin> segment p" if "x \<in> ptr_bytes xs" for x
  proof (cases xs)
    case (Cons y zs)
    with chain_bytes [of "p_addr p" y zs] chain(1) that show ?thesis by (auto simp: segment_def)
  qed (use that in simp)
  have right: "x \<notin> segment p" if "x \<in> ptr_bytes ys" for x
  proof (cases ys)
    case (Cons y zs)
    with chain_bytes [of e y zs] chain(2) that show ?thesis by (auto simp: segment_def)
  qed (use that in simp)
  have sub: "sub64 (p_size p) bytes = p_size p - bytes" using bytes pe e by (intro sub64_exact) auto
  let ?out = "\<forall>x. x \<notin> ptr_bytes (use_pointer p bytes) \<longrightarrow> mem' x = mem x"
  have tail: "ptrs_at mem' (field mem (p_addr p + 8)) ys" if out: ?out
    by (rule ptrs_at_cong [OF p(3)]) (use out right seg pe e in blast)
  have frame: ?thesis if out: ?out and new: "ptrs_at mem' (p_addr p) (use_pointer p bytes @ ys)"
  proof -
    obtain zs where zs: "use_pointer p bytes @ ys = p\<lparr>p_size := 0\<rparr> # zs" by (simp add: use_pointer_def Let_def)
    have "mem' x = mem x" if "x \<in> ptr_bytes xs" for x using out left [OF that] seg pe e by blast
    then have "ptrs_at mem' a (xs @ p\<lparr>p_size := 0\<rparr> # zs)"
      using new unfolding zs by (rule ptrs_at_replace [OF at])
    with out show ?thesis by (simp add: zs)
  qed
  show ?thesis
  proof (cases "p_size p - bytes > POINTER_SIZE")
    case True
    define newp where "newp = p_addr p + POINTER_SIZE + bytes"
    define rest where "rest = p_size p - bytes - POINTER_SIZE"
    have "add64 (p_addr p + POINTER_SIZE) bytes = newp" "sub64 (p_size p - bytes) POINTER_SIZE = rest"
      unfolding newp_def rest_def using True pe e by (intro add64_exact sub64_exact; simp)+
    moreover have lt: "p_addr p + 16 \<le> newp" "newp < 2 ^ 64" "rest < 2 ^ 64"
      using True pe e by (simp_all add: newp_def rest_def)
    ultimately have m: "mem' = put (put (put (put mem (newp + 8) (field mem (p_addr p + 8))) newp rest) (p_addr p + 8) newp) (p_addr p) 0"
      and u: "use_pointer p bytes = [p\<lparr>p_size := 0\<rparr>, \<lparr>p_addr = newp, p_size = rest\<rparr>]"
      using True p(2) sub by (simp_all add: mem' cut_segment_def use_pointer_def newp_def Let_def)
    have "mem' x = mem x" if "x < p_addr p \<or> p_addr p + 16 \<le> x" "x < newp \<or> newp + 16 \<le> x" for x
      using that by (auto simp: m)
    then have out: ?out by (auto simp: u not_less)
    note tail [OF out]
    moreover have "field mem' (p_addr p) = 0" "field mem' (p_addr p + 8) = newp" "field mem' newp = rest"
      "field mem' (newp + 8) = field mem (p_addr p + 8)"
      using lt field_less [of mem "p_addr p + 8"] by (simp_all add: m)
    ultimately show ?thesis using p(1) lt(1) out by (intro frame) (simp_all add: u)
  next
    case False
    then have m: "mem' = put mem (p_addr p) 0" and u: "use_pointer p bytes = [p\<lparr>p_size := 0\<rparr>]"
      using p(2) sub by (simp_all add: mem' cut_segment_def use_pointer_def)
    have out: ?out by (auto simp: m u)
    have "field mem' (p_addr p) = 0" "field mem' (p_addr p + 8) = field mem (p_addr p + 8)" by (simp_all add: m)
    with tail [OF out] show ?thesis using p(1) out by (intro frame) (simp_all add: u)
  qed
qed

text \<open>No block in use lies in the segment of a free pointer.\<close>

lemma taken_apart:
  assumes "chain_ok e (xs @ p # ys)" and "0 < p_size p" and "(b, g) \<in> taken e (xs @ p # ys)"
  shows "g \<le> p_addr p \<or> p_addr p + POINTER_SIZE + p_size p \<le> b"
proof -
  from assms(1) have chain: "chain_ok (p_addr p) xs" "chain_ok e (p # ys)" unfolding chain_ok_append by auto
  from assms(2,3) consider "(b, g) \<in> taken (p_addr p) xs" | "(b, g) \<in> taken e ys"
    unfolding taken_append by auto
  then show ?thesis
  proof cases
    case 1
    then obtain q qs where "xs = q # qs" by (cases xs) auto
    with 1 chain(1) taken_range [of "p_addr p" q qs b g] show ?thesis by simp
  next
    case 2
    then obtain q qs where "ys = q # qs" by (cases ys) auto
    with 2 chain(2) taken_range [of e q qs b g] show ?thesis by simp
  qed
qed

lemma header_first:
  assumes "header_ok h"
  shows "ptr_bytes (h_ptrs h) \<subseteq> {h_addr h + HEADER_SIZE ..< h_addr h + h_size h}"
    and "(b, g) \<in> header_taken h \<Longrightarrow> h_addr h + HEADER_SIZE \<le> b"
    and "h_ptrs h = xs @ p # ys \<Longrightarrow> h_addr h + HEADER_SIZE \<le> p_addr p \<and>
      p_addr p + POINTER_SIZE + p_size p \<le> h_addr h + h_size h"
proof -
  from assms obtain q qs where q: "h_ptrs h = q # qs" by (cases "h_ptrs h") (auto simp: header_ok_def)
  with assms have chain: "chain_ok (h_addr h + h_size h) (q # qs)" and first: "p_addr q = h_addr h + HEADER_SIZE"
    by (simp_all add: header_ok_def)
  from chain_bytes [OF chain] first q show "ptr_bytes (h_ptrs h) \<subseteq> {h_addr h + HEADER_SIZE ..< h_addr h + h_size h}" by simp
  show "h_addr h + HEADER_SIZE \<le> b" if "(b, g) \<in> header_taken h"
    using taken_range [OF chain, of b g] that first q by (simp add: header_taken_def)
  assume split: "h_ptrs h = xs @ p # ys"
  have "p_addr p + POINTER_SIZE + p_size p \<le> h_addr h + h_size h"
    using chain chain_ok_end [of "h_addr h + h_size h" p ys] split q chain_ok_append by metis
  moreover have "h_addr h + HEADER_SIZE \<le> p_addr p"
  proof (cases xs)
    case (Cons x zs)
    with chain split q have "chain_ok (p_addr p) (q # zs)" using chain_ok_append [of _ "q # zs" p ys] by simp
    from chain_ok_end [OF this] first show ?thesis by simp
  qed (use first split q in simp)
  ultimately show "h_addr h + HEADER_SIZE \<le> p_addr p \<and> p_addr p + POINTER_SIZE + p_size p \<le> h_addr h + h_size h" by (rule conjI [rotated])
qed

lemma findSize_max_less: "ptrs_at mem a ps \<Longrightarrow> m < 2 ^ 64 \<Longrightarrow> findSize_max_from ps m < 2 ^ 64"
proof (induction ps arbitrary: a m)
  case (Cons p ps)
  then have "p_size p < 2 ^ 64" using field_less [of mem a] by auto
  with Cons show ?case by auto
qed simp

text \<open>The second half of \<open>kmalloc\<close> in a well-formed header, at the first pointer with room.\<close>

lemma kmalloc_use_ok:
  assumes at: "headers_at mem (h_addr h) (h # gs)" and ok: "header_ok h"
    and hp: "h_ptrs h = xs @ p # ys" "\<forall>x \<in> set xs. p_size x < bytes" "bytes \<le> p_size p" and bytes: "0 < bytes"
  shows "\<exists>mem' h'. kmalloc_use mem (h_addr h) (p_addr p) bytes = Some (Inr (mem', p_addr p + POINTER_SIZE)) \<and>
    header_alloc h bytes = Inr (h', p_addr p + POINTER_SIZE) \<and>
    (headers_at mem' (field mem (h_addr h + 16)) gs \<longrightarrow> headers_at mem' (h_addr h) (h' # gs)) \<and>
    (\<forall>x. x \<notin> header_range h \<longrightarrow> mem' x = mem x) \<and>
    (\<forall>(b, g) \<in> header_taken h. \<forall>x. b \<le> x \<and> x < g \<longrightarrow> mem' x = mem x)"
proof -
  let ?e = "h_addr h + h_size h" and ?ps = "xs @ use_pointer p bytes @ ys"
  have chain: "chain_ok ?e (xs @ p # ys)" and e: "?e < 2 ^ 64" using ok hp(1) by (simp_all add: header_ok_def)
  have ptrs: "ptrs_at mem (h_addr h + HEADER_SIZE) (xs @ p # ys)" using at hp(1) by simp
  define mem1 where "mem1 = put (cut_segment mem (p_addr p) bytes) (p_addr p) 0"
  from use_pointer_mem [OF ptrs chain e hp(3) mem1_def]
  have mem1: "ptrs_at mem1 (h_addr h + HEADER_SIZE) ?ps" "\<And>x. x \<notin> segment p \<Longrightarrow> mem1 x = mem x"
    using use_pointer_segment [OF hp(3) _ e] header_first(3) [OF ok hp(1)] by blast+
  define m where "m = findSize_max_from ?ps 0"
  have max: "max_in_header mem1 (h_addr h) = Some m" unfolding max_in_header_def m_def by (rule max_from_list [OF mem1(1)])
  define mem' where "mem' = put mem1 (h_addr h + 8) m"
  define h' where "h' = h\<lparr>h_ptrs := ?ps, h_size_max := m\<rparr>"
  have alloc: "header_alloc h bytes = Inr (h', p_addr p + POINTER_SIZE)"
    unfolding header_alloc_def hp(1) take_pointer_first [OF hp(2,3)] by (simp add: h'_def m_def findSize_max_def Let_def)
  have "bytes \<le> h_size_max h"
    using ok hp findSize_max_le [of bytes "h_ptrs h" 0] by (auto simp: header_ok_def findSize_max_def)
  from header_alloc_ok [OF ok bytes this] alloc have "header_ok h'" by auto
  from header_first(1) [OF this] have bytes': "ptr_bytes ?ps \<subseteq> {h_addr h + HEADER_SIZE ..< ?e}" by (simp add: h'_def)
  note p = header_first(3) [OF ok hp(1)]
  have used: "kmalloc_use mem (h_addr h) (p_addr p) bytes = Some (Inr (mem', p_addr p + POINTER_SIZE))"
    using ptrs_at_member [OF ptrs] max by (simp add: kmalloc_use_def mem1_def mem'_def Let_def)
  have out: "mem' x = mem x" if "x \<notin> segment p" "x < h_addr h + 8 \<or> h_addr h + 16 \<le> x" for x
    using that mem1(2) by (auto simp: mem'_def)
  have frame: "\<forall>x. x \<notin> header_range h \<longrightarrow> mem' x = mem x"
    using p by (intro allI impI out) (auto simp: header_range_def segment_def)
  have kept: "mem' x = mem x" if "(b, g) \<in> header_taken h" "b \<le> x" "x < g" for b g x
  proof -
    have "g \<le> p_addr p \<or> p_addr p + POINTER_SIZE + p_size p \<le> b" "h_addr h + HEADER_SIZE \<le> b"
      using taken_apart [OF chain] header_first(2) [OF ok] bytes hp that(1) by (auto simp: header_taken_def)
    with that show ?thesis by (intro out) (auto simp: segment_def)
  qed
  have new: "headers_at mem' (h_addr h) (h' # gs)" if "headers_at mem' (field mem (h_addr h + 16)) gs"
  proof -
    have "field mem' (h_addr h + k) = field mem (h_addr h + k)" if "k = 0 \<or> k = 16" for k
      by (rule field_cong, rule out) (use that p in \<open>auto simp: segment_def\<close>)
    from this [of 0] this [of 16] have "field mem' (h_addr h) = h_size h" "field mem' (h_addr h + 16) = field mem (h_addr h + 16)"
      using at by auto
    moreover have "field mem' (h_addr h + 8) = m" using findSize_max_less [OF mem1(1)] by (simp add: mem'_def m_def)
    moreover have "ptrs_at mem' (h_addr h + HEADER_SIZE) ?ps"
      by (rule ptrs_at_cong [OF mem1(1)]) (use bytes' in \<open>auto simp: mem'_def\<close>)
    ultimately show ?thesis using at that by (simp add: h'_def)
  qed
  show ?thesis using used alloc new frame kept by blast
qed

section \<open>kmalloc in memory is kmalloc on the lists\<close>

lemma kmalloc_walk_first:
  "\<forall>k \<in> set hs. h_size_max k < bytes \<Longrightarrow> bytes \<le> h_size_max h \<Longrightarrow> header_alloc h bytes = Inr (h', a) \<Longrightarrow>
     kmalloc_walk newpages (hs @ h # gs) bytes = Inr (hs @ h' # gs, a)"
  by (induction hs) auto

lemma heap_ok_member:
  "heap_ok (hs @ h # gs) \<Longrightarrow> header_ok h \<and>
     (\<forall>k \<in> set hs \<union> set gs. header_ok k \<and> header_range k \<inter> header_range h = {})"
proof (induction hs)
  case Nil
  moreover have "heap_ok gs \<Longrightarrow> k \<in> set gs \<Longrightarrow> header_ok k" for k by (induction gs) auto
  ultimately show ?case by (auto simp: Int_commute)
next
  case (Cons k hs)
  then show ?case by (auto simp: Int_commute)
qed

text \<open>The first header and pointer with room, as the loops find them.\<close>

lemma kmalloc_find_ok:
  assumes at: "headers_at mem start hs" and ok: "heap_ok hs" and bytes: "0 < bytes"
    and room: "\<exists>h \<in> set hs. bytes \<le> h_size_max h"
  obtains ks h gs xs p ys where "hs = ks @ h # gs" and "\<forall>k \<in> set ks. h_size_max k < bytes" and "bytes \<le> h_size_max h"
    and "h_ptrs h = xs @ p # ys" and "\<forall>x \<in> set xs. p_size x < bytes" and "bytes \<le> p_size p"
    and "kmalloc_find newpages mem start bytes = Some (Inr (mem, h_addr h, p_addr p))"
proof -
  from split_list_first_prop [OF room] obtain ks h gs where
    h: "hs = ks @ h # gs" "bytes \<le> h_size_max h" "\<forall>k \<in> set ks. h_size_max k < bytes" by (auto simp: not_le)
  with ok have "header_ok h" using heap_ok_member by blast
  then have "\<exists>p \<in> set (h_ptrs h). bytes \<le> p_size p"
    using h(2) bytes findSize_max_le [of bytes "h_ptrs h" 0] by (simp add: header_ok_def findSize_max_def)
  from split_list_first_prop [OF this] obtain xs p ys where
    p: "h_ptrs h = xs @ p # ys" "bytes \<le> p_size p" "\<forall>x \<in> set xs. p_size x < bytes" by (auto simp: not_le)
  have hat: "headers_at mem (h_addr h) (h # gs)" using headers_at_member at h(1) by blast
  obtain l where "header_with_room mem bytes start 0 = Some (h_addr h, l)"
    using header_with_room_list [OF _ h(3,2)] at h(1) by blast
  moreover have "pointer_with_room mem bytes (h_addr h + HEADER_SIZE) = Some (p_addr p)"
    using hat p by (intro pointer_with_room_list) auto
  ultimately have "kmalloc_find newpages mem start bytes = Some (Inr (mem, h_addr h, p_addr p))"
    using hat by (simp add: kmalloc_find_def)
  with that h p show ?thesis by blast
qed

lemma kmalloc_mem_ok:
  assumes at: "headers_at mem start hs" and ok: "heap_ok hs" and bytes: "0 < bytes"
    and room: "\<exists>h \<in> set hs. bytes \<le> h_size_max h"
  shows "\<exists>mem' hs' a. kmalloc_mem newpages mem start bytes = Some (Inr (mem', a)) \<and>
    kmalloc newpages hs bytes = Inr (hs', a) \<and> headers_at mem' start hs' \<and> heap_ok hs' \<and>
    (\<forall>(b, g) \<in> heap_taken hs. \<forall>x. b \<le> x \<and> x < g \<longrightarrow> mem' x = mem x) \<and>
    (\<forall>x. (\<forall>h \<in> set hs. x \<notin> header_range h) \<longrightarrow> mem' x = mem x)"
proof -
  obtain ks h gs xs p ys where
    hs: "hs = ks @ h # gs" and k: "\<forall>k \<in> set ks. h_size_max k < bytes" "bytes \<le> h_size_max h"
    and p: "h_ptrs h = xs @ p # ys" "\<forall>x \<in> set xs. p_size x < bytes" "bytes \<le> p_size p"
    and find: "kmalloc_find newpages mem start bytes = Some (Inr (mem, h_addr h, p_addr p))"
    using kmalloc_find_ok [OF assms] by blast
  have h: "header_ok h" and others: "\<And>k. k \<in> set ks \<union> set gs \<Longrightarrow> header_ok k \<and> header_range k \<inter> header_range h = {}"
    using ok heap_ok_member unfolding hs by blast+
  have hat: "headers_at mem (h_addr h) (h # gs)" using headers_at_member at hs by blast
  obtain mem' h' where r: "kmalloc_use mem (h_addr h) (p_addr p) bytes = Some (Inr (mem', p_addr p + POINTER_SIZE))"
    "header_alloc h bytes = Inr (h', p_addr p + POINTER_SIZE)"
    "headers_at mem' (field mem (h_addr h + 16)) gs \<longrightarrow> headers_at mem' (h_addr h) (h' # gs)"
    "\<forall>x. x \<notin> header_range h \<longrightarrow> mem' x = mem x"
    "\<forall>(b, g) \<in> header_taken h. \<forall>x. b \<le> x \<and> x < g \<longrightarrow> mem' x = mem x"
    using kmalloc_use_ok [OF hat h p bytes] by blast
  have same: "mem' x = mem x" if "k \<in> set ks \<union> set gs" "x \<in> header_range k" for k x
    using r(4) others [OF that(1)] that(2) by blast
  have same': "mem' x = mem x" if "k \<in> set ks \<union> set gs" "x \<in> header_bytes k" for k x
    using same [OF that(1)] header_bytes_range others [OF that(1)] that(2) by blast
  have "headers_at mem' (field mem (h_addr h + 16)) gs"
    by (rule headers_at_cong [where mem = mem]) (use hat same' in auto)
  with r(3) have "headers_at mem' (h_addr h) (h' # gs)" by blast
  then have "headers_at mem' start (ks @ h' # gs)"
    by (rule headers_at_replace [OF at [unfolded hs] same', rotated 2]) simp_all
  moreover have call: "kmalloc newpages hs bytes = Inr (ks @ h' # gs, p_addr p + POINTER_SIZE)"
    using bytes kmalloc_walk_first [OF k r(2)] by (simp add: kmalloc_def hs)
  moreover have "heap_ok (ks @ h' # gs)"
    using kmalloc_correct_aux [OF ok bytes room, of newpages] call by auto
  moreover have "kmalloc_mem newpages mem start bytes = Some (Inr (mem', p_addr p + POINTER_SIZE))"
    using bytes find r(1) hat by (simp add: kmalloc_mem_def)
  moreover have "mem' x = mem x" if "(b, g) \<in> heap_taken hs" "b \<le> x" "x < g" for b g x
  proof -
    from that(1) obtain k where k: "k \<in> set hs" "(b, g) \<in> header_taken k" by (auto simp: heap_taken_def)
    show ?thesis
    proof (cases "(b, g) \<in> header_taken h")
      case True
      with r(5) that show ?thesis by blast
    next
      case False
      with k hs have "k \<in> set ks \<union> set gs" by auto
      moreover from header_taken_range [OF _ k(2)] others [OF this] have "x \<in> header_range k"
        using that by (auto simp: header_range_def)
      ultimately show ?thesis by (rule same)
    qed
  qed
  moreover have "mem' x = mem x" if "\<forall>h \<in> set hs. x \<notin> header_range h" for x using r(4) that hs by simp
  ultimately show ?thesis by blast
qed

text \<open>
  A header that is added: the loop ends at \<open>NULL\<close> with \<open>hl\<close> at the last header, whose \<open>next\<close> is set.
\<close>

lemma header_with_room_none:
  "headers_at mem a hs \<Longrightarrow> \<forall>h \<in> set hs. h_size_max h < bytes \<Longrightarrow>
     header_with_room mem bytes a hl = Some (0, if hs = [] then hl else h_addr (last hs))"
proof (induction hs arbitrary: a hl)
  case Nil
  then show ?case by (subst header_with_room.simps) simp
next
  case (Cons h hs)
  then show ?case by (subst header_with_room.simps) auto
qed

lemma headers_at_snoc:
  "headers_at mem a (hs @ [k]) \<Longrightarrow>
     (\<And>h x. h \<in> set (hs @ [k]) \<Longrightarrow> x \<in> header_bytes h \<Longrightarrow> x < h_addr k + 16 \<or> h_addr k + 24 \<le> x \<Longrightarrow> mem' x = mem x) \<Longrightarrow>
     (\<And>h. h \<in> set hs \<Longrightarrow> header_range h \<inter> header_range k = {}) \<Longrightarrow> (\<And>h. h \<in> set (hs @ [k]) \<Longrightarrow> header_ok h) \<Longrightarrow>
     headers_at mem' (field mem' (h_addr k + 16)) gs \<Longrightarrow> headers_at mem' a (hs @ k # gs)"
proof (rule headers_at_replace [where h = k and mem = mem and gs = "[]" and fs = gs])
  assume at: "headers_at mem a (hs @ [k])" and new: "headers_at mem' (field mem' (h_addr k + 16)) gs"
    and same: "\<And>h x. h \<in> set (hs @ [k]) \<Longrightarrow> x \<in> header_bytes h \<Longrightarrow> x < h_addr k + 16 \<or> h_addr k + 24 \<le> x \<Longrightarrow> mem' x = mem x"
    and apart: "\<And>h. h \<in> set hs \<Longrightarrow> header_range h \<inter> header_range k = {}"
    and ok: "\<And>h. h \<in> set (hs @ [k]) \<Longrightarrow> header_ok h"
  show "headers_at mem a (hs @ [k])" by (rule at)
  have k: "header_ok k" using ok by simp
  have next_in: "{h_addr k ..< h_addr k + 24} \<subseteq> header_range k" using header_bytes_range [OF k] by (auto simp: header_bytes_def)
  show "mem' x = mem x" if "h \<in> set hs" "x \<in> header_bytes h" for h x
  proof (rule same)
    have "x \<in> header_range h" using header_bytes_range [OF ok] that by auto
    then have "x \<notin> {h_addr k ..< h_addr k + 24}" using apart [OF that(1)] next_in by blast
    then show "x < h_addr k + 16 \<or> h_addr k + 24 \<le> x" by auto
  qed (use that in simp_all)
  have kat: "headers_at mem (h_addr k) [k]" using headers_at_member [OF at] by simp
  have "field mem' (h_addr k + i) = field mem (h_addr k + i)" if "i \<le> 8" for i
    by (rule field_cong, rule same [of k]) (use that in \<open>auto simp: header_bytes_def\<close>)
  from this [of 0] this [of 8] have "field mem' (h_addr k) = field mem (h_addr k)"
    "field mem' (h_addr k + 8) = field mem (h_addr k + 8)" by simp_all
  moreover have "ptrs_at mem' (h_addr k + HEADER_SIZE) (h_ptrs k)"
  proof (rule ptrs_at_cong)
    show "ptrs_at mem (h_addr k + HEADER_SIZE) (h_ptrs k)" using kat by simp
    show "mem' x = mem x" if "x \<in> ptr_bytes (h_ptrs k)" for x
      using header_first(1) [OF k] that by (intro same [of k]) (auto simp: header_bytes_def)
  qed
  ultimately show "headers_at mem' (h_addr k) (k # gs)" using kat new by simp
qed

lemma kmalloc_walk_new:
  "\<forall>h \<in> set hs. h_size_max h < bytes \<Longrightarrow> newpages (log_order (pages_needed bytes)) \<noteq> 0 \<Longrightarrow>
     header_alloc (new_header (newpages (log_order (pages_needed bytes))) (2 ^ log_order (pages_needed bytes))) bytes =
       Inr (h', a) \<Longrightarrow> kmalloc_walk newpages hs bytes = Inr (hs @ [h'], a)"
  by (induction hs) (auto simp: Let_def)

text \<open>What \<open>kmalloc\<close> writes into the pages of a new header, and the header that is there afterwards.\<close>

lemma fresh_header:
  assumes n: "n \<noteq> 0" "n + S < 2 ^ 63" "bytes + 56 \<le> S" and bytes: "0 < bytes"
    and m1: "m1 = put (put (put (put (put m0 n S) (n + 8) (sub64 (sub64 S HEADER_SIZE) POINTER_SIZE)) (n + 16) 0) (n + 24) S) (n + 32) 0"
    and h: "h = \<lparr>h_addr = n, h_size = S, h_size_max = sub64 (sub64 S HEADER_SIZE) POINTER_SIZE, h_ptrs = [\<lparr>p_addr = n + 24, p_size = S\<rparr>]\<rparr>"
  shows "pointer_with_room m1 bytes (n + HEADER_SIZE) = Some (n + 24) \<and>
    (\<exists>mem' h'. kmalloc_use m1 n (n + 24) bytes = Some (Inr (mem', n + 40)) \<and> header_alloc h bytes = Inr (h', n + 40) \<and>
       headers_at mem' n [h'] \<and> (\<forall>x. x \<notin> {n ..< n + S} \<longrightarrow> mem' x = m0 x))"
proof -
  let ?p = "\<lparr>p_addr = n + 24, p_size = S\<rparr>"
  have f: "field m1 n = S" "field m1 (n + 16) = 0" "field m1 (n + 24) = S" "field m1 (n + 32) = 0"
    using n(2) by (simp_all add: m1)
  have ptrs: "ptrs_at m1 (n + 24) ([] @ ?p # [])" using f by (simp add: add.commute)
  have chain: "chain_ok (n + 40 + S) ([] @ ?p # [])" by simp
  define m2 where "m2 = put (cut_segment m1 (p_addr ?p) bytes) (p_addr ?p) 0"
  from use_pointer_mem [OF ptrs chain _ _ m2_def] n(2,3)
  have m2: "ptrs_at m2 (n + 24) (use_pointer ?p bytes)" "\<forall>x. x \<notin> ptr_bytes (use_pointer ?p bytes) \<longrightarrow> m2 x = m1 x" by simp_all
  have "sub64 S bytes = S - bytes" using n by (intro sub64_exact) auto
  then have in_pages: "ptr_bytes (use_pointer ?p bytes) \<subseteq> {n + 24 ..< n + S}"
    using n(3) by (auto simp: use_pointer_def Let_def)
  define m where "m = findSize_max_from (use_pointer ?p bytes) 0"
  define mem' where "mem' = put m2 (n + 8) m"
  define h' where "h' = h\<lparr>h_ptrs := use_pointer ?p bytes, h_size_max := m\<rparr>"
  have max: "max_in_header m2 n = Some m" unfolding max_in_header_def m_def using max_from_list [OF m2(1)] by simp
  have "kmalloc_use m1 n (n + 24) bytes = Some (Inr (mem', n + 40))"
    using max by (simp add: kmalloc_use_def m2_def mem'_def Let_def)
  moreover have "header_alloc h bytes = Inr (h', n + 40)"
    using n(3) by (simp add: header_alloc_def h h'_def m_def findSize_max_def Let_def)
  moreover have "m2 x = m1 x" if "x < n + 24" for x using m2(2) in_pages that by auto
  then have "field m2 (n + i) = field m1 (n + i)" if "i \<le> 16" for i using that by (intro field_cong) auto
  from this [of 0] this [of 16] have "field mem' n = S" "field mem' (n + 16) = 0" using f by (simp_all add: mem'_def)
  moreover have "field mem' (n + 8) = m" using findSize_max_less [OF m2(1)] by (simp add: mem'_def m_def)
  moreover have "ptrs_at mem' (n + 24) (use_pointer ?p bytes)"
    by (rule ptrs_at_cong [OF m2(1)]) (use in_pages in \<open>auto simp: mem'_def\<close>)
  moreover have "\<forall>x. x \<notin> {n ..< n + S} \<longrightarrow> mem' x = m0 x"
  proof clarify
    fix x assume "x \<notin> {n ..< n + S}"
    then have x: "x < n \<or> n + S \<le> x" by auto
    with in_pages have "x \<notin> ptr_bytes (use_pointer ?p bytes)" by auto
    with m2(2) have "mem' x = m1 x" using x n(3) by (auto simp: mem'_def)
    with x n(3) show "mem' x = m0 x" by (auto simp: m1)
  qed
  moreover have "pointer_with_room m1 bytes (n + HEADER_SIZE) = Some (n + 24)"
    using f(3) n(3) by (subst pointer_with_room.simps) simp
  ultimately show ?thesis using n(1) by (auto simp: h'_def h)
qed

lemma block_outside_header:
  assumes ok: "heap_ok (hs @ [k])" and h: "h \<in> set (hs @ [k])" "(b, g) \<in> header_taken h"
  shows "\<forall>x. b \<le> x \<and> x < g \<longrightarrow> x \<in> header_range h \<and> (x < h_addr k + 16 \<or> h_addr k + 24 \<le> x)"
proof (intro allI impI)
  fix x assume x: "b \<le> x \<and> x < g"
  have oks: "header_ok j" if "j \<in> set (hs @ [k])" for j using heap_ok_member ok that by (metis in_set_conv_decomp)
  have k_in: "{h_addr k ..< h_addr k + 24} \<subseteq> header_range k"
    using header_bytes_range [OF oks, of k] by (auto simp: header_bytes_def)
  from header_taken_range [OF oks [OF h(1)] h(2)] x have in_h: "x \<in> header_range h" by (auto simp: header_range_def)
  have "x < h_addr k + 16 \<or> h_addr k + 24 \<le> x"
  proof (cases "h = k")
    case True
    with header_first(2) [OF oks, of k b g] h(2) x show ?thesis by force
  next
    case False
    with h(1) heap_ok_member [OF ok] have "header_range h \<inter> header_range k = {}" by auto
    with in_h k_in have "x \<notin> {h_addr k ..< h_addr k + 24}" by auto
    then show ?thesis by auto
  qed
  with in_h show "x \<in> header_range h \<and> (x < h_addr k + 16 \<or> h_addr k + 24 \<le> x)" ..
qed

lemma kmalloc_mem_grows:
  assumes at: "headers_at mem start (hs @ [k])" and ok: "heap_ok (hs @ [k])" and bytes: "0 < bytes"
    and full: "\<forall>h \<in> set (hs @ [k]). h_size_max h < bytes"
    and n: "order = log_order (pages_needed bytes)" "n = newpages order" "n \<noteq> 0"
    and S: "S = 2 ^ order * page_size" "bytes + 56 \<le> S" "n + S < 2 ^ 63"
    and apart: "\<forall>h \<in> set (hs @ [k]). header_range h \<inter> {n ..< n + S} = {}"
  shows "\<exists>mem' hs'. kmalloc_mem newpages mem start bytes = Some (Inr (mem', n + 40)) \<and>
    kmalloc newpages (hs @ [k]) bytes = Inr (hs', n + 40) \<and> headers_at mem' start hs' \<and>
    (\<forall>(b, g) \<in> heap_taken (hs @ [k]). \<forall>x. b \<le> x \<and> x < g \<longrightarrow> mem' x = mem x)"
proof -
  have oks: "header_ok h" if "h \<in> set (hs @ [k])" for h using heap_ok_member ok that by (metis in_set_conv_decomp)
  define m0 where "m0 = put mem (h_addr k + 16) n"
  define m1 where "m1 = put (put (put (put (put m0 n S) (n + 8) (sub64 (sub64 S HEADER_SIZE) POINTER_SIZE)) (n + 16) 0) (n + 24) S) (n + 32) 0"
  have add: "append_header newpages mem (h_addr k) bytes = Inr (m1, n)" if "h_addr k \<noteq> 0"
    using n S(1) that by (simp add: append_header_def m0_def m1_def Let_def add.commute)
  from fresh_header [OF n(3) _ S(2) bytes m1_def refl] S(3) obtain mem' h' where
    room: "pointer_with_room m1 bytes (n + HEADER_SIZE) = Some (n + 24)"
    and use: "kmalloc_use m1 n (n + 24) bytes = Some (Inr (mem', n + 40))" "headers_at mem' n [h']"
      "\<forall>x. x \<notin> {n ..< n + S} \<longrightarrow> mem' x = m0 x"
    and h': "header_alloc (new_header n (2 ^ order)) bytes = Inr (h', n + 40)"
    by (auto simp: new_header_def S(1) Let_def)
  have k: "h_addr k \<noteq> 0" "headers_at mem (h_addr k) [k]" "header_ok k"
    using headers_at_member [OF at] oks by auto
  have k_in: "{h_addr k ..< h_addr k + 24} \<subseteq> header_range k" using header_bytes_range [OF k(3)] by (auto simp: header_bytes_def)
  have out: "mem' x = mem x" if "x \<notin> {n ..< n + S}" "x < h_addr k + 16 \<or> h_addr k + 24 \<le> x" for x
    using that(2) use(3) [rule_format, OF that(1)] by (auto simp: m0_def)
  have "{h_addr k ..< h_addr k + 24} \<inter> {n ..< n + S} = {}" using apart k_in by fastforce
  then have "field mem' (h_addr k + 16) = field m0 (h_addr k + 16)"
    using use(3) by (intro field_cong) auto
  then have link: "field mem' (h_addr k + 16) = n" using S(3) by (simp add: m0_def)
  have "headers_at mem' start (hs @ k # [h'])"
  proof (rule headers_at_snoc [OF at _ _ oks])
    show "mem' x = mem x" if "h \<in> set (hs @ [k])" "x \<in> header_bytes h" "x < h_addr k + 16 \<or> h_addr k + 24 \<le> x" for h x
      using header_bytes_range [OF oks [OF that(1)]] bspec [OF apart that(1)] that(2,3) by (intro out) auto
    show "header_range h \<inter> header_range k = {}" if "h \<in> set hs" for h
      using heap_ok_member [OF ok] that by auto
    show "headers_at mem' (field mem' (h_addr k + 16)) [h']" unfolding link by (rule use(2))
  qed
  moreover have "header_with_room mem bytes start 0 = Some (0, h_addr k)"
    using header_with_room_none [OF at full] by simp
  then have "kmalloc_mem newpages mem start bytes = Some (Inr (mem', n + 40))"
    using bytes add k(1) room use(1) n(3) by (simp add: kmalloc_mem_def kmalloc_find_def)
  moreover have "kmalloc newpages (hs @ [k]) bytes = Inr (hs @ [k] @ [h'], n + 40)"
    using bytes kmalloc_walk_new [OF full] n h' by (simp add: kmalloc_def)
  moreover have "mem' x = mem x" if "(b, g) \<in> heap_taken (hs @ [k])" "b \<le> x" "x < g" for b g x
  proof -
    from that(1) obtain h where h: "h \<in> set (hs @ [k])" "(b, g) \<in> header_taken h" by (auto simp: heap_taken_def)
    show ?thesis using block_outside_header [OF ok h] bspec [OF apart h(1)] that(2,3) by (intro out) auto
  qed
  ultimately show ?thesis by auto
qed

lemma kmalloc_mem_refuses:
  assumes at: "headers_at mem start (hs @ [k])" and ok: "heap_ok (hs @ [k])" and bytes: "0 < bytes"
    and full: "\<forall>h \<in> set (hs @ [k]). h_size_max h < bytes" and n: "newpages (log_order (pages_needed bytes)) = 0"
  shows "\<exists>mem'. kmalloc_mem newpages mem start bytes = Some (Inr (mem', 0)) \<and>
    kmalloc newpages (hs @ [k]) bytes = Inr (hs @ [k], 0) \<and> headers_at mem' start (hs @ [k]) \<and>
    (\<forall>(b, g) \<in> heap_taken (hs @ [k]). \<forall>x. b \<le> x \<and> x < g \<longrightarrow> mem' x = mem x)"
proof -
  let ?mem' = "put mem (h_addr k + 16) 0"
  have k: "h_addr k \<noteq> 0" "field mem (h_addr k + 16) = 0" using headers_at_member [OF at] by auto
  have oks: "header_ok h" if "h \<in> set (hs @ [k])" for h using heap_ok_member ok that by (metis in_set_conv_decomp)
  have "header_with_room mem bytes start 0 = Some (0, h_addr k)" using header_with_room_none [OF at full] by simp
  then have "kmalloc_mem newpages mem start bytes = Some (Inr (?mem', 0))"
    using bytes k(1) n by (simp add: kmalloc_mem_def kmalloc_find_def append_header_def Let_def)
  moreover have "kmalloc_walk newpages gs bytes = Inr (gs, 0)" if "\<forall>h \<in> set gs. h_size_max h < bytes" for gs
    using that n by (induction gs) (auto simp: Let_def)
  from this [OF full] have "kmalloc newpages (hs @ [k]) bytes = Inr (hs @ [k], 0)" using bytes by (simp add: kmalloc_def)
  moreover have "headers_at ?mem' start (hs @ k # [])"
    by (rule headers_at_snoc [OF at _ _ oks]) (use heap_ok_member [OF ok] in auto)
  moreover have "?mem' x = mem x" if "(b, g) \<in> heap_taken (hs @ [k])" "b \<le> x" "x < g" for b g x
  proof -
    from that(1) obtain h where h: "h \<in> set (hs @ [k])" "(b, g) \<in> header_taken h" by (auto simp: heap_taken_def)
    show ?thesis using block_outside_header [OF ok h] that(2,3) by (intro put_other) auto
  qed
  ultimately show ?thesis by auto
qed

text \<open>
  C15. \<open>kmalloc\<close> on the bytes of memory, with its loops over the \<open>next\<close> fields, does what \<open>kmalloc\<close> on the lists of
  headers and pointers does, on every branch: it returns the same address or fails in the same way, leaves the
  list that the other computes in memory, and changes no byte of a block in use. Its loops end. For a header it
  adds, the pages must be apart from the heap and have room for the block, three structures and 40 bytes.
\<close>

theorem kmalloc_mem_refines:
  assumes "headers_at mem start hs" and "heap_ok hs" and "0 < bytes"
    and "order = log_order (pages_needed bytes)" and "n = newpages order" and "S = 2 ^ order * page_size"
    and "(\<forall>h \<in> set hs. h_size_max h < bytes) \<and> n \<noteq> 0 \<longrightarrow>
      bytes + 56 \<le> S \<and> n + S < 2 ^ 63 \<and> (\<forall>h \<in> set hs. header_range h \<inter> {n ..< n + S} = {})"
  shows "case kmalloc newpages hs bytes of Inl e \<Rightarrow> kmalloc_mem newpages mem start bytes = Some (Inl e)
    | Inr (hs', a) \<Rightarrow> \<exists>mem'. kmalloc_mem newpages mem start bytes = Some (Inr (mem', a)) \<and> headers_at mem' start hs' \<and>
        (\<forall>(b, g) \<in> heap_taken hs. \<forall>x. b \<le> x \<and> x < g \<longrightarrow> mem' x = mem x)"
proof (cases "\<exists>h \<in> set hs. bytes \<le> h_size_max h")
  case True
  from kmalloc_mem_ok [OF assms(1-3) True, of newpages] show ?thesis by auto
next
  case False
  then have full: "\<forall>h \<in> set hs. h_size_max h < bytes" by (simp add: not_le)
  show ?thesis
  proof (cases hs rule: rev_cases)
    case Nil
    with assms(1,3) show ?thesis
      by (simp add: kmalloc_def kmalloc_mem_def kmalloc_find_def header_with_room.simps append_header_def)
  next
    case (snoc gs k)
    show ?thesis
    proof (cases "n = 0")
      case True
      with assms(4,5) have "newpages (log_order (pages_needed bytes)) = 0" by simp
      from kmalloc_mem_refuses [where newpages = newpages, OF assms(1,2) [unfolded snoc] assms(3) full [unfolded snoc] this]
      show ?thesis unfolding snoc by auto
    next
      case False
      with assms(7) full have "bytes + 56 \<le> S" "n + S < 2 ^ 63"
        "\<forall>h \<in> set (gs @ [k]). header_range h \<inter> {n ..< n + S} = {}" by (simp_all add: snoc)
      from kmalloc_mem_grows [where newpages = newpages, OF assms(1,2) [unfolded snoc] assms(3) full [unfolded snoc] assms(4,5) False assms(6) this]
      show ?thesis unfolding snoc by auto
    qed
  qed
qed

text \<open>The first header, as the assignments of \<open>mm_init\<close> lay it out.\<close>

definition first_header_mem :: "memory \<Rightarrow> nat \<Rightarrow> memory" where
  "first_header_mem mem start =
     (let pointer_start = start + HEADER_SIZE;
          mem = put mem start page_size;
          mem = put mem (start + 8) (sub64 (sub64 (field mem start) HEADER_SIZE) POINTER_SIZE);
          mem = put mem (start + 16) 0;
          mem = put mem pointer_start (field mem (start + 8))
      in put mem (pointer_start + 8) 0)"

lemma first_header_at:
  assumes "start \<noteq> 0"
  shows "headers_at (first_header_mem mem start) start [first_header start]"
proof -
  have "sub64 (sub64 4096 24) 16 = 4056" by (simp add: sub64_def)
  then show ?thesis using assms by (simp add: first_header_mem_def first_header_def Let_def add.commute)
qed

theorem kmalloc_mem_refines_witness:
  "\<exists>mem mem' hs a. headers_at mem 0x200000 [first_header 0x200000] \<and>
     kmalloc_mem (\<lambda>_. 0) mem 0x200000 100 = Some (Inr (mem', a)) \<and>
     kmalloc (\<lambda>_. 0) [first_header 0x200000] 100 = Inr (hs, a) \<and> headers_at mem' 0x200000 hs"
proof -
  let ?mem = "first_header_mem (\<lambda>_. 0) 0x200000"
  have at: "headers_at ?mem 0x200000 [first_header 0x200000]" by (rule first_header_at) simp
  obtain hs a where k: "kmalloc (\<lambda>_. 0) [first_header 0x200000] 100 = Inr (hs, a)"
    by (simp add: kmalloc_def header_alloc_def first_header_def Let_def)
  with kmalloc_mem_refines [OF at first_heap_ok, of 100 _ "(\<lambda>_. 0) _" "\<lambda>_. 0", OF _ refl refl refl] at
  show ?thesis by auto
qed

end
