(* ===== verification/Heap_Interrupts.thy ===== *)
theory Heap_Interrupts
  imports Heap_Memory
begin

text \<open>
  \<open>kmalloc\<close> of kernel/mm.c takes no lock and does not disable interrupts, and the handler of the clock calls it
  (\<open>ms_update\<close> of cmos.c prints a line, \<open>printk\<close> asks for the string and the entry). Here an interrupt comes in
  between the two halves of a call: when it has found its pointer and not yet taken it.
\<close>

text \<open>
  The address that the interrupting call gets, and what becomes of the interrupted one, which goes on with
  the \<open>h\<close> and \<open>p\<close> in its local variables.
\<close>

definition kmalloc_interrupted ::
  "(nat \<Rightarrow> nat) \<Rightarrow> memory \<Rightarrow> nat \<Rightarrow> nat \<Rightarrow> nat \<Rightarrow> (nat \<times> (memory \<times> nat) res option) res option" where
  "kmalloc_interrupted newpages mem header_start bytes irq_bytes =
     (case kmalloc_find newpages mem header_start bytes of None \<Rightarrow> None
      | Some (Inl e) \<Rightarrow> Some (Inl e)
      | Some (Inr (mem, h, p)) \<Rightarrow>
          (case kmalloc_mem newpages mem header_start irq_bytes of None \<Rightarrow> None
           | Some (Inl e) \<Rightarrow> Some (Inl e)
           | Some (Inr (mem, a)) \<Rightarrow>
               Some (Inr (a, if h = 0 then Some (Inr (mem, 0)) else kmalloc_use mem h p bytes))))"

text \<open>The loop of \<open>findSize_max\<close> does not end on a pointer that is its own \<open>next\<close>.\<close>

lemma max_from_cycle:
  assumes "q \<noteq> 0" and "field mem (q + 8) = q"
  shows "max_from mem q m = None"
proof (rule ccontr)
  assume "max_from mem q m \<noteq> None"
  then obtain y where y: "max_from mem q m = Some y" by blast
  have "q = q \<longrightarrow> mem = mem \<longrightarrow> False"
    by (rule max_from.raw_induct [of "\<lambda>mem' a m r. a = q \<longrightarrow> mem' = mem \<longrightarrow> False", OF _ y])
      (use assms in \<open>auto split: if_splits\<close>)
  then show False by simp
qed

text \<open>Up to a pointer of the chain the loop only depends on the part of the memory before it.\<close>

lemma max_from_prefix:
  "ptrs_at mem a (xs @ p # ys) \<Longrightarrow> (\<And>x. x \<in> ptr_bytes xs \<Longrightarrow> mem' x = mem x) \<Longrightarrow>
     max_from mem' a m = max_from mem' (p_addr p) (findSize_max_from xs m)"
proof (induction xs arbitrary: a m)
  case (Cons x xs)
  have "field mem' a = field mem a" "field mem' (a + 8) = field mem (a + 8)"
    by (rule field_cong, rule Cons.prems(2), use Cons.prems(1) in simp)+
  moreover have "max_from mem' (field mem (a + 8)) m' = max_from mem' (p_addr p) (findSize_max_from xs m')" for m'
    using Cons.prems by (intro Cons.IH) auto
  ultimately show ?case using Cons.prems(1) by (subst max_from.simps) auto
qed simp

text \<open>
  What the second half does after the interrupt has used the pointer \<open>p\<close> for \<open>n\<close> bytes: \<open>p\<close> is marked, its \<open>next\<close> is
  the pointer behind the block of the interrupt.
\<close>

lemma late_use:
  assumes at: "ptrs_at mem (h + HEADER_SIZE) (xs @ p # q # ys)" and ok: "chain_ok e (xs @ p # q # ys)" and e: "e < 2 ^ 64"
    and p: "p_size p = 0" and q: "p_addr q = p_addr p + POINTER_SIZE + n" and bytes: "0 < bytes" "bytes \<le> n"
    and low: "h + HEADER_SIZE \<le> p_addr p"
  shows "(n = bytes \<longrightarrow> kmalloc_use mem h (p_addr p) bytes = None) \<and>
    (bytes + POINTER_SIZE \<le> n \<longrightarrow> (\<exists>mem'. kmalloc_use mem h (p_addr p) bytes = Some (Inr (mem', p_addr p + POINTER_SIZE)) \<and>
       2 ^ 64 - bytes - POINTER_SIZE \<le> field mem' (h + 8)))"
proof -
  from ok have chain: "chain_ok (p_addr p) xs" "chain_ok e (p # q # ys)" unfolding chain_ok_append by auto
  have pe: "p_addr q + POINTER_SIZE + p_size q \<le> e" using chain_ok_end chain(2) by fastforce
  have fields: "p_addr p \<noteq> 0" "field mem (p_addr p) = 0" "field mem (p_addr p + 8) = p_addr q"
    "ptrs_at mem (p_addr q) (q # ys)"
    using ptrs_at_member [OF at] p by auto
  have left: "x < p_addr p" if "x \<in> ptr_bytes xs" for x
  proof (cases xs)
    case (Cons y zs)
    with chain_bytes [of "p_addr p" y zs] chain(1) that show ?thesis by auto
  qed (use that in simp)
  have right: "p_addr q \<le> x" if "x \<in> ptr_bytes (q # ys)" for x
    using chain_bytes [of e q ys] chain(2) that by auto
  define newp where "newp = p_addr p + POINTER_SIZE + bytes"
  define big where "big = 2 ^ 64 - bytes - POINTER_SIZE"
  define m where "m = put (put (put (put mem (newp + 8) (p_addr q)) newp big) (p_addr p + 8) newp) (p_addr p) 0"
  have small: "bytes + 16 < 2 ^ 64" "newp < 2 ^ 64" "p_addr q < 2 ^ 64" "p_addr p + 16 \<le> newp" "big < 2 ^ 64"
    using bytes pe q e by (simp_all add: newp_def big_def)
  have "sub64 0 bytes = 2 ^ 64 - bytes" using bytes small(1) by (simp add: sub64_wraps)
  moreover have "sub64 (2 ^ 64 - bytes) POINTER_SIZE = big"
    using bytes small(1) unfolding big_def by (intro sub64_exact) auto
  moreover have "add64 (p_addr p + POINTER_SIZE) bytes = newp"
    using small(2) unfolding newp_def by (intro add64_exact) simp
  moreover have "POINTER_SIZE < 2 ^ 64 - bytes" using small(1) by simp
  ultimately have cut: "put (cut_segment mem (p_addr p) bytes) (p_addr p) 0 = m"
    using small fields(2,3) by (simp add: cut_segment_def m_def Let_def)
  have same: "m x = mem x" if "x < p_addr p" for x using that small(4) by (simp add: m_def)
  have f: "field m (p_addr p) = 0" "field m (p_addr p + 8) = newp" "field m newp = big" "field m (newp + 8) = p_addr q"
    using small by (simp_all add: m_def)
  have use: "kmalloc_use mem h (p_addr p) bytes =
      (case max_in_header m h of None \<Rightarrow> None | Some k \<Rightarrow> Some (Inr (put m (h + 8) k, p_addr p + POINTER_SIZE)))"
    using fields(1) cut by (simp add: kmalloc_use_def split: option.split)
  have start: "max_in_header m h = max_from m (p_addr p) (findSize_max_from xs 0)"
    unfolding max_in_header_def using same left by (intro max_from_prefix [OF at]) auto
  have "max_in_header m h = max_from m newp (findSize_max_from xs 0)"
    unfolding start using fields(1) f(1,2) by (subst max_from.simps) simp
  moreover have "max_from m newp k = None" if "n = bytes" for k
    using f(4) q that small(4) by (intro max_from_cycle) (simp_all add: newp_def)
  ultimately have hang: "n = bytes \<longrightarrow> kmalloc_use mem h (p_addr p) bytes = None" using use by simp
  have "\<exists>mem'. kmalloc_use mem h (p_addr p) bytes = Some (Inr (mem', p_addr p + POINTER_SIZE)) \<and>
       2 ^ 64 - bytes - POINTER_SIZE \<le> field mem' (h + 8)" if n: "bytes + POINTER_SIZE \<le> n"
  proof -
    let ?ps = "xs @ p # \<lparr>p_addr = newp, p_size = big\<rparr> # q # ys"
    have tail: "ptrs_at m (p_addr q) (q # ys)"
    proof (rule ptrs_at_cong [OF fields(4)])
      show "m x = mem x" if "x \<in> ptr_bytes (q # ys)" for x
        using right [OF that] n q by (simp add: m_def newp_def)
    qed
    have "ptrs_at m (h + HEADER_SIZE) ?ps"
      by (rule ptrs_at_replace [OF at]) (use same left tail f fields(1) p small(4) in auto)
    note chain' = this
    define k where "k = findSize_max_from ?ps 0"
    have k: "max_in_header m h = Some k" unfolding max_in_header_def k_def by (rule max_from_list [OF chain'])
    have "big \<le> k" unfolding k_def using findSize_max_le [of big ?ps 0] by auto
    moreover have "k < 2 ^ 64" unfolding k_def by (rule findSize_max_less [OF chain']) simp
    ultimately show ?thesis using k use by (simp add: big_def)
  qed
  with hang show ?thesis by blast
qed

text \<open>
  C16. The heap is not protected against interrupts. A call that has found its pointer \<open>p\<close> is interrupted by one for
  at least as many bytes that the segment has room for: both get the same block. When the sizes are equal, as
  with the string that every \<open>printk\<close> starts with, the interrupted call then runs round a pointer that is its own
  \<open>next\<close> and never returns; when the interrupt asked for at least 16 bytes more it returns, and the header
  announces nearly the whole address space as free.
\<close>

theorem interrupted_kmalloc_shares_block:
  assumes "headers_at mem start hs" and "heap_ok hs" and "0 < bytes" and "\<exists>h \<in> set hs. bytes \<le> h_size_max h"
    and "kmalloc_find newpages mem start bytes = Some (Inr (mem, h, p))"
    and "bytes \<le> n" and "n + POINTER_SIZE < field mem p"
  shows "\<exists>r. kmalloc_interrupted newpages mem start bytes n = Some (Inr (p + POINTER_SIZE, r)) \<and>
    (n = bytes \<longrightarrow> r = None) \<and>
    (bytes + POINTER_SIZE \<le> n \<longrightarrow> (\<exists>mem'. r = Some (Inr (mem', p + POINTER_SIZE)) \<and>
       2 ^ 64 - bytes - POINTER_SIZE \<le> field mem' (h + 8)))"
proof -
  obtain ks k gs xs q ys where
    hs: "hs = ks @ k # gs" and k: "\<forall>j \<in> set ks. h_size_max j < bytes" and "bytes \<le> h_size_max k"
    and q: "h_ptrs k = xs @ q # ys" "\<forall>x \<in> set xs. p_size x < bytes" and "bytes \<le> p_size q"
    and "kmalloc_find newpages mem start bytes = Some (Inr (mem, h_addr k, p_addr q))"
    by (rule kmalloc_find_ok [OF assms(1-4)])
  with assms(5) have hp: "h = h_addr k" "p = p_addr q" by simp_all
  have kok: "header_ok k" using heap_ok_member assms(2) hs by blast
  have kat: "headers_at mem (h_addr k) (k # gs)" using headers_at_member assms(1) hs by blast
  then have ptrs: "ptrs_at mem (h_addr k + HEADER_SIZE) (xs @ q # ys)" and k0: "h_addr k \<noteq> 0" using q(1) by simp_all
  have room: "n + POINTER_SIZE < p_size q" using ptrs_at_member [OF ptrs] assms(7) hp(2) by auto
  have less: "\<forall>x \<in> set xs. p_size x < n" "\<forall>j \<in> set ks. h_size_max j < n" using q(2) k assms(6) by auto
  have "n \<le> findSize_max_from (h_ptrs k) 0"
    unfolding findSize_max_le using q(1) room by (intro disjI2 bexI [of _ q]) auto
  then have max: "n \<le> h_size_max k" using kok by (simp add: header_ok_def findSize_max_def)
  have n: "0 < n" "n \<le> p_size q" "\<exists>j \<in> set hs. n \<le> h_size_max j" using assms(3,6) room max hs by auto
  define k1 where "k1 = (let h = k\<lparr>h_ptrs := xs @ use_pointer q n @ ys\<rparr> in h\<lparr>h_size_max := findSize_max h\<rparr>)"
  have "header_alloc k n = Inr (k1, p_addr q + POINTER_SIZE)"
    unfolding header_alloc_def q(1) take_pointer_first [OF less(1) n(2)] by (simp add: k1_def Let_def)
  then have list: "kmalloc newpages hs n = Inr (ks @ k1 # gs, p_addr q + POINTER_SIZE)"
    using n(1) kmalloc_walk_first [OF less(2) max] by (simp add: kmalloc_def hs)
  with kmalloc_mem_ok [OF assms(1,2) n(1,3), of newpages] obtain mem1 where
    irq: "kmalloc_mem newpages mem start n = Some (Inr (mem1, p_addr q + POINTER_SIZE))"
    "headers_at mem1 start (ks @ k1 # gs)" "heap_ok (ks @ k1 # gs)" by auto
  have k1: "h_addr k1 = h_addr k" "h_size k1 = h_size k" "h_ptrs k1 = xs @ use_pointer q n @ ys"
    by (simp_all add: k1_def Let_def)
  have k1ok: "header_ok k1" using heap_ok_member [OF irq(3)] by blast
  note qin = header_first(3) [OF kok q(1)]
  have e: "h_addr k + h_size k < 2 ^ 64" using kok by (simp add: header_ok_def)
  have "sub64 (p_size q) n = p_size q - n" using n(2) qin e by (intro sub64_exact) auto
  then have split: "use_pointer q n = [q\<lparr>p_size := 0\<rparr>,
      \<lparr>p_addr = p_addr q + POINTER_SIZE + n, p_size = sub64 (p_size q - n) POINTER_SIZE\<rparr>]"
    using room by (simp add: use_pointer_def Let_def)
  have "ptrs_at mem1 (h_addr k + HEADER_SIZE) (xs @ use_pointer q n @ ys)"
    using headers_at_member [OF irq(2)] k1 by auto
  moreover have "chain_ok (h_addr k + h_size k) (xs @ use_pointer q n @ ys)" using k1ok k1 by (simp add: header_ok_def)
  ultimately have "(n = bytes \<longrightarrow> kmalloc_use mem1 (h_addr k) (p_addr (q\<lparr>p_size := 0\<rparr>)) bytes = None) \<and>
    (bytes + POINTER_SIZE \<le> n \<longrightarrow> (\<exists>mem'. kmalloc_use mem1 (h_addr k) (p_addr (q\<lparr>p_size := 0\<rparr>)) bytes =
        Some (Inr (mem', p_addr (q\<lparr>p_size := 0\<rparr>) + POINTER_SIZE)) \<and>
       2 ^ 64 - bytes - POINTER_SIZE \<le> field mem' (h_addr k + 8)))"
    unfolding split using e assms(3,6) qin
    by (intro late_use [where e = "h_addr k + h_size k" and xs = xs and ys = ys and n = n]) auto
  then show ?thesis
    using assms(5) irq(1) k0 by (auto simp: kmalloc_interrupted_def hp)
qed

theorem interrupted_kmalloc_witness:
  "\<exists>mem mem'. headers_at mem 0x200000 [first_header 0x200000] \<and>
     kmalloc_interrupted (\<lambda>_. 0) mem 0x200000 24 24 = Some (Inr (0x200028, None)) \<and>
     kmalloc_interrupted (\<lambda>_. 0) mem 0x200000 24 64 = Some (Inr (0x200028, Some (Inr (mem', 0x200028))))"
proof -
  let ?mem = "first_header_mem (\<lambda>_. 0) 0x200000" and ?h = "first_header 0x200000"
  have at: "headers_at ?mem 0x200000 [?h]" by (rule first_header_at) simp
  then have p: "field ?mem 0x200018 = 4056" by (simp add: first_header_def)
  obtain p where find: "kmalloc_find (\<lambda>_. 0) ?mem 0x200000 24 = Some (Inr (?mem, 0x200000, p))" "p = 0x200018"
    using kmalloc_find_ok [OF at first_heap_ok, of 24 "\<lambda>_. 0"]
    by (auto simp: first_header_def append_eq_Cons_conv Cons_eq_append_conv)
  have room: "\<exists>h \<in> set [?h]. 24 \<le> h_size_max h" by (simp add: first_header_def)
  from interrupted_kmalloc_shares_block [OF at first_heap_ok _ room find(1), of 24]
    interrupted_kmalloc_shares_block [OF at first_heap_ok _ room find(1), of 64] at p find(2)
  show ?thesis by auto
qed

end
