(* ===== verification/Locked_Object.thy ===== *)
theory Locked_Object
  imports Spinlock
begin

text \<open>
  An object whose operations take a lock that lies in the object itself, used by any number of processors. Between
  \<open>spinlock_lock\<close> and \<open>spinlock_unlock\<close> an operation goes on in small steps, and the steps of the processors
  interleave in every way. The locale below gives the contract under which the object nevertheless behaves as if
  every operation ran alone, in the order in which they return.
\<close>

section \<open>Processors at an object\<close>

text \<open>
  A processor is away, spins in \<open>spinlock_lock\<close>, or is inside an operation, with the values of its local variables.
  \<open>micro\<close> is one step inside: on to the next one, or the last one, which returns a result (and unlocks, where the
  code unlocks), or none, where the processor is stuck.
\<close>

datatype ('op, 'l) place = Away | Waiting 'op | Inside 'op 'l

record ('s, 'op, 'l, 'r) shared =
  obj :: 's
  place_of :: "nat \<Rightarrow> ('op, 'l) place"
  returned :: "('op \<times> 'r) list"

type_synonym ('s, 'op, 'l, 'r) micro_step = "'op \<Rightarrow> 'l \<Rightarrow> 's \<Rightarrow> ('l \<times> 's + 's \<times> 'r) option"

definition all_away :: "'s \<Rightarrow> ('s, 'op, 'l, 'r) shared" where
  "all_away s = \<lparr>obj = s, place_of = (\<lambda>_. Away), returned = []\<rparr>"

definition move :: "nat \<Rightarrow> ('op, 'l) place \<Rightarrow> ('s, 'op, 'l, 'r) shared \<Rightarrow> ('s, 'op, 'l, 'r) shared" where
  "move i p s = s\<lparr>place_of := (place_of s)(i := p)\<rparr>"

inductive processor_step ::
  "('s \<Rightarrow> int) \<Rightarrow> ('s \<Rightarrow> int \<Rightarrow> 's) \<Rightarrow> ('op \<Rightarrow> bool) \<Rightarrow> ('op \<Rightarrow> 'l) \<Rightarrow> ('s, 'op, 'l, 'r) micro_step \<Rightarrow>
     ('s, 'op, 'l, 'r) shared \<Rightarrow> ('s, 'op, 'l, 'r) shared \<Rightarrow> bool"
  for lock_word set_word admitted enter micro where
  call: "place_of s i = Away \<Longrightarrow> admitted op \<Longrightarrow>
    processor_step lock_word set_word admitted enter micro s (move i (Waiting op) s)"
| acquire: "place_of s i = Waiting op \<Longrightarrow> atomic_compare_exchange (lock_word (obj s)) 0 1 = (w, True) \<Longrightarrow>
    processor_step lock_word set_word admitted enter micro s
      (move i (Inside op (enter op)) (s\<lparr>obj := set_word (obj s) w\<rparr>))"
| spin: "place_of s i = Waiting op \<Longrightarrow> atomic_compare_exchange (lock_word (obj s)) 0 1 = (w, False) \<Longrightarrow>
    processor_step lock_word set_word admitted enter micro s (s\<lparr>obj := set_word (obj s) w\<rparr>)"
| work: "place_of s i = Inside op l \<Longrightarrow> micro op l (obj s) = Some (Inl (l', t)) \<Longrightarrow>
    processor_step lock_word set_word admitted enter micro s (move i (Inside op l') (s\<lparr>obj := t\<rparr>))"
| leave: "place_of s i = Inside op l \<Longrightarrow> micro op l (obj s) = Some (Inr (t, r)) \<Longrightarrow>
    processor_step lock_word set_word admitted enter micro s
      (move i Away (s\<lparr>obj := t, returned := returned s @ [(op, r)]\<rparr>))"

lemma move_simps [simp]:
  "obj (move i p s) = obj s"
  "returned (move i p s) = returned s"
  "place_of (move i p s) j = (if j = i then p else place_of s j)"
  by (simp_all add: move_def)

lemma compare_exchange_True [simp]: "atomic_compare_exchange v 0 1 = (w, True) \<longleftrightarrow> v = 0 \<and> w = 1"
  and compare_exchange_False [simp]: "atomic_compare_exchange v 0 1 = (w, False) \<longleftrightarrow> v \<noteq> 0 \<and> w = v"
  by (auto simp: atomic_compare_exchange_def)

text \<open>The operations that have returned, run one after the other on their own.\<close>

fun run_alone :: "('op \<Rightarrow> 's \<Rightarrow> ('s \<times> 'r) res) \<Rightarrow> 's \<Rightarrow> ('op \<times> 'r) list \<Rightarrow> 's \<Rightarrow> bool" where
  "run_alone whole s [] t = (s = t)"
| "run_alone whole s ((op, r) # h) t = (\<exists>s'. whole op s = Inr (s', r) \<and> run_alone whole s' h t)"

lemma run_alone_append:
  "run_alone whole s (h @ h') u \<longleftrightarrow> (\<exists>t. run_alone whole s h t \<and> run_alone whole t h' u)"
proof (induction h arbitrary: s)
  case (Cons x h)
  then show ?case by (cases x) (simp, blast)
qed simp

section \<open>The contract\<close>

text \<open>
  \<open>whole\<close> is the operation as one call, \<open>rest\<close> what is left of it at a place inside: no step changes it, the last
  step computes it, and at the entry it is the whole operation. Only the last step touches the lock word.
\<close>

locale locked_object =
  fixes lock_word :: "'s \<Rightarrow> int"
    and set_word :: "'s \<Rightarrow> int \<Rightarrow> 's"
    and admitted :: "'op \<Rightarrow> bool"
    and enter :: "'op \<Rightarrow> 'l"
    and micro :: "'op \<Rightarrow> 'l \<Rightarrow> 's \<Rightarrow> ('l \<times> 's + 's \<times> 'r) option"
    and whole :: "'op \<Rightarrow> 's \<Rightarrow> ('s \<times> 'r) res"
    and rest :: "'op \<Rightarrow> 'l \<Rightarrow> 's \<Rightarrow> ('s \<times> 'r) res"
  assumes word_set: "lock_word (set_word s w) = w"
    and set_same: "set_word s (lock_word s) = s"
    and work_keeps: "micro op l s = Some (Inl (l', t)) \<Longrightarrow> lock_word t = lock_word s"
    and rest_work: "micro op l s = Some (Inl (l', t)) \<Longrightarrow> rest op l' t = rest op l s"
    and rest_leave: "micro op l s = Some (Inr (t, r)) \<Longrightarrow> rest op l s = Inr (t, r)"
    and rest_enter: "lock_word s = 0 \<Longrightarrow> admitted op \<Longrightarrow> rest op (enter op) (set_word s 1) = whole op s"
begin

abbreviation step :: "('s, 'op, 'l, 'r) shared \<Rightarrow> ('s, 'op, 'l, 'r) shared \<Rightarrow> bool" where
  "step \<equiv> processor_step lock_word set_word admitted enter micro"

text \<open>
  Behind every state lies one, \<open>u\<close>, that the operations returned so far reach on their own. It is the object itself
  when nobody is inside; otherwise exactly one processor is, and what is left of its operation is that
  operation on \<open>u\<close>.
\<close>

definition explained :: "'s \<Rightarrow> ('s, 'op, 'l, 'r) shared \<Rightarrow> bool" where
  "explained s0 s \<longleftrightarrow> (\<forall>i op. place_of s i = Waiting op \<longrightarrow> admitted op) \<and>
     (\<exists>u. run_alone whole s0 (returned s) u \<and>
       ((\<forall>i op l. place_of s i \<noteq> Inside op l) \<and> obj s = u \<or>
        (\<exists>i op l. place_of s i = Inside op l \<and> (\<forall>j op' l'. place_of s j = Inside op' l' \<longrightarrow> j = i) \<and>
           lock_word (obj s) = 1 \<and> whole op u = rest op l (obj s))))"

lemma explained_away:
  "\<forall>i op. place_of s i = Waiting op \<longrightarrow> admitted op \<Longrightarrow> run_alone whole s0 (returned s) (obj s) \<Longrightarrow>
     \<forall>i op l. place_of s i \<noteq> Inside op l \<Longrightarrow> explained s0 s"
  unfolding explained_def by blast

lemma explained_inside:
  "\<forall>i op. place_of s i = Waiting op \<longrightarrow> admitted op \<Longrightarrow> run_alone whole s0 (returned s) u \<Longrightarrow>
     place_of s i = Inside op l \<Longrightarrow> \<forall>j op' l'. place_of s j = Inside op' l' \<longrightarrow> j = i \<Longrightarrow>
     lock_word (obj s) = 1 \<Longrightarrow> whole op u = rest op l (obj s) \<Longrightarrow> explained s0 s"
  unfolding explained_def by blast

lemma explained_cases:
  assumes "explained s0 s"
  obtains (away) "run_alone whole s0 (returned s) (obj s)" and "\<forall>i op l. place_of s i \<noteq> Inside op l"
  | (inside) u i op l where "run_alone whole s0 (returned s) u" and "place_of s i = Inside op l"
      and "\<forall>j op' l'. place_of s j = Inside op' l' \<longrightarrow> j = i" and "lock_word (obj s) = 1"
      and "whole op u = rest op l (obj s)"
  using assms unfolding explained_def by blast

lemma explained_waiting: "explained s0 s \<Longrightarrow> \<forall>i op. place_of s i = Waiting op \<longrightarrow> admitted op"
  unfolding explained_def by blast

lemma step_waiting:
  assumes "step s t" and "\<forall>i op. place_of s i = Waiting op \<longrightarrow> admitted op"
  shows "\<forall>i op. place_of t i = Waiting op \<longrightarrow> admitted op"
  using assms(1) by (cases rule: processor_step.cases) (use assms(2) in simp_all)

lemma step_explained:
  assumes "step s t" and ex: "explained s0 s"
  shows "explained s0 t"
  using assms(1)
proof (cases rule: processor_step.cases)
  note w = step_waiting [OF assms(1) explained_waiting [OF ex]]
  {
    case (call i op)
    from ex show ?thesis
    proof (cases rule: explained_cases)
      case away
      with call show ?thesis by (intro explained_away w) simp_all
    next
      case (inside u k op' l)
      with call show ?thesis by (intro explained_inside [OF w, of s0 u k op' l]) auto
    qed
  next
    case (acquire i op v)
    from ex show ?thesis
    proof (cases rule: explained_cases)
      case away
      have "rest op (enter op) (set_word (obj s) 1) = whole op (obj s)"
        using acquire explained_waiting [OF ex] by (intro rest_enter) simp_all
      with acquire away show ?thesis
        by (intro explained_inside [OF w, of s0 "obj s" i op "enter op"]) (simp_all add: word_set)
    next
      case inside
      with acquire show ?thesis by simp
    qed
  next
    case (spin i op v)
    then have "t = s" by (simp add: set_same)
    with ex show ?thesis by simp
  next
    case (work i op l l' v)
    from ex show ?thesis
    proof (cases rule: explained_cases)
      case away
      with work show ?thesis by simp
    next
      case (inside u k op' l2)
      then have k: "k = i" using work(2) by blast
      with inside work(2) have "op' = op" "l2 = l" by simp_all
      show ?thesis
      proof (rule explained_inside [OF w])
        show "run_alone whole s0 (returned t) u" using inside(1) work(1) by simp
        show "place_of t i = Inside op l'" using work(1) by simp
        show "\<forall>j op3 l3. place_of t j = Inside op3 l3 \<longrightarrow> j = i" using inside(3) k unfolding work(1) by simp
        show "lock_word (obj t) = 1" using inside(4) work_keeps [OF work(3)] work(1) by simp
        show "whole op u = rest op l' (obj t)"
          using inside(5) rest_work [OF work(3)] work(1) \<open>op' = op\<close> \<open>l2 = l\<close> by simp
      qed
    qed
  next
    case (leave i op l v r)
    from ex show ?thesis
    proof (cases rule: explained_cases)
      case away
      with leave show ?thesis by simp
    next
      case (inside u k op' l2)
      then have k: "k = i" using leave(2) by blast
      with inside leave(2) rest_leave [OF leave(3)] have "whole op u = Inr (v, r)" by simp
      moreover have "place_of t j \<noteq> Inside op2 l3" for j op2 l3
        using inside(3) k leave(1) by (cases "j = i") auto
      ultimately show ?thesis using inside(1) leave(1)
        by (intro explained_away w) (simp_all add: run_alone_append, blast)
    qed
  }
qed

text \<open>Whatever the interleaving, the operations that returned did what they do alone, in the order of their returns.\<close>

lemma as_if_alone:
  assumes "step\<^sup>*\<^sup>* (all_away s0) s"
  shows "\<exists>u. run_alone whole s0 (returned s) u \<and> ((\<forall>i op l. place_of s i \<noteq> Inside op l) \<longrightarrow> obj s = u)"
proof -
  have "explained s0 (all_away s0)" by (rule explained_away) (simp_all add: all_away_def)
  with assms have "explained s0 s" by (induction rule: rtranclp_induct) (auto intro: step_explained)
  then show ?thesis
  proof (cases rule: explained_cases)
    case away
    then show ?thesis by blast
  next
    case inside
    then show ?thesis by blast
  qed
qed

end

end
