(* ===== verification/Region_Locking.thy ===== *)
theory Region_Locking
  imports Locked_Object Region_Contract
begin

text \<open>
  Several processors at one region: \<open>pages_alloc\<close>, \<open>pages_reserve\<close> and \<open>pages_free\<close> of kernel/page.c taken apart into
  the statements between \<open>spinlock_lock\<close> and the \<open>return\<close>, and the region as a locked object, whose lock word is
  the field \<open>lock\<close> of the region.
\<close>

section \<open>The statements\<close>

datatype region_call = Alloc nat | Reserve nat nat | Free nat nat

text \<open>
  Where a processor is between \<open>spinlock_lock\<close> and the \<open>return\<close>; \<open>phys_addr\<close> and the address to be returned are the
  arguments. A call that the models of the theory Buddy_Model end with an error is stuck (\<open>None\<close>).
\<close>

datatype region_place =
  Check | Split | Check_Split | Set_Bit | Address | Advance nat | Full nat | Count nat | Give_Up | Take | Give | Merge | Unlock nat

definition reserve_addr :: "mregion \<Rightarrow> nat \<Rightarrow> nat \<Rightarrow> nat" where
  "reserve_addr r order offset = add64 (BLOCK_ORDER_SIZE order * offset) (r_start r)"

definition free_offset :: "mregion \<Rightarrow> nat \<Rightarrow> nat" where
  "free_offset r phaddr = (phaddr - r_start r) div page_size"

text \<open>The statements that the operations share.\<close>

definition filled :: "nat \<Rightarrow> mregion \<Rightarrow> mregion" where
  "filled order r = (if r_pages_free r \<le> 2 ^ order then out_of_mem r else r)"

definition counted :: "nat \<Rightarrow> mregion \<Rightarrow> mregion" where
  "counted order r = r\<lparr>r_pages_free := sub64 (r_pages_free r) (2 ^ order)\<rparr>"

definition unlocked :: "mregion \<Rightarrow> mregion" where
  "unlocked r = r\<lparr>r_lock := spinlock_unlock (r_lock r)\<rparr>"

definition reserve_search :: "nat \<Rightarrow> nat \<Rightarrow> mregion \<Rightarrow> mregion" where
  "reserve_search order offset =
     upd_si (\<lambda>m. case reserve_find m order (order + 1) (offset div 2 * 2) of (i, p_offset) \<Rightarrow> reserve_split m order i p_offset)"

definition go_on :: "region_place \<Rightarrow> mregion \<Rightarrow> (region_place \<times> mregion + mregion \<times> nat) option" where
  "go_on l r = Some (Inl (l, r))"

definition unlock_return :: "mregion \<Rightarrow> nat \<Rightarrow> (region_place \<times> mregion + mregion \<times> nat) option" where
  "unlock_return r a = Some (Inr (unlocked r, a))"

fun alloc_step :: "nat \<Rightarrow> region_place \<Rightarrow> mregion \<Rightarrow> (region_place \<times> mregion + mregion \<times> nat) option" where
  "alloc_step order Check r =
     (if \<not> r_si_mapped r then None
      else if m_pages_free (r_page_alloc_si r) order > 0 then go_on Set_Bit r
      else if order = MAX_ORDER - 1 then go_on Give_Up r
      else go_on Split r)"
| "alloc_step order Split r = go_on Check_Split (block_split r (order + 1))"
| "alloc_step order Check_Split r =
     (if m_pages_free (r_page_alloc_si r) order = 0 then go_on Give_Up r else go_on Check r)"
| "alloc_step order Set_Bit r =
     go_on Address (upd_si (\<lambda>m. block_set m order (m_next_free_page m order)) r)"
| "alloc_step order Address r =
     go_on (Advance (add64 (BLOCK_ORDER_SIZE order * m_next_free_page (r_page_alloc_si r) order) (r_start r))) r"
| "alloc_step order (Advance a) r = go_on (Full a) (upd_si (advance_next order) r)"
| "alloc_step order (Full a) r = go_on (Count a) (filled order r)"
| "alloc_step order (Count a) r = go_on (Unlock a) (counted order r)"
| "alloc_step order Give_Up r = go_on (Unlock 0) (out_of_mem r)"
| "alloc_step order (Unlock a) r = unlock_return r a"
| "alloc_step order _ r = None"

fun reserve_step :: "nat \<Rightarrow> nat \<Rightarrow> region_place \<Rightarrow> mregion \<Rightarrow> (region_place \<times> mregion + mregion \<times> nat) option" where
  "reserve_step order offset Check r =
     (if \<not> r_si_mapped r \<or> order \<ge> MAX_ORDER then None
      else if \<not> block_check (r_page_alloc_si r) order offset then go_on Take r
      else go_on Split r)"
| "reserve_step order offset Split r =
     go_on Check_Split (reserve_search order offset r)"
| "reserve_step order offset Check_Split r =
     (if \<not> block_check (r_page_alloc_si r) order offset then go_on Take r
      else go_on (Full (reserve_addr r order offset)) r)"
| "reserve_step order offset Take r =
     go_on (Full (reserve_addr r order offset)) (upd_si (reserve_bit order offset) r)"
| "reserve_step order offset (Full a) r = go_on (Count a) (filled order r)"
| "reserve_step order offset (Count a) r = go_on (Unlock a) (counted order r)"
| "reserve_step order offset (Unlock a) r = unlock_return r a"
| "reserve_step order offset _ r = None"

text \<open>The two early returns of \<open>pages_free\<close> leave the lock as it is.\<close>

fun free_step :: "nat \<Rightarrow> nat \<Rightarrow> region_place \<Rightarrow> mregion \<Rightarrow> (region_place \<times> mregion + mregion \<times> nat) option" where
  "free_step phaddr order Check r =
     (if phaddr < r_start r \<or> phaddr \<ge> add64 (r_start r) (r_size r) then Some (Inr (r, 0))
      else if \<not> r_si_mapped r \<or> order \<ge> MAX_ORDER then None
      else if \<not> block_check (r_page_alloc_si r) order (free_offset r phaddr) then Some (Inr (r, 0))
      else go_on Give r)"
| "free_step phaddr order Give r = go_on Merge (free_give r order (free_offset r phaddr))"
| "free_step phaddr order Merge r = go_on (Unlock 0) (free_merge r order (free_offset r phaddr))"
| "free_step phaddr order (Unlock a) r = unlock_return r a"
| "free_step phaddr order _ r = None"

fun region_step :: "region_call \<Rightarrow> region_place \<Rightarrow> mregion \<Rightarrow> (region_place \<times> mregion + mregion \<times> nat) option" where
  "region_step (Alloc order) = alloc_step order"
| "region_step (Reserve order offset) = reserve_step order offset"
| "region_step (Free phaddr order) = free_step phaddr order"

text \<open>The operation as one call; \<open>pages_free\<close> returns nothing, here 0.\<close>

fun region_whole :: "region_call \<Rightarrow> mregion \<Rightarrow> (mregion \<times> nat) res" where
  "region_whole (Alloc order) r = pages_alloc r order"
| "region_whole (Reserve order offset) r = pages_reserve r order offset"
| "region_whole (Free phaddr order) r = and_then (pages_free r phaddr order) (\<lambda>r. Inr (r, 0))"

text \<open>
  The calls that come to the lock: a request of \<open>pages_alloc\<close> for too large an order returns before it. Addresses
  have 64 bits.
\<close>

fun takes_lock :: "region_call \<Rightarrow> bool" where
  "takes_lock (Alloc order) = (order < MAX_ORDER)"
| "takes_lock (Reserve order offset) = True"
| "takes_lock (Free phaddr order) = (phaddr < 2 ^ 64)"

section \<open>What is left of an operation\<close>

definition alloc_again :: "nat \<Rightarrow> mregion \<Rightarrow> (mregion \<times> nat) res" where
  "alloc_again order r =
     (if m_pages_free (r_page_alloc_si r) order = 0 then Inr (alloc_fail r)
      else if \<not> r_si_mapped r then Inl NullDeref else Inr (alloc_take r order))"

fun alloc_rest :: "nat \<Rightarrow> region_place \<Rightarrow> mregion \<Rightarrow> (mregion \<times> nat) res" where
  "alloc_rest order Check r =
     (if \<not> r_si_mapped r then Inl NullDeref
      else if m_pages_free (r_page_alloc_si r) order > 0 then Inr (alloc_take r order)
      else if order = MAX_ORDER - 1 then Inr (alloc_fail r)
      else alloc_again order (block_split r (order + 1)))"
| "alloc_rest order Split r = alloc_again order (block_split r (order + 1))"
| "alloc_rest order Check_Split r = alloc_again order r"
| "alloc_rest order Set_Bit r = Inr (alloc_take r order)"
| "alloc_rest order Address r =
     Inr (unlocked (counted order (filled order (upd_si (advance_next order) r))),
       add64 (BLOCK_ORDER_SIZE order * m_next_free_page (r_page_alloc_si r) order) (r_start r))"
| "alloc_rest order (Advance a) r = Inr (unlocked (counted order (filled order (upd_si (advance_next order) r))), a)"
| "alloc_rest order (Full a) r = Inr (unlocked (counted order (filled order r)), a)"
| "alloc_rest order (Count a) r = Inr (unlocked (counted order r), a)"
| "alloc_rest order Give_Up r = Inr (alloc_fail r)"
| "alloc_rest order (Unlock a) r = Inr (unlocked r, a)"
| "alloc_rest order _ r = Inl Fault"

definition reserve_again :: "nat \<Rightarrow> nat \<Rightarrow> mregion \<Rightarrow> mregion" where
  "reserve_again order offset r =
     (if \<not> block_check (r_page_alloc_si r) order offset then upd_si (reserve_bit order offset) r else r)"

fun reserve_rest :: "nat \<Rightarrow> nat \<Rightarrow> region_place \<Rightarrow> mregion \<Rightarrow> (mregion \<times> nat) res" where
  "reserve_rest order offset Check r =
     (if \<not> r_si_mapped r then Inl NullDeref
      else if order \<ge> MAX_ORDER then Inl OutOfBounds
      else if \<not> block_check (r_page_alloc_si r) order offset then
        Inr (reserve_account (upd_si (reserve_bit order offset) r) order, reserve_addr r order offset)
      else Inr (reserve_account (reserve_again order offset (reserve_search order offset r)) order, reserve_addr r order offset))"
| "reserve_rest order offset Split r =
     Inr (reserve_account (reserve_again order offset (reserve_search order offset r)) order, reserve_addr r order offset)"
| "reserve_rest order offset Check_Split r =
     Inr (reserve_account (reserve_again order offset r) order, reserve_addr r order offset)"
| "reserve_rest order offset Take r =
     Inr (reserve_account (upd_si (reserve_bit order offset) r) order, reserve_addr r order offset)"
| "reserve_rest order offset (Full a) r = Inr (reserve_account r order, a)"
| "reserve_rest order offset (Count a) r = Inr (unlocked (counted order r), a)"
| "reserve_rest order offset (Unlock a) r = Inr (unlocked r, a)"
| "reserve_rest order offset _ r = Inl Fault"

fun free_rest :: "nat \<Rightarrow> nat \<Rightarrow> region_place \<Rightarrow> mregion \<Rightarrow> (mregion \<times> nat) res" where
  "free_rest phaddr order Check r =
     (if phaddr < r_start r \<or> phaddr \<ge> add64 (r_start r) (r_size r) then Inr (r, 0)
      else if \<not> r_si_mapped r then Inl NullDeref
      else if order \<ge> MAX_ORDER then Inl OutOfBounds
      else if \<not> block_check (r_page_alloc_si r) order (free_offset r phaddr) then Inr (r, 0)
      else Inr (unlocked (free_merge (free_give r order (free_offset r phaddr)) order (free_offset r phaddr)), 0))"
| "free_rest phaddr order Give r =
     Inr (unlocked (free_merge (free_give r order (free_offset r phaddr)) order (free_offset r phaddr)), 0)"
| "free_rest phaddr order Merge r = Inr (unlocked (free_merge r order (free_offset r phaddr)), 0)"
| "free_rest phaddr order (Unlock a) r = Inr (unlocked r, a)"
| "free_rest phaddr order _ r = Inl Fault"

fun region_rest :: "region_call \<Rightarrow> region_place \<Rightarrow> mregion \<Rightarrow> (mregion \<times> nat) res" where
  "region_rest (Alloc order) = alloc_rest order"
| "region_rest (Reserve order offset) = reserve_rest order offset"
| "region_rest (Free phaddr order) = free_rest phaddr order"

section \<open>The region is a locked object\<close>

lemma block_split_keeps:
  "r_lock (block_split r order) = r_lock r \<and> r_si_mapped (block_split r order) = r_si_mapped r"
  by (induction r order rule: block_split.induct)
    (subst (1 2) block_split.simps, simp add: Let_def upd_si_def out_of_mem_def)

lemma free_give_keeps [simp]:
  "r_lock (free_give r order k) = r_lock r" "r_start (free_give r order k) = r_start r"
  by (simp_all add: free_give_def upd_si_def Let_def)

lemma free_merge_keeps [simp]: "r_lock (free_merge r order k) = r_lock r"
  by (simp add: free_merge_def upd_si_def Let_def)

lemma free_offset_give [simp]: "free_offset (free_give r order k) phaddr = free_offset r phaddr"
  by (simp add: free_offset_def)

lemma reserve_addr_upd [simp]:
  "reserve_addr (upd_si f r) order offset = reserve_addr r order offset"
  "reserve_addr (reserve_search order' offset' r) order offset = reserve_addr r order offset"
  by (simp_all add: reserve_addr_def reserve_search_def upd_si_def)

lemma alloc_take_steps:
  "alloc_take r order =
     (let r1 = upd_si (\<lambda>m. block_set m order (m_next_free_page m order)) r in
      (unlocked (counted order (filled order (upd_si (advance_next order) r1))),
       add64 (BLOCK_ORDER_SIZE order * m_next_free_page (r_page_alloc_si r1) order) (r_start r1)))"
  by (simp add: alloc_take_def unlocked_def counted_def filled_def upd_si_def Let_def block_simps)

lemma account_steps: "reserve_account r order = unlocked (counted order (filled order r))"
  by (simp add: reserve_account_def unlocked_def counted_def filled_def Let_def)

lemma fail_steps: "alloc_fail r = (unlocked (out_of_mem r), 0)"
  by (simp add: alloc_fail_def unlocked_def Let_def)

lemma same_word [simp]:
  "r_lock (upd_si f r) = r_lock r" "r_lock (counted order r) = r_lock r" "r_lock (filled order r) = r_lock r"
  "r_lock (out_of_mem r) = r_lock r" "r_lock (reserve_search order offset r) = r_lock r"
  by (simp_all add: upd_si_def counted_def filled_def out_of_mem_def reserve_search_def)

lemmas step_simps = go_on_def unlock_return_def alloc_again_def reserve_again_def alloc_take_steps account_steps fail_steps
  Let_def

lemma alloc_step_rest:
  "alloc_step order l r = Some (Inl (l', t)) \<Longrightarrow> r_lock t = r_lock r \<and> alloc_rest order l' t = alloc_rest order l r"
  "alloc_step order l r = Some (Inr (t, a)) \<Longrightarrow> alloc_rest order l r = Inr (t, a)"
  by (cases l; auto simp: step_simps block_split_keeps split: if_splits)+

lemma reserve_step_rest:
  "reserve_step order offset l r = Some (Inl (l', t)) \<Longrightarrow>
     r_lock t = r_lock r \<and> reserve_rest order offset l' t = reserve_rest order offset l r"
  "reserve_step order offset l r = Some (Inr (t, a)) \<Longrightarrow> reserve_rest order offset l r = Inr (t, a)"
  by (cases l; clarsimp simp: step_simps split: if_splits)+

lemma free_step_rest:
  "free_step phaddr order l r = Some (Inl (l', t)) \<Longrightarrow>
     r_lock t = r_lock r \<and> free_rest phaddr order l' t = free_rest phaddr order l r"
  "free_step phaddr order l r = Some (Inr (t, a)) \<Longrightarrow> free_rest phaddr order l r = Inr (t, a)"
  by (cases l; auto simp: step_simps split: if_splits)+

lemma rest_whole:
  assumes "r_lock r = 0" and "takes_lock op"
  shows "region_rest op Check (r\<lparr>r_lock := 1\<rparr>) = region_whole op r"
proof (cases op)
  case (Alloc order)
  then show ?thesis using assms block_split_keeps [of "r\<lparr>r_lock := 1\<rparr>"]
    by (simp add: pages_alloc_def spinlock_lock_cases alloc_again_def Let_def)
next
  case (Reserve order offset)
  then show ?thesis using assms
    by (simp add: pages_reserve_def spinlock_lock_cases reserve_again_def reserve_search_def reserve_addr_def Let_def)
next
  case (Free phaddr order)
  then show ?thesis using assms
    by (simp add: pages_free_def spinlock_lock_cases free_offset_def unlocked_def Let_def)
qed

interpretation shared_region: locked_object r_lock "\<lambda>r w. r\<lparr>r_lock := w\<rparr>" takes_lock "\<lambda>_. Check" region_step region_whole region_rest
proof unfold_locales
  fix op l r l' t a
  show "region_step op l r = Some (Inl (l', t)) \<Longrightarrow> r_lock t = r_lock r"
    and "region_step op l r = Some (Inl (l', t)) \<Longrightarrow> region_rest op l' t = region_rest op l r"
    and "region_step op l r = Some (Inr (t, a)) \<Longrightarrow> region_rest op l r = Inr (t, a)"
    using alloc_step_rest reserve_step_rest free_step_rest by (cases op; simp)+
qed (simp_all add: rest_whole)

section \<open>Processors at a region\<close>

type_synonym shared_region = "(mregion, region_call, region_place, nat) shared"

definition region_processors :: "shared_region \<Rightarrow> shared_region \<Rightarrow> bool" where
  "region_processors = processor_step r_lock (\<lambda>r w. r\<lparr>r_lock := w\<rparr>) takes_lock (\<lambda>_. Check) region_step"

lemma region_as_if_alone:
  "region_processors\<^sup>*\<^sup>* (all_away r) s \<Longrightarrow>
     \<exists>u. run_alone region_whole r (returned s) u \<and> ((\<forall>i op l. place_of s i \<noteq> Inside op l) \<longrightarrow> obj s = u)"
  unfolding region_processors_def by (rule shared_region.as_if_alone)

text \<open>A processor that is inside an allocation can go on to its return by itself, in at most nine steps.\<close>

fun steps_left :: "nat \<Rightarrow> region_place \<Rightarrow> mregion \<Rightarrow> nat" where
  "steps_left order Check r = (if m_pages_free (r_page_alloc_si r) order > 0 then 7 else 10)"
| "steps_left order Split r = 9"
| "steps_left order Check_Split r = 8"
| "steps_left order Set_Bit r = 6"
| "steps_left order Address r = 5"
| "steps_left order (Advance a) r = 4"
| "steps_left order (Full a) r = 3"
| "steps_left order (Count a) r = 2"
| "steps_left order Give_Up r = 2"
| "steps_left order (Unlock a) r = 1"
| "steps_left order _ r = 0"

lemma alloc_step_left: "alloc_step order l r = Some (Inl (l', t)) \<Longrightarrow> steps_left order l' t < steps_left order l r"
  by (cases l) (auto simp: go_on_def unlock_return_def split: if_splits)

lemma alloc_step_stuck: "alloc_step order l r = None \<Longrightarrow> \<exists>e. alloc_rest order l r = Inl e"
  by (cases l) (auto simp: go_on_def unlock_return_def split: if_splits)

definition come_back :: "nat \<Rightarrow> region_call \<Rightarrow> mregion \<Rightarrow> nat \<Rightarrow> shared_region \<Rightarrow> shared_region" where
  "come_back i op t a s = move i Away (s\<lparr>obj := t, returned := returned s @ [(op, a)]\<rparr>)"

lemma come_back_move [simp]: "come_back i op t a (move i p (s\<lparr>obj := u\<rparr>)) = come_back i op t a s"
  by (simp add: come_back_def move_def)

lemma alloc_finishes:
  "place_of s i = Inside (Alloc order) l \<Longrightarrow> alloc_rest order l (obj s) = Inr (t, a) \<Longrightarrow>
     region_processors\<^sup>*\<^sup>* s (come_back i (Alloc order) t a s)"
proof (induction "steps_left order l (obj s)" arbitrary: s l rule: less_induct)
  case less
  show ?case
  proof (cases "alloc_step order l (obj s)")
    case None
    from alloc_step_stuck [OF this] less.prems(2) show ?thesis by simp
  next
    case (Some x)
    show ?thesis
    proof (cases x)
      case (Inl y)
      obtain l' u where "y = (l', u)" by (cases y)
      with Some Inl have st: "alloc_step order l (obj s) = Some (Inl (l', u))" by simp
      let ?s = "move i (Inside (Alloc order) l') (s\<lparr>obj := u\<rparr>)"
      have "region_processors s ?s"
        unfolding region_processors_def by (rule processor_step.work [OF less.prems(1)]) (simp add: st)
      moreover have "region_processors\<^sup>*\<^sup>* ?s (come_back i (Alloc order) t a ?s)"
        using alloc_step_left [OF st] alloc_step_rest(1) [OF st] less.prems(2) by (intro less.hyps [of l']) simp_all
      ultimately show ?thesis by (simp add: converse_rtranclp_into_rtranclp)
    next
      case (Inr y)
      obtain u b where "y = (u, b)" by (cases y)
      with Some Inr have st: "alloc_step order l (obj s) = Some (Inr (u, b))" by simp
      then have "u = t" "b = a" using alloc_step_rest(2) [OF st] less.prems(2) by simp_all
      then have "region_processors s (come_back i (Alloc order) t a s)"
        unfolding region_processors_def come_back_def
        by (intro processor_step.leave [OF less.prems(1)]) (simp add: st)
      then show ?thesis ..
    qed
  qed
qed

lemma alloc_from_waiting:
  assumes "place_of s i = Waiting (Alloc order)" and "r_lock (obj s) = 0" and "order < MAX_ORDER"
    and "pages_alloc (obj s) order = Inr (t, a)"
  shows "region_processors\<^sup>*\<^sup>* s (come_back i (Alloc order) t a s)"
proof -
  let ?s = "move i (Inside (Alloc order) Check) (s\<lparr>obj := (obj s)\<lparr>r_lock := 1\<rparr>\<rparr>)"
  have "region_processors s ?s"
    unfolding region_processors_def by (rule processor_step.acquire [OF assms(1)]) (simp add: assms(2))
  moreover have "alloc_rest order Check ((obj s)\<lparr>r_lock := 1\<rparr>) = Inr (t, a)"
    using rest_whole [OF assms(2), of "Alloc order"] assms(3,4) by (simp del: alloc_rest.simps)
  then have "region_processors\<^sup>*\<^sup>* ?s (come_back i (Alloc order) t a ?s)"
    by (intro alloc_finishes [of ?s i order Check t a]) (simp_all del: alloc_rest.simps)
  ultimately show ?thesis by (simp add: converse_rtranclp_into_rtranclp)
qed

text \<open>Two processors call at the same time, the second one gets the lock first, the first one spins meanwhile.\<close>

lemma two_allocations:
  assumes "region_inv r" and "2 \<le> card (free_pages_of (r_page_alloc_si r))" and "0 < r_start r"
  shows "\<exists>s a b. region_processors\<^sup>*\<^sup>* (all_away r) s \<and> returned s = [(Alloc 0, a), (Alloc 0, b)] \<and> 0 < a \<and> 0 < b \<and>
    place_of s = (\<lambda>_. Away)"
proof -
  have ok: "\<exists>r' i. pages_alloc q 0 = Inr (r', r_start q + BLOCK_ORDER_SIZE 0 * i) \<and> alloc_result q 0 r' i"
    if "region_inv q" "0 < card (free_pages_of (r_page_alloc_si q))" for q
  proof (rule pages_alloc_success [OF that(1)])
    have "free_pages_of (r_page_alloc_si q) \<noteq> {}" using that(2) by auto
    then show "avail (r_page_alloc_si q) 0" using avail_0 that(1) by (simp add: region_inv_def)
  qed simp
  from ok [OF assms(1)] assms(2) obtain r1 i where
    r1: "pages_alloc r 0 = Inr (r1, r_start r + BLOCK_ORDER_SIZE 0 * i)" "alloc_result r 0 r1 i" by auto
  then have inv1: "region_inv r1" "r_start r1 = r_start r" and "card (free_pages_of (r_page_alloc_si r1)) = card (free_pages_of (r_page_alloc_si r)) - 1"
    by (auto simp: alloc_result_def)
  with ok [OF inv1(1)] assms(2) obtain r2 k where
    r2: "pages_alloc r1 0 = Inr (r2, r_start r + BLOCK_ORDER_SIZE 0 * k)" by auto
  let ?s1 = "move 0 (Waiting (Alloc 0)) (all_away r)"
  let ?s2 = "move 1 (Waiting (Alloc 0)) ?s1"
  let ?s3 = "come_back 1 (Alloc 0) r1 (r_start r + BLOCK_ORDER_SIZE 0 * i) ?s2"
  let ?s4 = "come_back 0 (Alloc 0) r2 (r_start r + BLOCK_ORDER_SIZE 0 * k) ?s3"
  have "region_processors (all_away r) ?s1" "region_processors ?s1 ?s2"
    unfolding region_processors_def by (rule processor_step.call, simp add: all_away_def, simp)+
  moreover have "region_processors\<^sup>*\<^sup>* ?s2 ?s3"
    using assms(1) r1(1) by (intro alloc_from_waiting) (simp_all add: all_away_def region_inv_def)
  moreover have "region_processors\<^sup>*\<^sup>* ?s3 ?s4"
    using inv1(1) r2 by (intro alloc_from_waiting) (simp_all add: all_away_def region_inv_def come_back_def)
  ultimately have "region_processors\<^sup>*\<^sup>* (all_away r) ?s4"
    by (meson converse_rtranclp_into_rtranclp rtranclp_trans)
  moreover have "returned ?s4 = [(Alloc 0, r_start r + BLOCK_ORDER_SIZE 0 * i), (Alloc 0, r_start r + BLOCK_ORDER_SIZE 0 * k)]"
    "place_of ?s4 = (\<lambda>_. Away)"
    by (auto simp: come_back_def all_away_def move_def)
  ultimately show ?thesis using assms(3) by blast
qed

text \<open>
  C8. Whatever the interleaving of the statements of \<open>pages_alloc\<close>, \<open>pages_reserve\<close> and \<open>pages_free\<close> on any number of
  processors, the calls that have returned returned what the same calls return one after the other, in the order of
  their returns, and when no processor is inside the region is the one these calls leave behind.
\<close>

theorem region_calls_in_some_order:
  assumes "region_processors\<^sup>*\<^sup>* (all_away r) s"
  shows "\<exists>u. run_alone region_whole r (returned s) u \<and> ((\<forall>i op l. place_of s i \<noteq> Inside op l) \<longrightarrow> obj s = u)"
  using assms by (rule region_as_if_alone)

theorem region_calls_witness:
  "\<exists>s a b u. region_processors\<^sup>*\<^sup>* (all_away demo_region) s \<and> returned s = [(Alloc 0, a), (Alloc 0, b)] \<and>
     region_whole (Alloc 0) demo_region = Inr (u, a) \<and> region_whole (Alloc 0) u = Inr (obj s, b)"
proof -
  obtain s a b where s: "region_processors\<^sup>*\<^sup>* (all_away demo_region) s" "returned s = [(Alloc 0, a), (Alloc 0, b)]"
    "place_of s = (\<lambda>_. Away)"
    using two_allocations [OF demo_region_ok(1)] demo_region_ok by auto
  with region_calls_in_some_order [OF s(1)] show ?thesis by auto
qed

text \<open>The areas that the returned allocations handed out.\<close>

fun handed_out :: "(region_call \<times> nat) list \<Rightarrow> (nat \<times> nat) list" where
  "handed_out [] = []"
| "handed_out ((Alloc order, a) # h) = (if a = 0 then handed_out h else (order, a) # handed_out h)"
| "handed_out (_ # h) = handed_out h"

fun is_alloc :: "region_call \<Rightarrow> bool" where
  "is_alloc (Alloc order) = True"
| "is_alloc _ = False"

fun order_of :: "region_call \<Rightarrow> nat" where
  "order_of (Alloc order) = order"
| "order_of (Reserve order _) = order"
| "order_of (Free _ order) = order"

lemma run_alone_allocs:
  "run_alone region_whole r h u \<Longrightarrow> \<forall>(op, a) \<in> set h. is_alloc op \<Longrightarrow>
     alloc_run pages_alloc r (map (order_of \<circ> fst) h) = Inr (u, handed_out h)"
proof (induction h arbitrary: r)
  case (Cons x h)
  then obtain order a where x: "x = (Alloc order, a)" by (cases x; cases "fst x") auto
  from Cons x show ?case by auto
qed simp

text \<open>
  C2. Processors that allocate from one region at the same time: however their statements interleave, the areas
  that have been handed out are pairwise disjoint and lay in frames that were free at the start.
\<close>

theorem concurrent_allocations_never_overlap:
  assumes "region_inv r" and "region_processors\<^sup>*\<^sup>* (all_away r) s"
    and "\<forall>(op, a) \<in> set (returned s). is_alloc op"
  shows "areas_apart (handed_out (returned s)) \<and> given (handed_out (returned s)) \<subseteq> region_frames r"
proof -
  obtain u where "run_alone region_whole r (returned s) u" using region_as_if_alone [OF assms(2)] by blast
  from run_alone_allocs [OF this assms(3)] region.alloc_run_ok [OF assms(1)] show ?thesis by blast
qed

theorem concurrent_allocations_witness:
  "\<exists>s a b. region_processors\<^sup>*\<^sup>* (all_away demo_region) s \<and> returned s = [(Alloc 0, a), (Alloc 0, b)] \<and>
     0 < a \<and> 0 < b \<and> areas_apart [(0, a), (0, b)]"
proof -
  obtain s a b where s: "region_processors\<^sup>*\<^sup>* (all_away demo_region) s" "returned s = [(Alloc 0, a), (Alloc 0, b)]"
    "0 < a" "0 < b"
    using two_allocations [OF demo_region_ok(1)] demo_region_ok by auto
  with concurrent_allocations_never_overlap [OF demo_region_ok(1) s(1)] show ?thesis by auto
qed

end
