(* ===== verification/Region_Types.thy ===== *)
theory Region_Types
  imports Region_Locking
begin

text \<open>
  The types of the fields of a region, in every state in which the processors can leave it, also after calls with
  arguments that break the contracts of the theory Region_Contract: counters and sizes of \<open>size_t\<close> stay below
  \<open>2 ^ 64\<close>, the arithmetic on indices that the models write as plain never wraps, the lock word is 0 or 1, and no
  operation touches what \<open>region_map\<close> laid out.
\<close>

section \<open>Well-typed regions\<close>

definition map_typed :: "bpa_map \<Rightarrow> bool" where
  "map_typed m \<longleftrightarrow> m_pages m < 2 ^ 52 \<and> (\<forall>k < MAX_ORDER. m_pages_free m k < 2 ^ 64) \<and>
     (\<forall>k < MAX_ORDER. m_next_free_page m k * 2 ^ k < 2 ^ 62)"

definition region_typed :: "mregion \<Rightarrow> bool" where
  "region_typed r \<longleftrightarrow> r_start r < 2 ^ 64 \<and> r_size r < 2 ^ 64 \<and> r_pages_free r < 2 ^ 64 \<and> r_lock r \<in> {0, 1} \<and>
     map_typed (r_page_alloc_si r)"

text \<open>What is fixed when the region is mapped.\<close>

definition map_shape :: "bpa_map \<Rightarrow> nat \<times> nat \<times> (nat \<Rightarrow> nat)" where
  "map_shape m = (m_pages m, m_free_area_size m, m_free_area m)"

definition region_shape :: "mregion \<Rightarrow> nat \<times> nat \<times> u8 \<times> nat \<times> bool \<times> nat \<times> nat \<times> nat \<times> (nat \<Rightarrow> nat)" where
  "region_shape r = (r_start r, r_size r, r_attrib r, r_pages_total r, r_si_mapped r, r_chain_length r,
     map_shape (r_page_alloc_si r))"

text \<open>A step from one map to the next that keeps both.\<close>

definition map_step :: "bpa_map \<Rightarrow> bpa_map \<Rightarrow> bool" where
  "map_step m m' \<longleftrightarrow> (map_typed m \<longrightarrow> map_typed m') \<and> map_shape m' = map_shape m"

lemma map_step_refl [simp]: "map_step m m"
  by (simp add: map_step_def)

lemma map_step_trans: "map_step m m' \<Longrightarrow> map_step m' m'' \<Longrightarrow> map_step m m''"
  by (simp add: map_step_def)

named_theorems typed_steps \<open>operations that keep the types of the bitmaps\<close>

lemma map_step_bits [typed_steps]: "map_step m (block_set m order i)" "map_step m (block_clear m order i)"
  by (simp_all add: map_step_def map_typed_def map_shape_def block_set_def block_clear_def Let_def)

lemma map_step_cnt: "v < 2 ^ 64 \<Longrightarrow> map_step m (cnt_put order v m)"
  by (simp add: map_step_def map_typed_def map_shape_def cnt_put_def)

lemma map_step_arith [typed_steps]:
  "map_step m (cnt_put order (add64 a b) m)" "map_step m (cnt_put order (sub64 a b) m)"
  by (rule map_step_cnt, rule add64_less) (rule map_step_cnt, rule sub64_less)

lemma map_step_nfp: "(map_typed m \<Longrightarrow> order < MAX_ORDER \<Longrightarrow> v * 2 ^ order < 2 ^ 62) \<Longrightarrow> map_step m (nfp_put order v m)"
  by (simp add: map_step_def map_typed_def map_shape_def nfp_put_def)

text \<open>A search gives an index below the number of blocks of the order, or 0.\<close>

lemma find_free_from_less: "find_free_from m order i = Some k \<Longrightarrow> k < free_area_length (m_pages m) order"
  by (induction m order i rule: find_free_from.induct) (subst (asm) (2) find_free_from.simps, auto split: if_splits)

lemma index_bound: "k < free_area_length p order \<Longrightarrow> p < 2 ^ 52 \<Longrightarrow> k * 2 ^ order < 2 ^ 52"
proof -
  assume "k < free_area_length p order" and p: "p < 2 ^ 52"
  then have "k \<le> p div 2 ^ order" by (simp add: free_area_length_div)
  then have "k * 2 ^ order \<le> p" by (metis (no_types) div_times_less_eq_dividend le_trans mult_le_mono1)
  with p show ?thesis by simp
qed

lemma map_step_find [typed_steps]:
  "map_step m (case find_next_free_page m order start of (m', i) \<Rightarrow> nfp_put order i m')"
proof (cases "find_free_from m order start")
  case None
  then show ?thesis
    using map_step_cnt [of 0 m order] map_step_nfp [of "cnt_put order 0 m" order 0]
    by (auto simp: find_next_free_page_def intro: map_step_trans)
next
  case (Some k)
  have "k * 2 ^ order < 2 ^ 62" if "map_typed m"
    using index_bound [OF find_free_from_less [OF Some]] that by (simp add: map_typed_def)
  with Some show ?thesis by (simp add: find_next_free_page_def map_step_nfp)
qed

section \<open>The operations on the bitmaps\<close>

lemma nfp_nfp [simp]: "nfp_put order v (nfp_put order w m) = nfp_put order v m"
  by (simp add: nfp_put_def)

lemma nfp_cnt_nfp [simp]: "nfp_put order v (cnt_put j c (nfp_put order w m)) = nfp_put order v (cnt_put j c m)"
  by (simp add: nfp_put_def cnt_put_def)

lemma find_free_nfp [simp]: "find_free_from (nfp_put order v m) j i = find_free_from m j i"
proof (induction m j i rule: find_free_from.induct)
  case (1 m j i)
  have "m_pages (nfp_put order v m) = m_pages m" "block_check (nfp_put order v m) j i = block_check m j i"
    by (simp_all add: nfp_put_def block_check_def)
  with 1 show ?case by (subst (1 2) find_free_from.simps) simp
qed

text \<open>\<open>++next_free_page\<close> is overwritten by the result of the search behind it; it does not wrap on the way.\<close>

lemma map_step_advance [typed_steps]: "map_step m (advance_next order m)"
proof -
  let ?n = "m_next_free_page m order + 1"
  have "(case find_next_free_page (nfp_put order ?n m) order i of (m', k) \<Rightarrow> nfp_put order k m') =
      (case find_next_free_page m order i of (m', k) \<Rightarrow> nfp_put order k m')" for i
    by (simp add: find_next_free_page_def split: option.split)
  then have "advance_next order m =
      (let m' = (if m_pages_free m order \<noteq> 1 then case find_next_free_page m order (m_next_free_page (nfp_put order ?n m) order) of (m', k) \<Rightarrow> nfp_put order k m'
                 else nfp_put order 0 m)
       in cnt_put order (sub64 (m_pages_free m' order) 1) m')"
    by (simp add: advance_next_def Let_def)
  moreover have "map_step m (nfp_put order 0 m)" by (rule map_step_nfp) simp
  ultimately show ?thesis
    using map_step_trans [OF map_step_find map_step_arith(2)] map_step_trans [OF _ map_step_arith(2)]
    by (simp add: Let_def)
qed

lemma next_half:
  assumes "map_typed m" and "0 < order" and "order < MAX_ORDER"
  shows "m_next_free_page m order * 2 * 2 ^ (order - 1) < 2 ^ 62"
proof -
  have "m_next_free_page m order * 2 * 2 ^ (order - 1) = m_next_free_page m order * 2 ^ order"
    using assms(2) by (cases order) simp_all
  moreover have "m_next_free_page m order * 2 ^ order < 2 ^ 62" using assms unfolding map_typed_def by blast
  ultimately show ?thesis by (simp only:)
qed

lemma map_step_half:
  assumes "0 < order" and "order < MAX_ORDER" and "m_next_free_page m' order = m_next_free_page m order"
  shows "map_step m' (nfp_put (order - 1) (m_next_free_page m order * 2) m')"
  using next_half [of m' order] assms by (intro map_step_nfp) simp

lemma next_bits [simp]:
  "m_next_free_page (block_set m order i) = m_next_free_page m"
  "m_next_free_page (block_clear m order i) = m_next_free_page m"
  by (simp_all add: block_set_def block_clear_def Let_def)

lemma map_step_split_first [typed_steps]:
  assumes "0 < order" and "order < MAX_ORDER"
  shows "map_step m (split_first order m)"
proof -
  define n where "n = m_next_free_page m order"
  define m3 where "m3 = block_clear (block_clear (block_set m order n) (order - 1) (n * 2)) (order - 1) (n * 2 + 1)"
  define m4 where "m4 = (if m_next_free_page m3 (order - 1) > n * 2 \<or> m_pages_free m3 (order - 1) = 0
    then nfp_put (order - 1) (n * 2) m3 else m3)"
  define m5 where "m5 = cnt_put (order - 1) (add64 (m_pages_free m4 (order - 1)) 2) m4"
  have hints: "m_next_free_page m3 = m_next_free_page m" by (simp add: m3_def)
  have "map_step m m3" unfolding m3_def by (meson map_step_trans map_step_bits)
  moreover have "map_step m3 m4" using map_step_half [OF assms, of m3 m] hints by (simp add: m4_def n_def)
  moreover have "map_step m4 m5" unfolding m5_def by (rule map_step_arith)
  moreover have "split_first order m = advance_next order m5"
    using hints unfolding split_first_def Let_def by (simp add: m5_def m4_def m3_def n_def)
  ultimately show ?thesis using map_step_advance map_step_trans by metis
qed

lemma map_step_zsplit_at [typed_steps]:
  assumes "0 < order" and "order < MAX_ORDER"
  shows "map_step m (zsplit_at order i m)"
proof -
  define m3 where "m3 = block_clear (block_clear (block_set m order i) (order - 1) (i * 2)) (order - 1) (i * 2 + 1)"
  define m4 where "m4 = (if m_next_free_page m3 (order - 1) > m_next_free_page m3 order * 2
    then nfp_put (order - 1) (m_next_free_page m3 order * 2) m3 else m3)"
  define m5 where "m5 = cnt_put (order - 1) (add64 (m_pages_free m4 (order - 1)) 2) m4"
  define m6 where "m6 = (if m_pages_free m5 order = 1 then nfp_put order 0 m5
    else if i = m_next_free_page m5 order then case find_next_free_page m5 order (i + 1) of (m, k) \<Rightarrow> nfp_put order k m
    else m5)"
  have "map_step m m3" unfolding m3_def by (meson map_step_trans map_step_bits)
  moreover have "map_step m3 m4" using map_step_half [OF assms, of m3 m3] by (simp add: m4_def)
  moreover have "map_step m4 m5" unfolding m5_def by (rule map_step_arith)
  moreover have "map_step m5 m6" using map_step_find [of m5 order] map_step_nfp [of m5 order 0] by (simp add: m6_def)
  moreover have "map_step m6 (cnt_put order (sub64 (m_pages_free m6 order) 1) m6)" by (rule map_step_arith)
  moreover have "zsplit_at order i m = cnt_put order (sub64 (m_pages_free m6 order) 1) m6"
    unfolding zsplit_at_def Let_def m6_def m5_def m4_def m3_def by (rule refl)
  ultimately show ?thesis using map_step_trans by metis
qed

lemma map_step_zblock_split [typed_steps]: "map_step m (zblock_split m order i)"
proof (induction m order i rule: zblock_split.induct)
  case (1 m order i)
  show ?case
  proof (cases "order = 0 \<or> order \<ge> MAX_ORDER \<or> block_check m order i \<and> order = MAX_ORDER - 1")
    case True
    then show ?thesis by (subst zblock_split.simps) auto
  next
    case False
    then have o: "0 < order" "order < MAX_ORDER" by auto
    let ?m = "zblock_split m (order + 1) (i div 2)"
    have "map_step m ?m" if "block_check m order i" using that False 1 by auto
    then show ?thesis
      using map_step_trans [OF _ map_step_zsplit_at [OF o], of m ?m i] map_step_zsplit_at [OF o, of m i] False
      by (subst zblock_split.simps) (auto simp: Let_def)
  qed
qed

lemma half_up: "i div 2 * 2 ^ (order + 1) \<le> i * 2 ^ order" for i :: nat
proof -
  have "i div 2 * 2 ^ (order + 1) = i div 2 * 2 * 2 ^ order" by simp
  also have "\<dots> \<le> i * 2 ^ order" by (rule mult_le_mono1) simp
  finally show ?thesis .
qed

lemma map_step_merge_pair:
  assumes "i * 2 ^ order < 2 ^ 62"
  shows "map_step m (merge_pair order i m)"
proof -
  define m3 where "m3 = block_clear (block_set (block_set m order i) order (i + 1)) (order + 1) (i div 2)"
  define m4 where "m4 = cnt_put order (sub64 (m_pages_free m3 order) 2) m3"
  define m5 where "m5 = cnt_put (order + 1) (add64 (m_pages_free m4 (order + 1)) 1) m4"
  define m6 where "m6 = (if m_next_free_page m5 order = i \<or> m_next_free_page m5 order = i + 1
    then case find_next_free_page m5 order (i + 2) of (m, k) \<Rightarrow> nfp_put order k m else m5)"
  have "map_step m6 (nfp_put (order + 1) (i div 2) m6)"
    by (rule map_step_nfp, rule le_less_trans [OF half_up assms])
  moreover have "map_step m m3" unfolding m3_def by (meson map_step_trans map_step_bits)
  moreover have "map_step m3 m4" "map_step m4 m5" unfolding m4_def m5_def by (rule map_step_arith)+
  moreover have "map_step m5 m6" using map_step_find [of m5 order] by (simp add: m6_def)
  moreover have "merge_pair order i m =
      (if m_next_free_page m6 (order + 1) > i div 2 \<or> m_pages_free m6 (order + 1) = 1 then nfp_put (order + 1) (i div 2) m6 else m6)"
    unfolding merge_pair_def Let_def m6_def m5_def m4_def m3_def by (rule refl)
  ultimately show ?thesis using map_step_trans by metis
qed

lemma map_step_block_merge: "i * 2 ^ order < 2 ^ 62 \<Longrightarrow> map_step m (block_merge m order i)"
proof (induction m order i rule: block_merge.induct)
  case (1 m order i)
  show ?case
  proof (cases "order \<ge> MAX_ORDER - 1")
    case True
    then show ?thesis by (subst block_merge.simps) simp
  next
    case False
    let ?i = "i div 2 * 2" and ?m = "merge_pair order (i div 2 * 2) m"
    have "?i * 2 ^ order \<le> i * 2 ^ order" by simp
    then have le: "?i * 2 ^ order < 2 ^ 62" using 1(3) by (rule le_less_trans)
    then have up: "?i div 2 * 2 ^ (order + 1) < 2 ^ 62" by (rule le_less_trans [OF half_up])
    note pair = map_step_merge_pair [OF le, of m]
    have "map_step ?m (block_merge ?m (order + 1) (?i div 2))"
      if "(?i div 2) mod 2 = 0" "\<not> block_check ?m (order + 1) (?i div 2 + 1)"
      using 1(1) [OF False refl refl that up] .
    moreover have "map_step ?m (block_merge ?m (order + 1) (?i div 2))"
      if "(?i div 2) mod 2 \<noteq> 0" "\<not> block_check ?m (order + 1) (?i div 2 - 1)"
      using 1(2) [OF False refl refl that up] .
    ultimately have "map_step m (if (?i div 2) mod 2 = 0
        then (if \<not> block_check ?m (order + 1) (?i div 2 + 1) then block_merge ?m (order + 1) (?i div 2) else ?m)
        else (if \<not> block_check ?m (order + 1) (?i div 2 - 1) then block_merge ?m (order + 1) (?i div 2) else ?m))"
      using pair map_step_trans [OF pair] by (simp split del: if_split) (simp split: if_split)
    then show ?thesis using False by (subst block_merge.simps) (simp only: Let_def if_False)
  qed
qed

lemma map_step_reserve_bit [typed_steps]: "map_step m (reserve_bit order i m)"
proof -
  define m2 where "m2 = cnt_put order (sub64 (m_pages_free (block_set m order i) order) 1) (block_set m order i)"
  have "map_step m m2" unfolding m2_def by (rule map_step_trans [OF map_step_bits(1) map_step_arith(2)])
  moreover have "map_step m2 (if m_next_free_page m2 order = i
      then case find_next_free_page m2 order (i + 1) of (m, k) \<Rightarrow> nfp_put order k m else m2)"
    using map_step_find [of m2 order] by simp
  ultimately show ?thesis unfolding reserve_bit_def Let_def m2_def [symmetric] by (rule map_step_trans)
qed

lemma map_step_reserve_split [typed_steps]: "map_step m (reserve_split m order i k)"
proof (induction m order i k rule: reserve_split.induct)
  case (1 m order i k)
  show ?case
  proof (cases "i > order")
    case True
    from map_step_trans [OF map_step_zblock_split 1 [OF True]] True show ?thesis by (subst reserve_split.simps) simp
  next
    case False
    then show ?thesis by (subst reserve_split.simps) simp
  qed
qed

section \<open>The statements of the operations\<close>

definition region_step_ok :: "mregion \<Rightarrow> mregion \<Rightarrow> bool" where
  "region_step_ok r r' \<longleftrightarrow> (region_typed r \<longrightarrow> region_typed r') \<and> region_shape r' = region_shape r"

lemma region_step_trans: "region_step_ok r r' \<Longrightarrow> region_step_ok r' r'' \<Longrightarrow> region_step_ok r r''"
  by (simp add: region_step_ok_def)

lemma region_step_upd: "map_step (r_page_alloc_si r) (f (r_page_alloc_si r)) \<Longrightarrow> region_step_ok r (upd_si f r)"
  by (simp add: region_step_ok_def region_typed_def region_shape_def map_step_def upd_si_def)

lemma region_step_fields [typed_steps]:
  "region_step_ok r r" "region_step_ok r (out_of_mem r)" "region_step_ok r (filled order r)"
  "region_step_ok r (counted order r)" "region_step_ok r (unlocked r)" "region_step_ok r (r\<lparr>r_lock := 1\<rparr>)"
  using sub64_less
  by (simp_all add: region_step_ok_def region_typed_def region_shape_def out_of_mem_def filled_def counted_def unlocked_def)

lemma region_step_block_split [typed_steps]: "region_step_ok r (block_split r order)"
proof (induction r order rule: block_split.induct)
  case (1 r order)
  show ?case
  proof (cases "order = 0 \<or> order \<ge> MAX_ORDER")
    case True
    then show ?thesis by (subst block_split.simps) (auto simp: region_step_fields)
  next
    case False
    then have o: "0 < order" "order < MAX_ORDER" by auto
    have split: "region_step_ok q (upd_si (split_first order) q)" for q
      by (rule region_step_upd, rule map_step_split_first [OF o])
    from 1 False show ?thesis
      using split region_step_trans [OF _ split] region_step_trans [OF _ region_step_fields(2)]
      by (subst block_split.simps) (auto simp: Let_def region_step_fields)
  qed
qed

lemma region_step_free_give: "region_step_ok r (free_give r order i)"
proof -
  define r1 where "r1 = upd_si (\<lambda>m. block_clear m order i) r"
  define r2 where "r2 = (if r_pages_free r1 = 0 then r1\<lparr>r_mem_full := True\<rparr> else r1)"
  define r3 where "r3 = r2\<lparr>r_pages_free := add64 (r_pages_free r2) (2 ^ order)\<rparr>"
  define r4 where "r4 = upd_si (\<lambda>m. cnt_put order (add64 (m_pages_free m order) 1) m) r3"
  have "region_step_ok r r1" unfolding r1_def by (rule region_step_upd, rule map_step_bits)
  moreover have "region_step_ok r1 r2" by (simp add: r2_def region_step_ok_def region_typed_def region_shape_def)
  moreover have "region_step_ok r2 r3"
    using add64_less by (simp add: r3_def region_step_ok_def region_typed_def region_shape_def)
  moreover have "region_step_ok r3 r4" unfolding r4_def by (rule region_step_upd, rule map_step_arith)
  ultimately have "region_step_ok r r4" using region_step_trans by blast
  moreover have "region_step_ok r4 (if i < m_next_free_page (r_page_alloc_si r4) order then upd_si (nfp_put order i) r4 else r4)"
  proof (cases "i < m_next_free_page (r_page_alloc_si r4) order")
    case True
    have "i * 2 ^ order < 2 ^ 62" if "map_typed (r_page_alloc_si r4)" "order < MAX_ORDER"
    proof -
      have "i * 2 ^ order \<le> m_next_free_page (r_page_alloc_si r4) order * 2 ^ order" using True by simp
      with that show ?thesis unfolding map_typed_def by (meson le_less_trans)
    qed
    then have "map_step (r_page_alloc_si r4) (nfp_put order i (r_page_alloc_si r4))" by (rule map_step_nfp)
    with True show ?thesis by (simp add: region_step_upd)
  qed (simp add: region_step_fields)
  ultimately show ?thesis
    unfolding free_give_def Let_def r1_def [symmetric] r2_def [symmetric] r3_def [symmetric] r4_def [symmetric]
    by (rule region_step_trans)
qed

lemma region_step_free_merge: "i < 2 ^ 52 \<Longrightarrow> region_step_ok r (free_merge r order i)"
proof -
  assume i: "i < 2 ^ 52"
  have "map_step m (block_merge m order i)" for m
  proof (cases "order \<ge> MAX_ORDER - 1")
    case True
    then show ?thesis by (subst block_merge.simps) simp
  next
    case False
    then have "(2 :: nat) ^ order \<le> 2 ^ 10" by (intro power_increasing) simp_all
    then have "i * 2 ^ order \<le> i * 2 ^ 10" by (rule mult_le_mono2)
    also have "\<dots> < 2 ^ 52 * 2 ^ 10" using i by simp
    finally show ?thesis by (intro map_step_block_merge) simp
  qed
  then show ?thesis unfolding free_merge_def Let_def by (simp add: region_step_upd region_step_fields)
qed

lemma region_step_reserve_search [typed_steps]: "region_step_ok r (reserve_search order offset r)"
  unfolding reserve_search_def by (rule region_step_upd) (simp add: map_step_reserve_split split: prod.split)

lemma offset_bound: "phaddr < 2 ^ 64 \<Longrightarrow> free_offset r phaddr < 2 ^ 52"
proof -
  assume "phaddr < 2 ^ 64"
  then have "phaddr - r_start r < 2 ^ 52 * page_size" by simp
  then show ?thesis unfolding free_offset_def by (simp only: less_mult_imp_div_less)
qed

lemma region_step_merge_at: "phaddr < 2 ^ 64 \<Longrightarrow> region_step_ok r (free_merge r order (free_offset r phaddr))"
  by (intro region_step_free_merge offset_bound)

lemmas statement_simps = go_on_def unlock_return_def region_step_fields region_step_block_split region_step_upd
  region_step_free_give region_step_reserve_search map_step_advance map_step_bits map_step_reserve_bit

lemma region_statement:
  assumes "takes_lock op"
  shows "region_step op l r = Some (Inl (l', t)) \<Longrightarrow> region_step_ok r t"
    and "region_step op l r = Some (Inr (t, a)) \<Longrightarrow> region_step_ok r t"
proof -
  have alloc: "alloc_step order l r = Some (Inl (l', t)) \<Longrightarrow> region_step_ok r t"
    "alloc_step order l r = Some (Inr (t, a)) \<Longrightarrow> region_step_ok r t" for order
    by (cases l; clarsimp simp: statement_simps split: if_splits)+
  have reserve: "reserve_step order offset l r = Some (Inl (l', t)) \<Longrightarrow> region_step_ok r t"
    "reserve_step order offset l r = Some (Inr (t, a)) \<Longrightarrow> region_step_ok r t" for order offset
    by (cases l; clarsimp simp: statement_simps split: if_splits)+
  have free: "phaddr < 2 ^ 64 \<Longrightarrow> free_step phaddr order l r = Some (Inl (l', t)) \<Longrightarrow> region_step_ok r t"
    "phaddr < 2 ^ 64 \<Longrightarrow> free_step phaddr order l r = Some (Inr (t, a)) \<Longrightarrow> region_step_ok r t" for phaddr order
    using region_step_merge_at [of phaddr r order]
    by (cases l; clarsimp simp: statement_simps split: if_splits)+
  show "region_step op l r = Some (Inl (l', t)) \<Longrightarrow> region_step_ok r t"
    and "region_step op l r = Some (Inr (t, a)) \<Longrightarrow> region_step_ok r t"
    using assms alloc reserve free by (cases op; simp)+
qed

definition typed_run :: "mregion \<Rightarrow> shared_region \<Rightarrow> bool" where
  "typed_run r s \<longleftrightarrow> region_step_ok r (obj s) \<and>
     (\<forall>i op l. place_of s i = Waiting op \<or> place_of s i = Inside op l \<longrightarrow> takes_lock op)"

lemma region_run_typed:
  assumes "region_processors s t" and run: "typed_run r s"
  shows "typed_run r t"
  using assms(1) unfolding region_processors_def
proof (cases rule: processor_step.cases)
  case (call i op)
  with run show ?thesis by (auto simp: typed_run_def)
next
  case (acquire i op w)
  with run have "region_step_ok r (obj t)"
    using region_step_trans [OF _ region_step_fields(6)] by (simp add: typed_run_def)
  with acquire run show ?thesis by (auto simp: typed_run_def split: if_splits)
next
  case (spin i op w)
  with run show ?thesis by (simp add: typed_run_def)
next
  case (work i op l l' v)
  with run have op: "takes_lock op" by (auto simp: typed_run_def)
  have "region_step_ok r v"
    using region_step_trans [OF _ region_statement(1) [OF op work(3)]] run by (simp add: typed_run_def)
  with work run op show ?thesis by (auto simp: typed_run_def split: if_splits)
next
  case (leave i op l v a)
  with run have op: "takes_lock op" by (auto simp: typed_run_def)
  have "region_step_ok r v"
    using region_step_trans [OF _ region_statement(2) [OF op leave(3)]] run by (simp add: typed_run_def)
  with leave run op show ?thesis by (auto simp: typed_run_def split: if_splits)
qed


lemma blocks_clear_counts:
  "m_pages (blocks_clear m order i n) = m_pages m \<and> m_pages_free (blocks_clear m order i n) = m_pages_free m \<and>
     m_next_free_page (blocks_clear m order i n) = m_next_free_page m"
  by (induction m order i n rule: blocks_clear.induct) (simp_all add: block_clear_def Let_def)

lemma demo_region_typed: "region_typed demo_region"
proof -
  have "order_max 4096 = 9" by (simp add: order_max_def order_max_from.simps)
  then have map: "free_area_map (region_map_table 4096 mem) =
      blocks_clear (cnt_put 9 8 (region_map_table 4096 mem)) 9 0 8" for mem
    by (simp add: free_area_map_def free_area_map_loop.simps region_map_table_def cnt_put_def free_area_length_div)
  let ?m = "cnt_put 9 8 (region_map_table 4096 (\<lambda>_. 0))"
  have "r_page_alloc_si demo_region = blocks_clear ?m 9 0 8" "r_start demo_region = 0x100000"
    "r_size demo_region = 4096 * page_size" "r_pages_free demo_region = 4096" "r_lock demo_region = 0"
    using map [of "\<lambda>_. 0"]
    by (simp_all add: demo_region_def mapped_region_def region_map_def spinlock_lock_cases blank_region_def upd_si_def Let_def)
  moreover have "map_typed (blocks_clear ?m 9 0 8)"
    using blocks_clear_counts [of ?m 9 0 8] by (simp add: map_typed_def cnt_put_def region_map_table_def)
  ultimately show ?thesis by (simp add: region_typed_def)
qed


end
