(* ===== verification/Start_Sequence.thy ===== *)
theory Start_Sequence
  imports Startup Memory_Init Syscalls Idt
begin

text \<open>
  \<open>startup\<close> of kernel/system.c as a whole: the initialisations of all components in their order, each on the state the
  ones before it left behind. The chain of regions that \<open>arch_init\<close> makes goes to the page allocator, the frame buffer
  to the log, the symbols to the stack trace, the heap to the table of system calls, the log to the clock.
  The byte memories of the components stay separate states: that the page of the heap is a page of the kernel,
  as First_Page shows, has no effect here.
\<close>

section \<open>The code\<close>

text \<open>What the boot loader, the linker, the build and the chips contribute.\<close>

record platform =
  pf_mem_end :: nat
  pf_magic :: u32
  pf_mbp :: nat
  pf_fresh :: "nat \<Rightarrow> mregion option"
  pf_gdtr :: "nat \<times> nat"
  pf_tss :: u64
  pf_tables_served :: bool
  pf_tables :: "nat \<Rightarrow> nat \<Rightarrow> u8"
  pf_cells :: "u16 list"
  pf_log :: log_env
  pf_build :: "cbuf \<times> cbuf \<times> cbuf"
  pf_kdebug :: bool
  pf_cpuid :: bool
  pf_name_leaf :: "u32 \<times> u32 \<times> u32"
  pf_feature_leaf :: "u32 \<times> u32 \<times> u32"
  pf_apic :: bool
  pf_handlers :: handlers
  pf_syscall_isr :: u8
  pf_idt :: u64
  pf_newpages :: "nat \<Rightarrow> nat"
  pf_sc_fnc :: u64
  pf_rtc :: rtc
  pf_port70 :: u8
  pf_frame :: nat

text \<open>The state of the kernel; the interrupt flag of the processor is \<open>interrupts_on\<close> of the clock.\<close>

record system =
  sys_interrupt_enabled :: bool
  sys_boot :: boot_info
  sys_early :: early_memory
  sys_symbols :: elf_symbols
  sys_memid :: MEMID
  sys_memory :: kernel_memory
  sys_log :: kernel_log
  sys_cpu :: CPUINFO
  sys_cpuid :: X64_CPUID
  sys_irqs :: irq_system
  sys_calls :: syscalls
  sys_clock :: clock

definition then_do :: "'a res option \<Rightarrow> ('a \<Rightarrow> 'b res option) \<Rightarrow> 'b res option" where
  "then_do r f = (case r of None \<Rightarrow> None | Some (Inl e) \<Rightarrow> Some (Inl e) | Some (Inr x) \<Rightarrow> f x)"

definition set_interrupts :: "bool \<Rightarrow> system \<Rightarrow> system" where
  "set_interrupts on s = s\<lparr>sys_clock := (sys_clock s)\<lparr>interrupts_on := on\<rparr>\<rparr>"

definition start_arch :: "platform \<Rightarrow> system \<Rightarrow> system res option" where
  "start_arch p s =
     then_do (Some (arch_init (pf_mem_end p) (pf_magic p) (pf_mbp p) (pf_fresh p) (pf_gdtr p) (pf_tss p)
       (sys_boot s, sys_early s, sys_symbols s)))
     (\<lambda>((b, m, sy), _). Some (Inr (s\<lparr>sys_boot := b, sys_early := m, sys_symbols := sy\<rparr>)))"

definition start_memory :: "platform \<Rightarrow> system \<Rightarrow> system res option" where
  "start_memory p s =
     then_do (Some (getMEMID (mmap (sys_boot s)) (sys_memid s))) (\<lambda>mi.
     then_do (mm_init (pf_mbp p) (totalSize mi) (pf_tables_served p) (pf_tables p)
       (case mmap (sys_boot s) of None \<Rightarrow> [] | Some rs \<Rightarrow> rs) (vp_vm (kpages (sys_memory s)))
       ((sys_memory s)\<lparr>early := stk (sys_early s)\<rparr>))
     (\<lambda>(k, _). Some (Inr (s\<lparr>sys_memid := mi, sys_memory := k\<rparr>))))"

definition start_log :: "platform \<Rightarrow> system \<Rightarrow> system res option" where
  "start_log p s =
     then_do (Some (printk_init (cells_alloc (pf_log p)) (fb_type (sys_boot s)) (pf_cells p)
       (fb_width (sys_boot s)) (fb_height (sys_boot s)) (sys_log s)))
     (\<lambda>(k, _). Some (Inr (s\<lparr>sys_log := k\<rparr>)))"

definition stop_with :: "platform \<Rightarrow> system \<Rightarrow> cbuf \<Rightarrow> kernel_log \<Rightarrow> kernel_log res option" where
  "stop_with p s = panic (pf_kdebug p) (logger_of (pf_log p)) (ram (sys_early s)) (sys_symbols s) (pf_frame p)"

text \<open>The report; the first component says whether the start goes on.\<close>

definition start_report :: "platform \<Rightarrow> system \<Rightarrow> (bool \<times> system) res option" where
  "start_report p s =
     then_do (startup_report (pf_build p) (logger_of (pf_log p)) (stop_with p s) (pf_cpuid p) (pf_name_leaf p)
       (pf_feature_leaf p) (sys_memid s) (regions (vm_pages (vp_vm (kpages (sys_memory s))))) (sys_cpu s) (sys_cpuid s) (sys_log s))
     (\<lambda>(on, cpu, x, k). Some (Inr (on, s\<lparr>sys_cpu := cpu, sys_cpuid := x, sys_log := k\<rparr>)))"

definition start_interrupts :: "platform \<Rightarrow> system \<Rightarrow> system res option" where
  "start_interrupts p s =
     then_do (Some (interrupt_init (pf_apic p) (pf_handlers p) (pf_syscall_isr p) (pf_idt p) (sys_irqs s)))
     (\<lambda>(q, _). Some (Inr (s\<lparr>sys_irqs := q\<rparr>)))"

definition start_calls :: "platform \<Rightarrow> system \<Rightarrow> system res option" where
  "start_calls p s =
     then_do (Some (syscall_init (pf_newpages p) (pf_sc_fnc p) ((sys_calls s)\<lparr>sc_heap := kheap (sys_memory s)\<rparr>)))
     (\<lambda>(c, _). Some (Inr (s\<lparr>sys_calls := c, sys_memory := (sys_memory s)\<lparr>kheap := sc_heap c\<rparr>\<rparr>)))"

definition start_clock :: "platform \<Rightarrow> system \<Rightarrow> system res option" where
  "start_clock p s =
     then_do (ktime_init (pf_rtc p) (pf_log p) (pf_port70 p) ((sys_clock s)\<lparr>klog := sys_log s\<rparr>))
     (\<lambda>(c, _). Some (Inr (s\<lparr>sys_clock := c, sys_log := klog c\<rparr>)))"

definition stop_here :: "platform \<Rightarrow> cbuf \<Rightarrow> system \<Rightarrow> system res option" where
  "stop_here p msg s = then_do (stop_with p s msg (sys_log s)) (\<lambda>k. Some (Inr (s\<lparr>sys_log := k\<rparr>)))"

text \<open>What follows \<open>printk_init\<close>.\<close>

definition start_rest :: "platform \<Rightarrow> system \<Rightarrow> system res option" where
  "start_rest p s =
     then_do (start_report p s) (\<lambda>(on, s).
       if \<not> on then Some (Inr s)
       else then_do (start_interrupts p s) (\<lambda>s.
         then_do (start_calls p s) (\<lambda>s.
         then_do (start_clock p (set_interrupts True s))
         (stop_here p (literal ''System reached end of startup function!'')))))"

text \<open>The value of \<open>startup\<close> is the state in which the processor halts; no interrupt comes in on the way.\<close>

definition startup :: "platform \<Rightarrow> system \<Rightarrow> system res option" where
  "startup p s =
     (let s = (set_interrupts False s)\<lparr>sys_interrupt_enabled := False\<rparr> in
      then_do (start_arch p s) (\<lambda>s.
      then_do (start_memory p s) (\<lambda>s.
      then_do (start_log p s) (start_rest p))))"

lemma then_do_simps [simp]:
  "then_do None f = None" "then_do (Some (Inl e)) f = Some (Inl e)" "then_do (Some (Inr x)) f = f x"
  by (simp_all add: then_do_def)

section \<open>The stages\<close>

text \<open>
  The memory map has one entry, available memory from 1 MiB on where the kernel is loaded; \<open>m\<close> and \<open>sy\<close> are the memory
  and the tables that the search for symbols leaves behind.
\<close>

definition one_region_boot :: "platform \<Rightarrow> system \<Rightarrow> early_memory \<Rightarrow> elf_symbols \<Rightarrow> nat \<Rightarrow> bool" where
  "one_region_boot p s m sy pages \<longleftrightarrow>
     (let i = read_info (ram m) (pf_mbp p) in
      pf_magic p = MULTIBOOT_BOOTLOADER_MAGIC \<and> pf_mbp p + 116 \<le> 0x100000 \<and>
      boot_symbols (pf_mem_end p) (read_info (ram (sys_early s)) (pf_mbp p)) (sys_early s, sys_symbols s) = Inr (m, sy) \<and>
      bit (mb_flags i) 6 \<and> bit (mb_flags i) 12 \<and> framebuffer_ty i = 2 \<and> (\<forall>k. pf_fresh p k \<noteq> None) \<and>
      (\<exists>e. entries_at (ram m) (mmap_addr i) [e] (mmap_addr i + mmap_length i) \<and>
         e_type e = 1 \<and> e_addr e = 0x100000 \<and> e_len e = pages * page_size) \<and>
      4096 dvd pages \<and> 66048 \<le> pages \<and> 0x100000 + page_size * pages < 2 ^ 64)"

lemma start_arch_ok:
  assumes boot: "one_region_boot p s m sy pages" and gdt: "initGDT (pf_gdtr p) (pf_tss p) (ram m) = Inr mem"
    and i: "i = read_info (ram m) (pf_mbp p)"
  shows "\<exists>b r. start_arch p s = Some (Inr (s\<lparr>sys_boot := b, sys_early := m\<lparr>ram := mem\<rparr>, sys_symbols := sy\<rparr>)) \<and>
    mmap b = Some [r] \<and> kernel_region r pages \<and> fb_type b = EGA_TEXT \<and>
    fb_width b = framebuffer_width i \<and> fb_height b = framebuffer_height i \<and>
    getMEMID (Some [r]) mi = Inr (mi\<lparr>nEntries := 1, totalSize := pages * page_size\<rparr>)"
proof -
  from boot obtain e where e: "entries_at (ram m) (mmap_addr i) [e] (mmap_addr i + mmap_length i)"
    "e_type e = 1" "e_addr e = 0x100000" "e_len e = pages * page_size"
    unfolding one_region_boot_def Let_def i [symmetric] by blast
  have b: "pf_magic p = MULTIBOOT_BOOTLOADER_MAGIC" "\<And>k. pf_fresh p k \<noteq> None"
    "boot_symbols (pf_mem_end p) (read_info (ram (sys_early s)) (pf_mbp p)) (sys_early s, sys_symbols s) = Inr (m, sy)"
    "bit (mb_flags i) 6" "bit (mb_flags i) 12" "framebuffer_ty i = 2"
    "4096 dvd pages" "66048 \<le> pages" "0x100000 + page_size * pages < 2 ^ 64"
    using boot by (simp_all add: one_region_boot_def Let_def i)
  have "\<exists>rs. mmap_chain (ram m) (pf_fresh p) (mmap_addr i) (mmap_length i) = Inr rs \<and> list_all2 region_of [e] rs \<and>
    r_chain_length (hd rs) = length [e] \<and>
    getMEMID (Some rs) mi = Inr (mi\<lparr>nEntries := length [e], totalSize := sum_list (map e_len [e]) mod 2 ^ 64\<rparr>)"
    by (rule memory_map_chain) (use b(2) e in simp_all)
  then obtain r where r: "mmap_chain (ram m) (pf_fresh p) (mmap_addr i) (mmap_length i) = Inr [r]" "region_of e r"
    "getMEMID (Some [r]) mi = Inr (mi\<lparr>nEntries := 1, totalSize := pages * page_size mod 2 ^ 64\<rparr>)"
    using e(4) by (auto simp: list_all2_Cons1)
  have "pages * page_size < 2 ^ 64" using b(9) by (simp add: mult.commute)
  then have id: "pages * page_size mod 2 ^ 64 = pages * page_size" by simp
  have "page_size * 1 \<le> page_size * pages" using b(8) by (intro mult_le_mono2) simp
  then have "kernel_region r pages"
    using r(2) e b(7-9) by (simp add: region_of_def kernel_region_def mult.commute)
  moreover obtain q where q: "mbootInit (pf_magic p) (ram m) (pf_mbp p) (pf_fresh p) (sys_boot s) = Inr q" "mmap q = Some [r]"
    "fb_type q = EGA_TEXT" "fb_width q = framebuffer_width i" "fb_height q = framebuffer_height i"
    using b(1,4-6) r(1) by (simp add: mbootInit_def boot_framebuffer_def fb_type_of_def Let_def i)
  moreover have "start_arch p s = Some (Inr (s\<lparr>sys_boot := q, sys_early := m\<lparr>ram := mem\<rparr>, sys_symbols := sy\<rparr>))"
    using b(1,3) q(1) gdt by (simp add: start_arch_def arch_init_def load_sys_detect_def initTSS_def)
  ultimately show ?thesis using r(3) unfolding id by blast
qed

text \<open>After \<open>vpage_init\<close> the next free virtual page has an entry of its own, and a free page follows: the heap will lie there.\<close>

definition heap_page_at :: "platform \<Rightarrow> system \<Rightarrow> u64 \<Rightarrow> bool" where
  "heap_page_at p s va \<longleftrightarrow>
     (\<exists>v a k. vpage_init (vp_vm (kpages (sys_memory s))) = Some (Inr v) \<and> next_free_vpage v = va \<and> self_mapped (vp_vm v) \<and>
        own_entry (vp_vm v) va a \<and> canonical va \<and> next_absent (vp_vm v) va a k) \<and>
     pf_tables_served p \<and> va \<noteq> 0 \<and> unat va + page_size < 2 ^ 64"

lemma start_memory_ok:
  assumes heap: "heap_page_at p s va" and boot: "mmap (sys_boot s) = Some [r]" "kernel_region r pages" "pf_mbp p + 116 \<le> 0x100000"
    and mi: "getMEMID (Some [r]) (sys_memid s) = Inr mi" "totalSize mi = pages * page_size"
  shows "\<exists>k. start_memory p s = Some (Inr (s\<lparr>sys_memid := mi, sys_memory := k\<rparr>)) \<and> MMU_enabled k \<and>
    kheap k = [first_header (unat va)] \<and> map r_size (regions (vm_pages (vp_vm (kpages k)))) = [pages * page_size]"
proof -
  obtain v a j where v: "vpage_init (vp_vm (kpages (sys_memory s))) = Some (Inr v)" "next_free_vpage v = va" "self_mapped (vp_vm v)"
    "own_entry (vp_vm v) va a" "canonical va" "next_absent (vp_vm v) va a j" and h: "pf_tables_served p" "va \<noteq> 0"
    using heap by (auto simp: heap_page_at_def)
  have size: "r_size r = pages * page_size" using boot(2) by (simp add: kernel_region_def)
  then have "totalSize mi \<le> r_size r" using mi(2) by simp
  from first_alloc_page [OF boot(2,3) this, of "pf_tables p" v] size obtain ps q where
    ps: "ppage_init (pf_mbp p) (totalSize mi) True (pf_tables p) [r] v = Some (Inr (ps, v))"
      "alloc_page ps = Inr (q, 0x100000)" "map r_size (regions q) = [pages * page_size]" by auto
  let ?v = "set_pages v ps"
  have "self_mapped (vp_vm ?v)" "own_entry (vp_vm ?v) (next_free_vpage ?v) a" "canonical (next_free_vpage ?v)"
    "next_absent (vp_vm ?v) (next_free_vpage ?v) a j" "alloc_page (vm_pages (vp_vm ?v)) = Inr (q, 4096 * 256)"
    using v(2-6) ps(2) by (simp_all add: set_pages_def self_mapped_def own_entry_def next_absent_def)
  from get_free_page_contract_aux [OF this] obtain v' where
    "get_free_page_u ?v = Some (Inr (v', next_free_vpage ?v))" "vm_pages (vp_vm v') = q" by auto
  then have v': "get_free_page_u ?v = Some (Inr (v', va))" "vm_pages (vp_vm v') = q" using v(2) by (simp_all add: set_pages_def)
  let ?k = "(sys_memory s)\<lparr>kheap := [first_header (unat va)], MMU_enabled := True,
    early := memstck_disable (stk (sys_early s)), kpages := v'\<rparr>"
  have "start_memory p s = Some (Inr (s\<lparr>sys_memid := mi, sys_memory := ?k\<rparr>))"
    using mi(1) boot(1) h v(1) ps(1) v'(1) by (simp add: start_memory_def mm_init_def)
  then show ?thesis using ps(3) v'(2) by (intro exI [of _ ?k]) simp
qed

lemma start_log_ok:
  assumes "fb_type (sys_boot s) = EGA_TEXT" and "proper_alloc (bytes_alloc e)" and "\<forall>m. bytes_alloc e m \<noteq> None"
    and "proper_cells (cells_alloc e)" and "e = pf_log p"
    and c: "c = (console_of (sys_log s))\<lparr>display_buffer := pf_cells p, width := fb_width (sys_boot s), height := fb_height (sys_boot s)\<rparr>"
    and "console_ok c"
  shows "\<exists>k. start_log p s = Some (Inr (s\<lparr>sys_log := k\<rparr>)) \<and> log_ready e k 0 \<and> same_display c (console_of k) \<and>
    screen_of (console_of k) = (replicate (width c * height c) (CharEntry c 0), 0)"
proof -
  from clear_screen_done [OF assms(7)] obtain d where
    d: "clear_screen c = Inr d" "same_display c d" "screen_of d = (replicate (width c * height c) (CharEntry c 0), 0)" by blast
  obtain a where a: "newArray (cells_alloc e) = Inr a" "array_ok a []" using newArray_ok [OF assms(4)] by blast
  have "console_area d" "0 < width d * height d"
    using same_display_area [OF d(2)] assms(7) by (auto simp: console_ok_def console_area_def)
  moreover have "cursor_pos d = 0" using d(3) by (simp add: screen_of_def)
  ultimately have "console_ok d" by (simp add: console_ok_def)
  moreover have "start_log p s = Some (Inr (s\<lparr>sys_log := (sys_log s)\<lparr>console_of := d, logs := a, printk_enabled := True\<rparr>\<rparr>))"
    using d(1) a(1) assms(1,5) by (simp add: start_log_def printk_init_def arch_printk_init_def c [symmetric])
  ultimately show ?thesis
    using d(2,3) a(2) assms(2-4)
    by (intro exI [of _ "(sys_log s)\<lparr>console_of := d, logs := a, printk_enabled := True\<rparr>"]) (simp add: log_ready_def)
qed

lemma start_report_ok:
  assumes "log_ready e (sys_log s) 0" and "max_level e = INFO" and "e = pf_log p"
    and "pf_build p = (version, name, domain)" and "\<forall>t \<in> {version, name, domain}. terminated t \<and> length (cstr t) \<le> 64"
    and "pf_cpuid p" and "id_apic (sys_cpuid s) = 0"
    and "map r_size (regions (vm_pages (vp_vm (kpages (sys_memory s))))) = [n]" and "n div 1024 mod 2 ^ 32 \<noteq> 0"
    and "nEntries (sys_memid s) = 1" and "totalSize (sys_memid s) = n" and "n div 1048576 mod 2 ^ 32 \<noteq> 0"
  shows "\<exists>cpu x k. start_report p s = Some (Inr (True, s\<lparr>sys_cpu := cpu, sys_cpuid := x, sys_log := k\<rparr>)) \<and>
    (vendor cpu = UNKNOWN \<longleftrightarrow> documented_vendor (cstr (CPUID_manufacturer (pf_name_leaf p))) = UNKNOWN) \<and>
    shows_text (console_of (sys_log s))
      (line (bytes_of ''Starting version '' @ cstr version @ [32] @ cstr name @ [45] @ cstr domain) @
       (if vendor cpu = UNKNOWN
        then line (bytes_of ''Couldn't detect CPU vendor! Disabling all vendor specific features.'') else []) @
       line (memory_text (sys_memid s))) (console_of k) \<and>
    (\<exists>j \<le> 5. log_ready e k j)"
proof -
  let ?rs = "regions (vm_pages (vp_vm (kpages (sys_memory s))))"
  obtain r where r: "?rs = [r]" "r_size r = n" using assms(8) by (auto simp: map_eq_Cons_conv)
  obtain eax edx ecx where f: "pf_feature_leaf p = (eax, edx, ecx)" by (cases "pf_feature_leaf p")
  have small: "0 + length ?rs + 4 < 2 ^ 60" using r(1) by simp
  have sizes: "\<forall>q \<in> set ?rs. r_size q div 1024 mod 2 ^ 32 \<noteq> 0" using r assms(9) by simp
  have m: "nEntries (sys_memid s) mod 2 ^ 32 \<noteq> 0" "totalSize (sys_memid s) div 1048576 mod 2 ^ 32 \<noteq> 0"
    using assms(10-12) by simp_all
  from startup_report_shows [OF assms(1,2) small assms(5,7) m sizes f, of "stop_with p s" "pf_name_leaf p" "sys_cpu s"]
  obtain cpu x k where "startup_report (version, name, domain) (logger_of e) (stop_with p s) True (pf_name_leaf p) (pf_feature_leaf p)
      (sys_memid s) ?rs (sys_cpu s) (sys_cpuid s) (sys_log s) = Some (Inr (True, cpu, x, k))"
    "vendor cpu = UNKNOWN \<longleftrightarrow> documented_vendor (cstr (CPUID_manufacturer (pf_name_leaf p))) = UNKNOWN"
    "shows_text (console_of (sys_log s))
      (line (bytes_of ''Starting version '' @ cstr version @ [32] @ cstr name @ [45] @ cstr domain) @
       (if vendor cpu = UNKNOWN
        then line (bytes_of ''Couldn't detect CPU vendor! Disabling all vendor specific features.'') else []) @
       line (memory_text (sys_memid s))) (console_of k)" "\<exists>j \<le> 0 + length ?rs + 4. log_ready e k j" by blast
  moreover from this(1) have "start_report p s = Some (Inr (True, s\<lparr>sys_cpu := cpu, sys_cpuid := x, sys_log := k\<rparr>))"
    using assms(3,4,6) by (simp add: start_report_def)
  ultimately show ?thesis using r(1) by (intro exI [of _ cpu] exI [of _ x] exI [of _ k]) simp
qed

lemma start_calls_ok:
  assumes "kheap (sys_memory s) = [first_header a]" and "a + page_size < 2 ^ 64" and "syscall_VT_length (sys_calls s) = 0"
  shows "\<exists>c. start_calls p s = Some (Inr (s\<lparr>sys_calls := c, sys_memory := (sys_memory s)\<lparr>kheap := sc_heap c\<rparr>\<rparr>)) \<and>
    sc_ok c \<and> sc_map c = [SYSCALL_SYC \<mapsto> pf_sc_fnc p]"
proof -
  let ?h = "[first_header a]" and ?c = "(sys_calls s)\<lparr>sc_heap := [first_header a]\<rparr>"
  have room: "list_ex (\<lambda>k. 1 \<le> h_size_max k) ?h" by (simp add: first_header_def)
  obtain h b where h: "kmalloc (pf_newpages p) ?h 1 = Inr (h, b)" and add: "\<And>mem. can_add (pf_newpages p) (empty_table h mem b)"
    by (simp add: kmalloc_def first_header_def header_alloc_def use_pointer_def findSize_max_def sub64_def Let_def
        can_add_def empty_table_def)
  have "can_add (pf_newpages p) (empty_table h' (sc_ram ?c) b')" if "kmalloc (pf_newpages p) ?h 1 = Inr (h', b')" for h' b'
    using that add unfolding h by simp
  from syscall_init_table [OF first_header_ok [OF assms(2)] room, of ?c, OF _ _ this] assms(3)
  obtain c where "syscall_init (pf_newpages p) (pf_sc_fnc p) ?c = Inr (c, 0)" "sc_ok c" "sc_map c = [SYSCALL_SYC \<mapsto> pf_sc_fnc p]"
    by auto
  then show ?thesis using assms(1) by (intro exI [of _ c]) (simp add: start_calls_def)
qed

lemma start_clock_ok:
  assumes "log_ready e (sys_log s) n" and "n + 1 < 2 ^ 60" and "e = pf_log p" and "data_reads (sys_clock s) = 0"
    and "\<not> bit (pf_rtc p j 0x0A) 7" and "\<And>i. i < j \<Longrightarrow> bit (pf_rtc p i 0x0A) 7"
  shows "\<exists>c. start_clock p s = Some (Inr (s\<lparr>sys_clock := c, sys_log := klog c\<rparr>)) \<and>
    interrupts_on c = interrupts_on (sys_clock s) \<and> logged e n (sys_log s) [(DEBUG, rtc_text, [])] (klog c)"
proof -
  let ?c = "(sys_clock s)\<lparr>klog := sys_log s\<rparr>"
  define c0 where "c0 = ?c\<lparr>nmi_state := pf_port70 p AND 0x80, ctime := zero_time\<rparr>"
  have c0: "nmi_state c0 \<in> {0, 0x80}" "data_reads c0 = 0" using top_bit_cases assms(4) by (simp_all add: c0_def)
  define c1 where "c1 = c0\<lparr>data_reads := j + 1\<rparr>"
  have wait: "wait_update (pf_rtc p) c0 = Some c1"
    using wait_update_ends [of "pf_rtc p" c0 j] c0 assms(5,6) by (simp add: c1_def)
  have c1: "nmi_state c1 \<in> {0, 0x80}" "data_reads c1 = j + 1" "klog c1 = sys_log s" "interrupts_on c1 = interrupts_on (sys_clock s)"
    using c0 by (simp_all add: c1_def c0_def)
  have "message_ok (DEBUG, rtc_text, [])" using texts_fit(3,4) by (simp add: message_ok_def printable_def)
  from log_one [OF assms(1,2) this] obtain k where
    k: "logger_of e DEBUG rtc_text [] (sys_log s) = Some (Inr k)" "logged e n (sys_log s) [(DEBUG, rtc_text, [])] k" by blast
  have "log_line e DEBUG rtc_text (sys_log s) = Some (Inr k)" using k(1) by (simp add: log_line_def logger_of_def)
  then have "\<exists>c. ktime_init (pf_rtc p) e (pf_port70 p) ?c = Some (Inr (c, 0)) \<and> klog c = k \<and>
      interrupts_on c = interrupts_on (sys_clock s)"
    using wait c1 by (simp add: ktime_init_def arch_time_init_def c0_def [symmetric] read_time_eq [OF c1(1,2)] on_log_def
        rtc_irq_init_time Let_def)
  then obtain c where "ktime_init (pf_rtc p) e (pf_port70 p) ?c = Some (Inr (c, 0))" "klog c = k"
    "interrupts_on c = interrupts_on (sys_clock s)" by blast
  then show ?thesis using k(2) assms(3) by (intro exI [of _ c]) (simp add: start_clock_def)
qed

section \<open>Up to the log, and on to the end\<close>

definition log_env_ok :: "log_env \<Rightarrow> bool" where
  "log_env_ok e \<longleftrightarrow> proper_alloc (bytes_alloc e) \<and> (\<forall>m. bytes_alloc e m \<noteq> None) \<and> proper_cells (cells_alloc e) \<and> max_level e = INFO"

definition boot_console :: "platform \<Rightarrow> system \<Rightarrow> multiboot_info \<Rightarrow> console" where
  "boot_console p s i = (console_of (sys_log s))\<lparr>display_buffer := pf_cells p, width := framebuffer_width i, height := framebuffer_height i\<rparr>"

lemma first_half:
  assumes boot: "one_region_boot p s m sy pages" and gdt: "initGDT (pf_gdtr p) (pf_tss p) (ram m) = Inr mem"
    and heap: "heap_page_at p s va" and log: "log_env_ok (pf_log p)"
    and c: "c = boot_console p s (read_info (ram m) (pf_mbp p))" "console_ok c"
  shows "\<exists>b k l. startup p s = start_rest p ((set_interrupts False s)\<lparr>sys_interrupt_enabled := False, sys_boot := b,
      sys_early := m\<lparr>ram := mem\<rparr>, sys_symbols := sy, sys_memid := (sys_memid s)\<lparr>nEntries := 1, totalSize := pages * page_size\<rparr>,
      sys_memory := k, sys_log := l\<rparr>) \<and>
    MMU_enabled k \<and> kheap k = [first_header (unat va)] \<and>
    map r_size (regions (vm_pages (vp_vm (kpages k)))) = [pages * page_size] \<and> log_ready (pf_log p) l 0 \<and>
    same_display c (console_of l) \<and> screen_of (console_of l) = (replicate (width c * height c) (CharEntry c 0), 0)"
proof -
  define s0 where "s0 = (set_interrupts False s)\<lparr>sys_interrupt_enabled := False\<rparr>"
  have s0: "one_region_boot p s0 m sy pages" "heap_page_at p s0 va" "sys_log s0 = sys_log s" "sys_memid s0 = sys_memid s"
    using boot heap by (simp_all add: s0_def set_interrupts_def one_region_boot_def heap_page_at_def)
  define mi where "mi = (sys_memid s)\<lparr>nEntries := 1, totalSize := pages * page_size\<rparr>"
  obtain b r where b: "start_arch p s0 = Some (Inr (s0\<lparr>sys_boot := b, sys_early := m\<lparr>ram := mem\<rparr>, sys_symbols := sy\<rparr>))"
    "mmap b = Some [r]" "kernel_region r pages" "fb_type b = EGA_TEXT"
    "fb_width b = framebuffer_width (read_info (ram m) (pf_mbp p))" "fb_height b = framebuffer_height (read_info (ram m) (pf_mbp p))"
    "getMEMID (Some [r]) (sys_memid s) = Inr mi"
    using start_arch_ok [OF s0(1) gdt refl, of "sys_memid s"] unfolding mi_def by blast
  define s1 where "s1 = s0\<lparr>sys_boot := b, sys_early := m\<lparr>ram := mem\<rparr>, sys_symbols := sy\<rparr>"
  have mbp: "pf_mbp p + 116 \<le> 0x100000" using boot by (simp add: one_region_boot_def Let_def)
  have "heap_page_at p s1 va" "mmap (sys_boot s1) = Some [r]" "getMEMID (Some [r]) (sys_memid s1) = Inr mi" "totalSize mi = pages * page_size"
    using s0(2,4) b(2,7) by (simp_all add: s1_def heap_page_at_def mi_def)
  from start_memory_ok [OF this(1,2) b(3) mbp this(3,4)] obtain k where
    k: "start_memory p s1 = Some (Inr (s1\<lparr>sys_memid := mi, sys_memory := k\<rparr>))" "MMU_enabled k"
      "kheap k = [first_header (unat va)]" "map r_size (regions (vm_pages (vp_vm (kpages k)))) = [pages * page_size]"
    by (elim exE conjE) (rule that; assumption)
  define s2 where "s2 = s1\<lparr>sys_memid := mi, sys_memory := k\<rparr>"
  have c2: "c = (console_of (sys_log s2))\<lparr>display_buffer := pf_cells p, width := fb_width (sys_boot s2), height := fb_height (sys_boot s2)\<rparr>"
    and fb: "fb_type (sys_boot s2) = EGA_TEXT"
    using b(4-6) c(1) s0(3) by (simp_all add: s2_def s1_def boot_console_def)
  from start_log_ok [OF fb _ _ _ refl c2 c(2)] log obtain l where
    l: "start_log p s2 = Some (Inr (s2\<lparr>sys_log := l\<rparr>))" "log_ready (pf_log p) l 0" "same_display c (console_of l)"
      "screen_of (console_of l) = (replicate (width c * height c) (CharEntry c 0), 0)" by (auto simp: log_env_ok_def)
  have "startup p s = start_rest p (s2\<lparr>sys_log := l\<rparr>)"
    using b(1) k(1) l(1) unfolding s1_def [symmetric] s2_def [symmetric]
    by (simp add: startup_def s0_def [symmetric] Let_def)
  then show ?thesis
    using k(2-4) l(2-4) by (intro exI [of _ b] exI [of _ k] exI [of _ l]) (simp add: s2_def s1_def s0_def mi_def)
qed

text \<open>What the rest of the start needs of the platform and of the variables that nothing has touched yet.\<close>

definition rest_ready :: "platform \<Rightarrow> system \<Rightarrow> nat \<Rightarrow> nat list \<Rightarrow> bool" where
  "rest_ready p s n rs \<longleftrightarrow> (case pf_build p of (version, name, domain) \<Rightarrow>
        \<forall>t \<in> {version, name, domain}. terminated t \<and> length (cstr t) \<le> 64) \<and>
     pf_cpuid p \<and> id_apic (sys_cpuid s) = 0 \<and> n div 1024 mod 2 ^ 32 \<noteq> 0 \<and> n div 1048576 mod 2 ^ 32 \<noteq> 0 \<and>
     31 < pf_syscall_isr p \<and> \<not> (IRQ_start \<le> pf_syscall_isr p \<and> unat (pf_syscall_isr p) < unat IRQ_start + 16) \<and>
     syscall_VT_length (sys_calls s) = 0 \<and> data_reads (sys_clock s) = 0 \<and> (\<exists>j. \<not> bit (pf_rtc p j 0x0A) 7) \<and> length rs < 2 ^ 59"

definition trace_ready :: "platform \<Rightarrow> (nat \<Rightarrow> u8) \<Rightarrow> elf_symbols \<Rightarrow> nat list \<Rightarrow> bool" where
  "trace_ready p mem sy rs \<longleftrightarrow> frames mem (pf_frame p) rs \<and> (\<forall>r \<in> set rs. terminated (trace_name mem sy (TraceName mem sy r)) \<and>
     length (cstr (trace_name mem sy (TraceName mem sy r))) \<le> 64)"

definition report_text :: "platform \<Rightarrow> MEMID \<Rightarrow> u8 list" where
  "report_text p mi =
     (case pf_build p of (version, name, domain) \<Rightarrow>
        line (bytes_of ''Starting version '' @ cstr version @ [32] @ cstr name @ [45] @ cstr domain) @
        (if documented_vendor (cstr (CPUID_manufacturer (pf_name_leaf p))) = UNKNOWN
         then line (bytes_of ''Couldn't detect CPU vendor! Disabling all vendor specific features.'') else []) @
        line (memory_text mi))"

definition end_text :: "platform \<Rightarrow> (nat \<Rightarrow> u8) \<Rightarrow> elf_symbols \<Rightarrow> nat list \<Rightarrow> u8 list" where
  "end_text p mem sy rs =
     line (bytes_of ''The system kernel has encountered a panic!'') @
     line (bytes_of ''Error message: System reached end of startup function!'') @
     (if pf_kdebug p then line (bytes_of ''Stack trace (most recent call first):'') @ concat (map (trace_text mem sy) rs) else []) @
     line (bytes_of ''System suspended'')"

lemma stop_here_ok:
  assumes "trace_ready p (ram (sys_early s)) (sys_symbols s) rs" and "max_level (pf_log p) = INFO"
    and "log_ready (pf_log p) (sys_log s) n" and "n + length rs + 8 < 2 ^ 60"
  shows "\<exists>k. stop_here p (literal ''System reached end of startup function!'') s = Some (Inr (s\<lparr>sys_log := k\<rparr>)) \<and>
    shows_text (console_of (sys_log s)) (end_text p (ram (sys_early s)) (sys_symbols s) rs) (console_of k)"
proof -
  let ?msg = "''System reached end of startup function!''" and ?mem = "ram (sys_early s)" and ?sy = "sys_symbols s"
  have msg: "terminated (literal ?msg)" "cstr (literal ?msg) = bytes_of ?msg" by (simp_all add: literal_string)
  have len: "length (cstr (literal ?msg)) \<le> 64" by (simp add: msg(2)) (simp add: bytes_of_def)
  have join: "bytes_of ''Error message: '' @ bytes_of ?msg = bytes_of ''Error message: System reached end of startup function!''"
    by (simp add: bytes_of_def)
  from panic_text [OF msg(1) len _ _ assms(2,4,3), of ?mem "pf_frame p" ?sy "pf_kdebug p"] assms(1)
  obtain k where "stop_with p s (literal ?msg) (sys_log s) = Some (Inr k)"
    "shows_text (console_of (sys_log s)) (end_text p ?mem ?sy rs) (console_of k)"
    unfolding trace_ready_def end_text_def stop_with_def msg(2) join by blast
  then show ?thesis by (intro exI [of _ k]) (simp add: stop_here_def)
qed

lemma clock_and_stop:
  assumes "trace_ready p (ram (sys_early s)) (sys_symbols s) rs" and info: "max_level (pf_log p) = INFO"
    and "log_ready (pf_log p) (sys_log s) j" and "j + length rs + 9 < 2 ^ 60" and "interrupts_on (sys_clock s)"
    and "data_reads (sys_clock s) = 0" and "\<exists>j. \<not> bit (pf_rtc p j 0x0A) 7"
  shows "\<exists>t l. then_do (start_clock p s) (stop_here p (literal ''System reached end of startup function!'')) =
      Some (Inr (s\<lparr>sys_clock := t, sys_log := l\<rparr>)) \<and> interrupts_on t \<and>
    shows_text (console_of (sys_log s)) (end_text p (ram (sys_early s)) (sys_symbols s) rs) (console_of l)"
proof -
  define i where "i = (LEAST j. \<not> bit (pf_rtc p j 0x0A) 7)"
  have i: "\<not> bit (pf_rtc p i 0x0A) 7" "\<And>j. j < i \<Longrightarrow> bit (pf_rtc p j 0x0A) 7"
    unfolding i_def using LeastI_ex [OF assms(7)] not_less_Least by blast+
  have "j + 1 < 2 ^ 60" using assms(4) by simp
  from start_clock_ok [OF assms(3) this refl assms(6) i] obtain t where
    t: "start_clock p s = Some (Inr (s\<lparr>sys_clock := t, sys_log := klog t\<rparr>))" "interrupts_on t = interrupts_on (sys_clock s)"
      "logged (pf_log p) j (sys_log s) [(DEBUG, rtc_text, [])] (klog t)" by blast
  define s4 where "s4 = s\<lparr>sys_clock := t, sys_log := klog t\<rparr>"
  have s4: "sys_log s4 = klog t" "sys_early s4 = sys_early s" "sys_symbols s4 = sys_symbols s" by (simp_all add: s4_def)
  have quiet: "shown INFO [(DEBUG, rtc_text, [])] = []" by (simp add: less_eq_Log_Level_def)
  have t': "log_ready (pf_log p) (sys_log s4) (j + 1)" "shows_text (console_of (sys_log s)) [] (console_of (klog t))"
    using t(3) info quiet by (simp_all add: logged_def s4(1))
  have "trace_ready p (ram (sys_early s4)) (sys_symbols s4) rs" "j + 1 + length rs + 8 < 2 ^ 60"
    using assms(1,4) s4 by simp_all
  from stop_here_ok [OF this(1) info t'(1) this(2)] obtain l where
    l: "stop_here p (literal ''System reached end of startup function!'') s4 = Some (Inr (s4\<lparr>sys_log := l\<rparr>))"
      "shows_text (console_of (klog t)) (end_text p (ram (sys_early s)) (sys_symbols s) rs) (console_of l)" unfolding s4 by blast
  have "shows_text (console_of (sys_log s)) ([] @ end_text p (ram (sys_early s)) (sys_symbols s) rs) (console_of l)"
    by (rule shows_text_trans [OF t'(2) l(2)])
  then show ?thesis
    using t(1,2) l(1) assms(5) by (intro exI [of _ t] exI [of _ l]) (simp add: s4_def)
qed

lemma second_half:
  assumes ready: "rest_ready p s n rs" "trace_ready p (ram (sys_early s)) (sys_symbols s) rs"
    and log: "log_ready (pf_log p) (sys_log s) 0" "log_env_ok (pf_log p)"
    and heap: "kheap (sys_memory s) = [first_header a]" "a + page_size < 2 ^ 64"
    and chain: "map r_size (regions (vm_pages (vp_vm (kpages (sys_memory s))))) = [n]"
    and memid: "nEntries (sys_memid s) = 1" "totalSize (sys_memid s) = n"
  shows "\<exists>u. start_rest p s = Some (Inr u) \<and> interrupts_on (sys_clock u) \<and> sys_interrupt_enabled u = sys_interrupt_enabled s \<and>
    MMU_enabled (sys_memory u) = MMU_enabled (sys_memory s) \<and> kheap (sys_memory u) = sc_heap (sys_calls u) \<and>
    sc_ok (sys_calls u) \<and> sc_map (sys_calls u) = [SYSCALL_SYC \<mapsto> pf_sc_fnc p] \<and>
    loaded (sys_irqs u) \<and> IDT (sys_irqs u) = idt_map (pf_syscall_isr p) (pf_handlers p) (IDT (sys_irqs s)) \<and>
    shows_text (console_of (sys_log s)) (report_text p (sys_memid s) @ end_text p (ram (sys_early s)) (sys_symbols s) rs)
      (console_of (sys_log u))"
proof -
  obtain version name domain where build: "pf_build p = (version, name, domain)" by (cases "pf_build p")
  have r: "\<forall>t \<in> {version, name, domain}. terminated t \<and> length (cstr t) \<le> 64" "pf_cpuid p" "id_apic (sys_cpuid s) = 0"
    "n div 1024 mod 2 ^ 32 \<noteq> 0" "n div 1048576 mod 2 ^ 32 \<noteq> 0" "31 < pf_syscall_isr p"
    "\<not> (IRQ_start \<le> pf_syscall_isr p \<and> unat (pf_syscall_isr p) < unat IRQ_start + 16)"
    "syscall_VT_length (sys_calls s) = 0" "data_reads (sys_clock s) = 0" "\<exists>j. \<not> bit (pf_rtc p j 0x0A) 7" "length rs < 2 ^ 59"
    using ready(1) unfolding rest_ready_def build prod.case by blast+
  have info: "max_level (pf_log p) = INFO" using log(2) by (simp add: log_env_ok_def)
  from start_report_ok [OF log(1) info refl build r(1-3) chain r(4) memid r(5)] obtain cpu x k j where
    k: "start_report p s = Some (Inr (True, s\<lparr>sys_cpu := cpu, sys_cpuid := x, sys_log := k\<rparr>))"
      "shows_text (console_of (sys_log s)) (report_text p (sys_memid s)) (console_of k)" "log_ready (pf_log p) k j" "j \<le> 5"
    unfolding report_text_def build by fastforce
  define s1 where "s1 = s\<lparr>sys_cpu := cpu, sys_cpuid := x, sys_log := k\<rparr>"
  obtain q where q: "start_interrupts p s1 = Some (Inr (s1\<lparr>sys_irqs := q\<rparr>))" "loaded q"
    "IDT q = idt_map (pf_syscall_isr p) (pf_handlers p) (IDT (sys_irqs s))"
    using interrupt_init_eq [OF r(6,7), of "pf_apic p" "pf_handlers p" "pf_idt p" "sys_irqs s1"]
    by (auto simp: start_interrupts_def s1_def)
  define s2 where "s2 = s1\<lparr>sys_irqs := q\<rparr>"
  obtain c where c: "start_calls p s2 = Some (Inr (s2\<lparr>sys_calls := c, sys_memory := (sys_memory s2)\<lparr>kheap := sc_heap c\<rparr>\<rparr>))"
    "sc_ok c" "sc_map c = [SYSCALL_SYC \<mapsto> pf_sc_fnc p]"
    using start_calls_ok [of s2 a p] heap r(8) by (auto simp: s2_def s1_def)
  define s3 where "s3 = set_interrupts True (s2\<lparr>sys_calls := c, sys_memory := (sys_memory s2)\<lparr>kheap := sc_heap c\<rparr>\<rparr>)"
  have s3: "sys_log s3 = k" "sys_early s3 = sys_early s" "sys_symbols s3 = sys_symbols s" "interrupts_on (sys_clock s3)"
    "data_reads (sys_clock s3) = 0"
    using r(9) by (simp_all add: s3_def s2_def s1_def set_interrupts_def)
  have "trace_ready p (ram (sys_early s3)) (sys_symbols s3) rs" "log_ready (pf_log p) (sys_log s3) j" "j + length rs + 9 < 2 ^ 60"
    using ready(2) r(11) k(3,4) s3 by simp_all
  from clock_and_stop [OF this(1) info this(2,3) s3(4,5) r(10)] obtain t l where
    t: "then_do (start_clock p s3) (stop_here p (literal ''System reached end of startup function!'')) =
      Some (Inr (s3\<lparr>sys_clock := t, sys_log := l\<rparr>))" "interrupts_on t"
      "shows_text (console_of k) (end_text p (ram (sys_early s)) (sys_symbols s) rs) (console_of l)" unfolding s3(1-3) by blast
  have "start_rest p s = Some (Inr (s3\<lparr>sys_clock := t, sys_log := l\<rparr>))"
    using k(1) q(1) c(1) t(1)
    by (simp add: start_rest_def s1_def [symmetric] s2_def [symmetric] s3_def [symmetric])
  moreover note shows_text_trans [OF k(2) t(3)]
  ultimately show ?thesis using q(2,3) c(2,3) t(2)
    by (intro exI [of _ "s3\<lparr>sys_clock := t, sys_log := l\<rparr>"]) (simp add: s3_def s2_def s1_def set_interrupts_def)
qed


section \<open>A machine that starts\<close>

text \<open>What the boot loader left at 0x9500, with a memory map of one entry at 0x9600: 272 MiB from 1 MiB on.\<close>

definition demo_ram :: "nat \<Rightarrow> u8" where
  "demo_ram = (\<lambda>_. 0)(0x9500 := 0x40, 0x9501 := 0x10, 0x952C := 24, 0x9531 := 0x96, 0x9564 := 80, 0x9568 := 25, 0x956D := 2,
     0x9600 := 20, 0x9606 := 0x10, 0x960F := 0x11, 0x9614 := 1)"

definition demo_platform :: platform where
  "demo_platform = \<lparr>pf_mem_end = 0x120000, pf_magic = MULTIBOOT_BOOTLOADER_MAGIC, pf_mbp = 0x9500, pf_fresh = (\<lambda>_. Some demo_junk),
     pf_gdtr = (47, 0x8000), pf_tss = 0x110000, pf_tables_served = True, pf_tables = (\<lambda>_ _. 0), pf_cells = replicate 2000 0,
     pf_log = demo_env, pf_build = (literal ''1'', literal ''a'', literal ''b''), pf_kdebug = True, pf_cpuid = True,
     pf_name_leaf = (0, 0, 0), pf_feature_leaf = (0, 0, 0), pf_apic = False, pf_handlers = demo_handlers, pf_syscall_isr = 128,
     pf_idt = 0x105000, pf_newpages = (\<lambda>_. 0), pf_sc_fnc = 0x101000, pf_rtc = (\<lambda>_ _. 0), pf_port70 = 0, pf_frame = 0\<rparr>"

definition demo_start :: system where
  "demo_start = \<lparr>sys_interrupt_enabled = True,
     sys_boot = \<lparr>elf_sh = None, elf_sh_length = 0, fb_type = EGA_TEXT, fb_address = 0, fb_width = 0, fb_height = 0, mmap = None\<rparr>,
     sys_early = \<lparr>ram = demo_ram, stk = \<lparr>MemStack_init = False, MemStack_enable = True, MemStack = 0\<rparr>\<rparr>,
     sys_symbols = \<lparr>elf_sym = 0, elf_sym_size = 0, elf_str = 0, elf_str_size = 0\<rparr>,
     sys_memid = \<lparr>enabled = False, nEntries = 0, totalSize = 0\<rparr>,
     sys_memory = started_kernel\<lparr>kpages := \<lparr>vp_vm = start_vm, next_free_vpage = 0\<rparr>\<rparr>,
     sys_log = demo_log\<lparr>printk_enabled := False\<rparr>,
     sys_cpu = \<lparr>cpu_enabled = False, asp = False, vendor = AMD, isVM = False\<rparr>,
     sys_cpuid = \<lparr>vendor_string = replicate 12 0, id_apic = 0, FI_EDX = 0, FI_ECX = 0\<rparr>,
     sys_irqs = demo_irq_system, sys_calls = empty_table [] (\<lambda>_. 0) 0, sys_clock = demo_clock\<rparr>"

lemma demo_info:
  "mb_flags (read_info demo_ram 0x9500) = 0x1040" "mmap_length (read_info demo_ram 0x9500) = 24"
  "mmap_addr (read_info demo_ram 0x9500) = 0x9600" "framebuffer_width (read_info demo_ram 0x9500) = 80"
  "framebuffer_height (read_info demo_ram 0x9500) = 25" "framebuffer_ty (read_info demo_ram 0x9500) = 2"
  "read_entry demo_ram 0x9600 = \<lparr>e_size = 20, e_addr = 0x100000, e_len = 0x11000000, e_type = 1\<rparr>"
  by (simp_all add: read_info_def read_entry_def rd_def demo_ram_def upt_conv_Cons)

lemma demo_boot:
  "one_region_boot demo_platform demo_start (sys_early demo_start) (sys_symbols demo_start) 69632"
proof -
  let ?i = "read_info demo_ram 0x9500"
  have bits: "bit (mb_flags ?i) 6" "bit (mb_flags ?i) 12" "\<not> bit (mb_flags ?i) 5" by (simp_all add: demo_info(1))
  have "entries_at demo_ram (mmap_addr ?i) [read_entry demo_ram 0x9600] (mmap_addr ?i + mmap_length ?i)"
    by (simp add: demo_info)
  then have "\<exists>e. entries_at demo_ram (mmap_addr ?i) [e] (mmap_addr ?i + mmap_length ?i) \<and>
      e_type e = 1 \<and> e_addr e = 0x100000 \<and> e_len e = 69632 * page_size"
    by (intro exI [of _ "read_entry demo_ram 0x9600"]) (simp add: demo_info(7))
  with bits demo_info(6) show ?thesis
    by (simp add: one_region_boot_def demo_platform_def demo_start_def boot_symbols_def Let_def)
qed

lemma demo_heap_page: "heap_page_at demo_platform demo_start 0x200000"
  using vpage_init_start started_ok
  by (auto simp: heap_page_at_def demo_platform_def demo_start_def started_kernel_def started_vpages_def canonical_def
      intro!: exI [of _ started_vpages])

lemma demo_rest: "rest_ready demo_platform demo_start (69632 * page_size) []"
proof -
  have "\<forall>t \<in> {literal ''1'', literal ''a'', literal ''b''}. terminated t \<and> length (cstr t) \<le> 64"
    by (simp add: literal_string) (simp add: bytes_of_def)
  then show ?thesis
    by (simp add: rest_ready_def demo_platform_def demo_start_def IRQ_start_def empty_table_def demo_clock_def)
qed

lemma demo_report:
  "report_text demo_platform ((sys_memid demo_start)\<lparr>nEntries := 1, totalSize := 69632 * page_size\<rparr>) =
     line (bytes_of ''Starting version 1 a-b'') @
     line (bytes_of ''Couldn't detect CPU vendor! Disabling all vendor specific features.'') @
     line (bytes_of ''Detected memory: 1 sections, 272 MiB total'')"
proof -
  have name: "documented_vendor (cstr (CPUID_manufacturer (0, 0, 0))) = UNKNOWN"
    by (simp add: CPUID_manufacturer_def word_bytes_def upt_rec cstr_def documented_vendor_def bytes_of_def)
  have out: "memory_text ((sys_memid demo_start)\<lparr>nEntries := 1, totalSize := 69632 * page_size\<rparr>) =
      bytes_of ''Detected memory: 1 sections, 272 MiB total''"
    by (simp add: memory_text_def dec_string_def digits_numeral digits_Cons [of "Suc 0" 10] digit_char_def bytes_of_def)
  have ver: "bytes_of ''Starting version '' @ cstr (literal ''1'') @ [32] @ cstr (literal ''a'') @ [45] @ cstr (literal ''b'') =
      bytes_of ''Starting version 1 a-b''"
    by (simp add: literal_string) (simp add: bytes_of_def)
  have p: "pf_build demo_platform = (literal ''1'', literal ''a'', literal ''b'')" "pf_name_leaf demo_platform = (0, 0, 0)"
    by (simp_all add: demo_platform_def)
  show ?thesis unfolding report_text_def p prod.case out ver name by simp
qed

end
