(* ===== verification/Interrupt_Stubs.thy ===== *)
theory Interrupt_Stubs
  imports Idt Clock
begin

text \<open>
  The entry points of interrupts and exceptions, arch/X86_64/interrupts/isr.asm, instruction by instruction. What the
  processor pushes when it enters them, and the C functions they call, with the chips and the clock those
  act on; of a C function the rules of the calling convention are known, and not what it leaves in the
  registers that belong to it.
\<close>

section \<open>The processor\<close>

datatype reg = RAX | RCX | RDX | RBX | RBP | RSI | RDI | R8 | R9 | R10 | R11 | R12 | R13 | R14 | R15

definition callee_saved :: "reg set" where
  "callee_saved = {RBX, RBP, R12, R13, R14, R15}"

datatype c_function = F_IC_SOI | F_IC_EOI | F_read_serial | F_ms_update

datatype instr = Push reg | Pop reg | Mov reg u64 | Load_irqCount reg | Inc reg | Store_irqCount reg | Call c_function | Iretq

record line_world =
  chips :: machine
  irq_spurious :: nat
  timer :: clock

record processor =
  regs :: "reg \<Rightarrow> u64"
  stack :: "u64 list"
  world :: line_world

text \<open>
  What the compiled C code contributes: the values it leaves in registers, the address a call returns to
  and what lies above it on the stack at the \<open>iretq\<close> of \<open>PIC_SOI\<close>.
\<close>

record c_code =
  leaves :: "c_function \<Rightarrow> processor \<Rightarrow> reg \<Rightarrow> u64"
  return_address :: u64
  soi_frame :: "u64 list"
  chip_rtc :: rtc
  log_with :: log_env

text \<open>The functions, with the first argument in \<open>RDI\<close>; whether the function ends in an \<open>iretq\<close> of its own.\<close>

fun c_effect :: "c_code \<Rightarrow> c_function \<Rightarrow> u64 \<Rightarrow> line_world \<Rightarrow> (line_world \<times> bool) res option" where
  "c_effect c F_IC_SOI a w =
     (case IC_SOI PIC (ucast a) (irq_spurious w) (chips w) of (m, n, b) \<Rightarrow>
        Some (Inr (w\<lparr>chips := m, irq_spurious := n\<rparr>, b)))"
| "c_effect c F_IC_EOI a w = Some (Inr (w\<lparr>chips := IC_EOI PIC (ucast a) (chips w)\<rparr>, False))"
| "c_effect c F_read_serial a w = Some (Inr (w, False))"
| "c_effect c F_ms_update a w =
     (case ms_update (chip_rtc c) (log_with c) (timer w) of None \<Rightarrow> None | Some (Inl e) \<Rightarrow> Some (Inl e)
      | Some (Inr t) \<Rightarrow> Some (Inr (w\<lparr>timer := t\<rparr>, False)))"

text \<open>\<open>iretq\<close> takes \<open>RIP\<close>, \<open>CS\<close>, \<open>RFLAGS\<close>, \<open>RSP\<close> and \<open>SS\<close> from the stack; they are the second component of the result.\<close>

definition iret :: "processor \<Rightarrow> (processor \<times> u64 list) res" where
  "iret p = (if length (stack p) < 5 then Inl OutOfBounds else Inr (p\<lparr>stack := drop 5 (stack p)\<rparr>, take 5 (stack p)))"

fun run :: "c_code \<Rightarrow> instr list \<Rightarrow> processor \<Rightarrow> (processor \<times> u64 list) res option" where
  "run c [] p = Some (Inl OutOfBounds)"
| "run c (Push r # is) p = run c is (p\<lparr>stack := regs p r # stack p\<rparr>)"
| "run c (Pop r # is) p =
     (case stack p of [] \<Rightarrow> Some (Inl OutOfBounds)
      | x # st \<Rightarrow> run c is (p\<lparr>regs := (regs p)(r := x), stack := st\<rparr>))"
| "run c (Mov r v # is) p = run c is (p\<lparr>regs := (regs p)(r := v)\<rparr>)"
| "run c (Load_irqCount r # is) p = run c is (p\<lparr>regs := (regs p)(r := word_of_nat (irqCount (timer (world p))))\<rparr>)"
| "run c (Inc r # is) p = run c is (p\<lparr>regs := (regs p)(r := regs p r + 1)\<rparr>)"
| "run c (Store_irqCount r # is) p =
     run c is (p\<lparr>world := (world p)\<lparr>timer := (timer (world p))\<lparr>irqCount := unat (regs p r)\<rparr>\<rparr>\<rparr>)"
| "run c (Call f # is) p =
     (case c_effect c f (regs p RDI) (world p) of None \<Rightarrow> None | Some (Inl e) \<Rightarrow> Some (Inl e)
      | Some (Inr (w, False)) \<Rightarrow>
          run c is (p\<lparr>world := w, regs := (\<lambda>r. if r \<in> callee_saved then regs p r else leaves c f p r)\<rparr>)
      | Some (Inr (w, True)) \<Rightarrow>
          Some (iret (p\<lparr>world := w, regs := leaves c f p, stack := soi_frame c @ return_address c # stack p\<rparr>)))"
| "run c (Iretq # is) p = Some (iret p)"

section \<open>The code\<close>

definition SOI :: "nat \<Rightarrow> instr list" where
  "SOI n = [Push RDI, Mov RDI (word_of_nat n), Call F_IC_SOI, Pop RDI]"

definition EOI :: "nat \<Rightarrow> instr list" where
  "EOI n = [Push RDI, Mov RDI (word_of_nat n), Call F_IC_EOI, Pop RDI]"

definition irq_body :: "nat \<Rightarrow> instr list" where
  "irq_body n =
     (if n = 4 then [Call F_read_serial]
      else if n = 8 then [Load_irqCount RAX, Inc RAX, Store_irqCount RAX, Call F_ms_update]
      else [])"

definition irq_stub :: "nat \<Rightarrow> instr list" where
  "irq_stub n = SOI n @ irq_body n @ EOI n @ [Iretq]"

definition exc_stub :: "nat \<Rightarrow> instr list" where
  "exc_stub n = (if n = 13 then [Pop RAX, Iretq] else [Iretq])"

definition syscall_stub :: "instr list" where
  "syscall_stub = [Push RBX, Push RBP, Push R12, Push R13, Push R14, Push R15,
     Pop R15, Pop R14, Pop R13, Pop R12, Pop RBP, Pop RBX, Iretq]"

definition isr_spurious_stub :: "instr list" where
  "isr_spurious_stub = [Iretq]"

section \<open>Entering and leaving\<close>

text \<open>
  At an interrupt the processor pushes where it was, \<open>frame\<close>, and for some exceptions a code on top. Before, it
  aligns the stack pointer; \<open>RSP\<close> is part of the frame, so the words in between are left out.
\<close>

definition has_error_code :: "nat \<Rightarrow> bool" where
  "has_error_code v \<longleftrightarrow> v \<in> {8, 10, 11, 12, 13, 14, 17, 30}"

definition enter :: "nat \<Rightarrow> u64 \<Rightarrow> u64 list \<Rightarrow> processor \<Rightarrow> processor" where
  "enter v code frame p = p\<lparr>stack := (if has_error_code v then [code] else []) @ frame @ stack p\<rparr>"

lemma not_saved [simp]: "RDI \<notin> callee_saved" "RAX \<notin> callee_saved"
  by (simp_all add: callee_saved_def)

lemma low_byte: "n < 16 \<Longrightarrow> ucast (word_of_nat n :: u64) = (word_of_nat n :: u8)"
  by (simp add: word_unat_eq_iff unsigned_ucast_eq unsigned_of_nat take_bit_nat_eq_self)

lemma run_SOI:
  assumes "n < 16" and "PIC_SOI (word_of_nat n) (irq_spurious (world p)) (chips (world p)) = (m, k, False)"
  shows "\<exists>g. run c (SOI n @ is) p = run c is (p\<lparr>world := (world p)\<lparr>chips := m, irq_spurious := k\<rparr>, regs := g\<rparr>) \<and>
    g RDI = regs p RDI \<and> (\<forall>r \<in> callee_saved. g r = regs p r)"
  using assms by (auto simp: SOI_def IC_SOI_def low_byte)

lemma run_EOI:
  assumes "n < 16"
  shows "\<exists>g. run c (EOI n @ is) p = run c is (p\<lparr>world := (world p)\<lparr>chips := PIC_EOI (word_of_nat n) (chips (world p))\<rparr>, regs := g\<rparr>) \<and>
    g RDI = regs p RDI \<and> (\<forall>r \<in> callee_saved. g r = regs p r)"
  using assms by (auto simp: EOI_def IC_EOI_def low_byte)

lemma run_body:
  assumes "if n = 8 then irq_8 (chip_rtc c) (log_with c) (timer (world p)) = Some (Inr t) else t = timer (world p)"
  shows "\<exists>g. run c (irq_body n @ is) p = run c is (p\<lparr>world := (world p)\<lparr>timer := t\<rparr>, regs := g\<rparr>) \<and>
    (n \<notin> {4, 8} \<longrightarrow> g RDI = regs p RDI) \<and> (\<forall>r \<in> callee_saved. g r = regs p r)"
proof -
  consider "n = 4" | "n = 8" | "n \<notin> {4, 8}" by blast
  then show ?thesis
  proof cases
    case 2
    let ?x = "word_of_nat (irqCount (timer (world p))) + 1 :: u64"
    let ?q = "p\<lparr>regs := (regs p)(RAX := ?x), world := (world p)\<lparr>timer := (timer (world p))\<lparr>irqCount := unat ?x\<rparr>\<rparr>\<rparr>"
    have "unat ?x = add64 (irqCount (timer (world p))) 1"
      by (simp add: unat_word_ariths unsigned_of_nat take_bit_eq_mod add64_def mod_simps)
    then show ?thesis
      using assms 2
      by (intro exI [of _ "\<lambda>r. if r \<in> callee_saved then regs ?q r else leaves c F_ms_update ?q r"])
        (auto simp: irq_body_def irq_8_def cong: if_cong)
  qed (use assms in \<open>auto simp: irq_body_def intro: exI [of _ "regs p"]\<close>)
qed

lemma irq_stub_normal:
  assumes "n < 16" and "n \<notin> {7, 15}" and "deliverable m n" and frame: "length frame = 5"
    and w: "world p = \<lparr>chips = take_irq n m, irq_spurious = k, timer = t\<rparr>"
    and t': "if n = 8 then irq_8 (chip_rtc c) (log_with c) t = Some (Inr t') else t' = t"
  shows "\<exists>q. run c (irq_stub n) (enter (100 + n) 0 frame p) = Some (Inr (q, frame)) \<and> stack q = stack p \<and>
    (\<forall>r \<in> callee_saved. regs q r = regs p r) \<and> (n \<notin> {4, 8} \<longrightarrow> regs q RDI = regs p RDI) \<and>
    world q = \<lparr>chips = m, irq_spurious = k, timer = t'\<rparr>"
proof -
  define p0 where "p0 = p\<lparr>stack := frame @ stack p\<rparr>"
  have enter: "enter (100 + n) 0 frame p = p0" by (simp add: enter_def has_error_code_def p0_def)
  have no: "(word_of_nat n :: u8) \<noteq> 7" "(word_of_nat n :: u8) \<noteq> 15"
    using assms(1,2) by (auto simp: word_unat_eq_iff unat_of_nat)
  then have "PIC_SOI (word_of_nat n) (irq_spurious (world p0)) (chips (world p0)) = (take_irq n m, k, False)"
    by (simp add: PIC_SOI_def p0_def w)
  note soi = run_SOI [OF assms(1) this, of c "irq_body n @ EOI n @ [Iretq]"]
  define w1 where "w1 = (world p0)\<lparr>chips := take_irq n m, irq_spurious := k\<rparr>"
  obtain g1 where g1: "run c (irq_stub n) p0 = run c (irq_body n @ EOI n @ [Iretq]) (p0\<lparr>world := w1, regs := g1\<rparr>)"
    "g1 RDI = regs p0 RDI" "\<forall>r \<in> callee_saved. g1 r = regs p0 r"
    using soi unfolding irq_stub_def w1_def by blast
  define p1 where "p1 = p0\<lparr>world := w1, regs := g1\<rparr>"
  have "if n = 8 then irq_8 (chip_rtc c) (log_with c) (timer (world p1)) = Some (Inr t') else t' = timer (world p1)"
    using t' by (simp add: p1_def p0_def w w1_def)
  from run_body [OF this, of "EOI n @ [Iretq]"] obtain g2 where
    g2: "run c (irq_body n @ EOI n @ [Iretq]) p1 = run c (EOI n @ [Iretq]) (p1\<lparr>world := (world p1)\<lparr>timer := t'\<rparr>, regs := g2\<rparr>)"
      "n \<notin> {4, 8} \<longrightarrow> g2 RDI = regs p1 RDI" "\<forall>r \<in> callee_saved. g2 r = regs p1 r" by blast
  define p2 where "p2 = p1\<lparr>world := (world p1)\<lparr>timer := t'\<rparr>, regs := g2\<rparr>"
  obtain g3 where g3: "run c (EOI n @ [Iretq]) p2 =
      Some (iret (p2\<lparr>world := (world p2)\<lparr>chips := PIC_EOI (word_of_nat n) (chips (world p2))\<rparr>, regs := g3\<rparr>))"
    "g3 RDI = regs p2 RDI" "\<forall>r \<in> callee_saved. g3 r = regs p2 r"
    using run_EOI [OF assms(1), of c "[Iretq]" p2] unfolding run.simps(9) by blast
  have "(world p2)\<lparr>chips := PIC_EOI (word_of_nat n) (chips (world p2))\<rparr> = \<lparr>chips = m, irq_spurious = k, timer = t'\<rparr>"
    using PIC_EOI_ends_interrupt [OF assms(1,3)] by (simp add: p2_def p1_def p0_def w w1_def)
  moreover have "stack p2 = frame @ stack p" by (simp add: p2_def p1_def p0_def)
  ultimately have "run c (irq_stub n) p0 =
      Some (Inr (p2\<lparr>stack := stack p, world := \<lparr>chips = m, irq_spurious = k, timer = t'\<rparr>, regs := g3\<rparr>, frame))"
    using g1(1) g2(1) g3(1) frame by (simp add: p1_def [symmetric] p2_def [symmetric] iret_def)
  then show ?thesis
    using g1(2,3) g2(2,3) g3(2,3) unfolding enter by (simp add: p2_def p1_def p0_def)
qed

lemma irq_stub_early:
  assumes "n \<in> {7, 15}" and frame: "length frame = 5" and w: "world p = \<lparr>chips = take_irq n m, irq_spurious = k, timer = t\<rparr>"
  shows "\<exists>q. run c (irq_stub n) (enter (100 + n) 0 frame p) =
      Some (Inr (q, take 5 (soi_frame c @ return_address c # regs p RDI # frame))) \<and> \<not> deliverable (chips (world q)) n"
proof -
  obtain a where a: "PIC_SOI (word_of_nat n) k (take_irq n m) = (a, add64 k 1, True)" "\<not> deliverable a n"
    using assms(1) SOI_7 [of k m] SOI_15 [of k m] by auto
  have "take 5 ((soi_frame c @ return_address c # regs p RDI # frame) @ stack p) = take 5 (soi_frame c @ return_address c # regs p RDI # frame)"
    unfolding take_append using frame by simp
  then show ?thesis
    using a assms(1) frame w
    by (auto simp: irq_stub_def SOI_def IC_SOI_def low_byte enter_def has_error_code_def iret_def simp del: take_append)
qed

text \<open>
  C23. An interrupt of line \<open>n\<close> that gets through and comes to the stub of its line. For all lines but two the stub tells the
  controllers and the handler, which is the clock's for line 8, the chips end up as they were, and the
  interrupted program goes on where it was, with its stack and the registers that functions preserve; \<open>RDI\<close> survives where
  no handler is called, any other register has what the C code left in it. For lines 7 and 15
  \<open>PIC_SOI\<close> ends in an \<open>iretq\<close> of its own, whose frame starts with its own locals and return address, and the line stays in service.
\<close>

theorem irq_stub_serves:
  assumes "n < 16" and "deliverable m n" and frame: "length frame = 5"
    and w: "world p = \<lparr>chips = take_irq n m, irq_spurious = k, timer = t\<rparr>"
    and t': "if n = 8 then irq_8 (chip_rtc c) (log_with c) t = Some (Inr t') else t' = t"
  shows "\<exists>q popped. run c (irq_stub n) (enter (100 + n) 0 frame p) = Some (Inr (q, popped)) \<and>
    (if n \<in> {7, 15}
     then popped = take 5 (soi_frame c @ return_address c # regs p RDI # frame) \<and> \<not> deliverable (chips (world q)) n
     else popped = frame \<and> stack q = stack p \<and> (\<forall>r \<in> callee_saved. regs q r = regs p r) \<and>
       (n \<notin> {4, 8} \<longrightarrow> regs q RDI = regs p RDI) \<and> world q = \<lparr>chips = m, irq_spurious = k, timer = t'\<rparr>)"
proof (cases "n \<in> {7, 15}")
  case True
  from irq_stub_early [OF this frame w, of c] True show ?thesis by fastforce
next
  case False
  from irq_stub_normal [OF assms(1) False assms(2) frame w t'] False show ?thesis by auto
qed

definition demo_code :: c_code where
  "demo_code = \<lparr>leaves = (\<lambda>_ _ _. 0), return_address = 0x101234, soi_frame = [], chip_rtc = (\<lambda>_ _. 0), log_with = demo_env\<rparr>"

definition demo_processor :: processor where
  "demo_processor = \<lparr>regs = (\<lambda>_. 7), stack = [],
     world = \<lparr>chips = take_irq 8 idle_machine, irq_spurious = 0, timer = demo_clock\<rparr>\<rparr>"

definition demo_frame :: "u64 list" where
  "demo_frame = [0x100200, 8, 0x202, 0x90000, 16]"

text \<open>The clock's line on its own stub, for any C code.\<close>

theorem irq_stub_serves_witness:
  "\<exists>q t'. irq_8 (\<lambda>_ _. 0) demo_env demo_clock = Some (Inr t') \<and>
     run demo_code (irq_stub 8) (enter 108 0 demo_frame demo_processor) = Some (Inr (q, demo_frame)) \<and>
     chips (world q) = idle_machine \<and> irqCount (timer (world q)) = 1 \<and> regs q RBX = 7"
proof -
  obtain k where "log_line demo_env DEBUG timer_text demo_log = Some (Inr k)"
    using log_line_ok [OF demo_ready _ texts_fit(1,2)] by (auto simp: demo_clock_def)
  then obtain t where t: "irq_8 (\<lambda>_ _. 0) demo_env demo_clock = Some (Inr t)" "irqCount t = 1"
    by (simp add: irq_8_def ms_update_def demo_clock_def on_log_def count_up_def add_micro_def carry_milli_def carry_second_def
        read_data_def zero_time_def wrap_simps)
  have run: "if (8 :: nat) = 8 then irq_8 (chip_rtc demo_code) (log_with demo_code) demo_clock = Some (Inr t) else t = demo_clock"
    using t(1) by (simp add: demo_code_def)
  have p: "length demo_frame = 5" "world demo_processor = \<lparr>chips = take_irq 8 idle_machine, irq_spurious = 0, timer = demo_clock\<rparr>"
    "regs demo_processor RBX = 7" "RBX \<in> callee_saved" by (simp_all add: demo_frame_def demo_processor_def callee_saved_def)
  from irq_stub_serves [OF _ idle_deliverable p(1,2) run] t p(3,4) show ?thesis by fastforce
qed



end
