(* ===== verification/Spec2Isabelle.thy ===== *)
theory Spec2Isabelle
  imports Spinlock Buddy_Reserve Page_Allocator Log_Order String_Buf Arrays Heap Elf Vpages
    Printk Idt Clock Boot_Memory Cpu Symbols Syscalls Segments Memory_Init Startup
    Heap_Interrupts Region_Types Start_Sequence Interrupt_Stubs
begin

text \<open>
  A verification development for the Synos kernel (kernel/, arch/X86_64/, mutils/), a C kernel for one
  x86-64 processor.

  The program. The boot loader hands over a memory map, which arch/X86_64/multiboot.c turns into a
  chain of regions. kernel/page.c keeps for every region a buddy allocator of page frames: two bits
  per page in a table of bitmaps, one bitmap for each order, with a count and a hint for the next
  free block per order, under a spinlock. arch/X86_64/memory.c edits the page tables through
  a table that maps itself, kernel/page.c hands out virtual pages over it, and kernel/mm.c builds the
  heap and the calls for free pages on top. mutils/ holds strings, growing strings and arrays and
  the reader of ELF files. The kernel logs on a text console, takes interrupts through a descriptor
  table and two 8259A controllers, and counts time with the real-time clock.

  The theories, with what they model and what their lemmas show.

  Prelude: machine types, the wrap-around of \<open>size_t\<close> (\<open>add64\<close>, \<open>sub64\<close>), the ways in which a call may not
  return (\<open>stuck\<close>) and searches for the first index with a property.

  Block_Bits, Buddy_Model: the bitmaps of \<open>bpa_map_t\<close> and every operation of one region in kernel/page.c, from
  \<open>order_max\<close> to \<open>page_free\<close>; a region is the record \<open>mregion\<close>, its table the bytes behind \<open>page_alloc_si\<close>.
  Buddy_Inv states the invariant \<open>buddy_inv\<close> (counts and hints agree with the bits, blocks are apart),
  Block_Sets the arithmetic of sets of blocks, Buddy_Alloc, Buddy_Init, Buddy_Free and Buddy_Reserve
  that the operations keep it, Region_Contract the contracts of one region and the runs that break
  them. The bound on the pages of a region is that its bytes are below \<open>2 ^ 64\<close>; its bitmaps have
  to fit their table (\<open>table_fits\<close>), which every multiple of 4096 pages does.

  Page_Source is the interface of an allocator of frames: its locale says what an allocation does to
  the set of free frames, and proves once that frames handed out in any sequence are disjoint. It
  is interpreted on a region (\<open>pages_alloc\<close>) and on the chain of regions (\<open>alloc_page\<close>, \<open>alloc_pages\<close>).
  Regions and Page_Allocator: the chain, \<open>findFreeRegion\<close>, \<open>alloc_page\<close> to \<open>free_pages\<close> and the invariant
  of the whole system. Log_Order: \<open>log_order\<close>.

  Multiboot, Boot_Memory: the chain made from the boot loader's map, \<open>getMEMID\<close>, \<open>mem_p_protect\<close> and
  \<open>ppage_init\<close>. The loops end because entries and regions are finitely many. First_Page follows the hints that
  \<open>ppage_init\<close> leaves to the first page that is allocated. Memory_Init: \<open>mm_init\<close> over all of this, and \<open>kmalloc\<close>
  and \<open>kfree\<close> with their choice between the early allocator and the heap; its lemmas carry a bound on all
  addresses of the heap through any sequence of calls.

  Spinlock: the lock of mutils/impl/spinlock.c, as a function for one processor and as a step relation
  over any number of them, with mutual exclusion by rule induction. Locked_Object: an object whose operations take
  such a lock, in steps that interleave; its locale proves once, from laws on the steps, that the calls do what they do
  alone, in the order of their returns. Region_Locking takes \<open>pages_alloc\<close>, \<open>pages_reserve\<close> and \<open>pages_free\<close> apart into
  statements, one at a time, and interprets the locale on a region, so that the contracts of Region_Contract hold for any
  number of processors; Region_Types: the fields keep to their types through all of these statements, for bad arguments too.

  Mmu, Table_Address, Paging, Table_Growth: the processor's walk over four levels, the address of a table
  entry inside the self-mapped tables, and arch/X86_64/memory.c against that walk. Vpages: the
  virtual pages of kernel/page.c and the free-page calls of kernel/mm.c; the searches for a free
  page are partial functions of an option type, \<open>None\<close> where they do not end.

  Block_Source is the interface of an allocator of blocks: its locale says what a request takes from the memory, and
  proves once that the blocks of any sequence of requests are apart. Heap: \<open>kmalloc\<close> and \<open>kfree\<close> of kernel/mm.c over
  headers and pointers, which the locale is interpreted on as long as a header has room; the table of system calls
  rests on it. Heap_Memory: \<open>kmalloc\<close> again, on the bytes of memory, with loops that follow the \<open>next\<close> fields and are partial
  functions; it refines the lists, so its loops end on a well-formed heap. Heap_Interrupts: \<open>kmalloc\<close> cut in two by an
  interrupt whose handler calls it as well. Arrays, C_Strings, String_Buf: mutils/.
  Bytes, Elf: mutils/elf, over the bytes of a file.

  Byte_Memory: the memory as bytes, with reads and writes of little-endian numbers, \<open>memcpy\<close>, \<open>memset\<close>, and the laws for
  what they leave alone. On it lie the tables that the code reads in place. Symbols: the search for the symbol tables
  among the section headers (arch/X86_64/arch.c), the name of a return address and the walk over the frames
  (arch/X86_64/stack.c). Syscalls: the table of kernel/syscall.c in the heap, as a map from numbers to functions; a
  well-formed table has its pointers and entries in blocks of their own. Segments: gdt.c and tss.c on the table of
  boot32.asm.

  Console, Printk: the console of arch/X86_64/printk.c refines an abstract screen, and kernel/printk.c prints
  what a format string means. The screen moves up at most four rows for one character on the
  consoles of \<open>console_ok\<close>, whose cells stay below \<open>2 ^ 16\<close>; that is the number of rounds of
  \<open>settle\<close>, and \<open>scrollRep\<close> itself is a partial function that is proved to return.

  Pic, Idt, Clock: the controllers and the descriptor table of arch/X86_64/interrupts/ and the clock of
  arch/X86_64/cmos.c. The chips, and the clock's registers that change by themselves, are the
  environment: the 8259A as its data sheet has it, the clock as an arbitrary function of the
  number of reads so far. Interrupt_Stubs: the entry points of isr.asm, instruction by instruction, around the C functions
  they call, from what the processor pushes to what \<open>iretq\<close> takes; of a C function they know that it keeps the registers it has to
  keep, and what it does to the chips and the clock.

  Cpu: \<open>getCPUINFO\<close> of arch/X86_64/cpu.c, with the answers of CPUID as arguments. Startup: what \<open>startup\<close> and \<open>panic\<close> of
  kernel/system.c log, with the stack trace, \<open>arch_init\<close> and \<open>ktime\<close>; \<open>log_all\<close> is the composition of calls of
  \<open>printk\<close>, and its lemma says that the screen shows the messages one after the other. Start_Sequence: \<open>startup\<close> as one
  function on the states of all components, with what the machine contributes in the record \<open>platform\<close>; on a machine with one
  region of memory every stage is shown to return, up to the panic at the end.

  Conventions. A pointer to a structure of the program is an index or an option, \<open>NULL\<close> is \<open>None\<close>; a
  dereference of \<open>NULL\<close>, an access outside an object, a refused address, a division by zero,
  a panic and a lock that nobody releases are values of \<open>stuck\<close>, on the left of a sum. \<open>kmalloc\<close> is, for the
  clients of the heap, a function from the size to the contents of the fresh block, any contents at
  all: \<open>proper_alloc\<close> and \<open>proper_cells\<close> say no more than that the block has the size asked for.
  Assembly that the code calls appears as arguments (the addresses of handlers, what ports return).
  Signed overflow, undefined in C, is written as the processor carries it out.

  What the properties say. Most are contracts: functional behaviour on every branch, invariants kept,
  refinement of an abstract specification, round trips, bounds. Some state exactly how the code departs
  from what its comments or callers expect, each with a concrete run: memory handed out twice, a
  heap that an interrupt breaks, a heap block that is too long, interrupt lines that reach the wrong handler, the
  kernel's own memory left free at boot, and its first page handed out as the first page of the heap.

  Not modelled. Interrupts that come in during \<open>startup\<close>, and one memory under all components: each has its own bytes, so a
  write of one into the memory of another is not seen in Start_Sequence. The drivers, which have no behaviour, the boot code in assembly except the page tables and the
  descriptor table it leaves behind, single instructions that functions.asm wraps, and the declarations of the freestanding headers. Caches and the TLB are taken to
  be coherent, and the processors to see the writes of each other in one order; one processor runs outside Spinlock,
  Locked_Object and Region_Locking. A call of \<open>printk\<close> takes its memory from the
  parameter for \<open>kmalloc\<close>, not from the model of the heap.
\<close>

end
